(* ===== verification/Prelude.thy ===== *)
theory Prelude
  imports "HOL-Library.Word" "HOL-Library.Monad_Syntax"
begin

text \<open>
  Shared vocabulary of the development.

  Unsigned 64-bit machine integers are natural numbers below \<open>2 ^ 64\<close>; every
  addition of the source that may wrap is written \<open>u64 (a + b)\<close>, every 32-bit one
  \<open>u32 (a + b)\<close>.  Components whose code packs bits use \<open>64 word\<close> instead.
  The collections \<open>frontier_simps\<close>, \<open>session_simps\<close>, \<open>wire_simps\<close> and
  \<open>layout_simps\<close> carry the facts the component proofs share.
\<close>

named_theorems frontier_simps \<open>facts on contiguous frontiers\<close>
named_theorems session_simps \<open>facts on session state\<close>
named_theorems wire_simps \<open>facts on wire formats and strides\<close>
named_theorems layout_simps \<open>facts on region layout arithmetic\<close>

subsection \<open>Machine integers\<close>

definition UINT64_MAX :: nat where
  "UINT64_MAX = 2 ^ 64 - 1"

definition UINT32_MAX :: nat where
  "UINT32_MAX = 2 ^ 32 - 1"

definition u64 :: "nat \<Rightarrow> nat" where
  "u64 n = n mod 2 ^ 64"

definition u32 :: "nat \<Rightarrow> nat" where
  "u32 n = n mod 2 ^ 32"

text \<open>Wrapping subtraction on 64-bit values.\<close>

definition sub64 :: "nat \<Rightarrow> nat \<Rightarrow> nat" where
  "sub64 a b = (if b \<le> a then a - b else 2 ^ 64 + a - b)"

lemma u64_id [simp]: "n \<le> UINT64_MAX \<Longrightarrow> u64 n = n"
  by (simp add: u64_def UINT64_MAX_def)

lemma u64_Suc_id: "n < UINT64_MAX \<Longrightarrow> u64 (n + 1) = n + 1"
  by (simp add: u64_def UINT64_MAX_def)

lemma u64_le [simp]: "u64 n \<le> UINT64_MAX"
proof -
  have "u64 n < 2 ^ 64"
    unfolding u64_def by (rule mod_less_divisor) simp
  then show ?thesis
    by (simp add: UINT64_MAX_def)
qed

lemma u64_max_wraps [simp]: "u64 (UINT64_MAX + 1) = 0"
  by (simp add: u64_def UINT64_MAX_def)

lemma u32_id [simp]: "n \<le> UINT32_MAX \<Longrightarrow> u32 n = n"
  by (simp add: u32_def UINT32_MAX_def)

lemma UINT64_MAX_pos [simp]: "0 < UINT64_MAX"
  by (simp add: UINT64_MAX_def)

lemma sub64_plain [simp]: "b \<le> a \<Longrightarrow> sub64 a b = a - b"
  by (simp add: sub64_def)

subsection \<open>Lists\<close>

lemma filter_length_less:
  assumes "x \<in> set xs" "\<not> P x"
  shows "length (filter P xs) < length xs"
  using assms by (simp add: length_filter_less)

text \<open>Running sums: the start of each block when blocks of the given sizes are laid out from \<open>a\<close>.\<close>

fun starts_from :: "nat \<Rightarrow> nat list \<Rightarrow> nat list" where
  "starts_from a [] = []"
| "starts_from a (n # ns) = a # starts_from (a + n) ns"

lemma length_starts_from [simp]: "length (starts_from a ns) = length ns"
  by (induction ns arbitrary: a) auto

lemma nth_starts_from:
  "i < length ns \<Longrightarrow> starts_from a ns ! i = a + sum_list (take i ns)"
proof (induction ns arbitrary: a i)
  case (Cons n ns)
  then show ?case by (cases i) auto
qed simp

lemma starts_from_append:
  "starts_from a (ns @ ms) = starts_from a ns @ starts_from (a + sum_list ns) ms"
  by (induction ns arbitrary: a) (auto simp: add.assoc)

end
