(* ===== verification/OrdMap.thy ===== *)
theory OrdMap
  imports Prelude
begin

text \<open>
  Ordered maps with at most one binding per key, as \<open>std::map\<close> and
  \<open>absl::btree_map\<close> provide them: association lists in strictly ascending key
  order, so that iteration, \<open>begin\<close> and \<open>rbegin\<close> follow the key order.
  The locale \<open>ordered_map\<close> is the interface the clients rely on; it is
  interpreted on the list implementation at the end.
\<close>

type_synonym ('k, 'v) omap = "('k \<times> 'v) list"

definition om_ok :: "('k::linorder, 'v) omap \<Rightarrow> bool" where
  "om_ok m = sorted_wrt (<) (map fst m)"

definition om_find :: "('k, 'v) omap \<Rightarrow> 'k \<Rightarrow> 'v option" where
  "om_find m k = map_of m k"

fun om_put :: "('k::linorder) \<Rightarrow> 'v \<Rightarrow> ('k, 'v) omap \<Rightarrow> ('k, 'v) omap" where
  "om_put k v [] = [(k, v)]"
| "om_put k v ((k', v') # m) =
     (if k < k' then (k, v) # (k', v') # m
      else if k = k' then (k, v) # m
      else (k', v') # om_put k v m)"

text \<open>\<open>emplace\<close>: inserts only when the key is absent, and reports whether it did.\<close>

definition om_emplace :: "('k::linorder) \<Rightarrow> 'v \<Rightarrow> ('k, 'v) omap \<Rightarrow> ('k, 'v) omap \<times> bool" where
  "om_emplace k v m = (case om_find m k of None \<Rightarrow> (om_put k v m, True) | Some _ \<Rightarrow> (m, False))"

definition om_erase :: "'k \<Rightarrow> ('k, 'v) omap \<Rightarrow> ('k, 'v) omap" where
  "om_erase k m = filter (\<lambda>p. fst p \<noteq> k) m"

definition om_keys :: "('k, 'v) omap \<Rightarrow> 'k set" where
  "om_keys m = fst ` set m"

lemma om_ok_Nil [simp]: "om_ok []"
  by (simp add: om_ok_def)

lemma om_ok_Cons [simp]:
  "om_ok ((k, v) # m) \<longleftrightarrow> (\<forall>x\<in>om_keys m. k < x) \<and> om_ok m"
  by (auto simp: om_ok_def om_keys_def)

lemma om_keys_Nil [simp]: "om_keys [] = {}"
  by (simp add: om_keys_def)

lemma om_keys_Cons [simp]: "om_keys ((k, v) # m) = insert k (om_keys m)"
  by (simp add: om_keys_def)

lemma om_keys_put [simp]: "om_keys (om_put k v m) = insert k (om_keys m)"
  by (induction k v m rule: om_put.induct) auto

lemma om_keys_erase [simp]: "om_keys (om_erase k m) = om_keys m - {k}"
  by (auto simp: om_keys_def om_erase_def)

lemma om_ok_put [simp]: "om_ok m \<Longrightarrow> om_ok (om_put k v m)"
  by (induction k v m rule: om_put.induct) (auto simp: not_less)

lemma om_ok_erase [simp]: "om_ok m \<Longrightarrow> om_ok (om_erase k m)"
  by (induction m) (auto simp: om_erase_def om_keys_def)

lemma om_find_Nil [simp]: "om_find [] k = None"
  by (simp add: om_find_def)

lemma om_find_Cons [simp]:
  "om_find ((k', v) # m) k = (if k = k' then Some v else om_find m k)"
  by (auto simp: om_find_def)

lemma om_find_put [simp]:
  "om_find (om_put k v m) k' = (if k' = k then Some v else om_find m k')"
  by (induction k v m rule: om_put.induct) auto

lemma om_find_erase [simp]:
  "om_find (om_erase k m) k' = (if k' = k then None else om_find m k')"
  by (induction m) (auto simp: om_find_def om_erase_def)

lemma om_find_None_iff: "om_find m k = None \<longleftrightarrow> k \<notin> om_keys m"
  by (auto simp: om_find_def om_keys_def map_of_eq_None_iff)

lemma om_find_Some_keys: "om_find m k = Some v \<Longrightarrow> k \<in> om_keys m"
  by (metis om_find_None_iff option.distinct(1))

lemma om_find_Some_set: "om_find m k = Some v \<Longrightarrow> (k, v) \<in> set m"
  by (simp add: om_find_def map_of_SomeD)

lemma om_find_eq_Some: "om_ok m \<Longrightarrow> om_find m k = Some v \<longleftrightarrow> (k, v) \<in> set m"
  by (auto simp: om_find_def om_ok_def strict_sorted_iff intro: map_of_is_SomeI dest: map_of_SomeD)

lemma length_om_erase_less: "om_find m k = Some v \<Longrightarrow> length (om_erase k m) < length m"
  unfolding om_erase_def by (rule filter_length_less[of "(k, v)"]) (auto dest: om_find_Some_set)

lemma length_om_put_fresh: "k \<notin> om_keys m \<Longrightarrow> length (om_put k v m) = Suc (length m)"
  by (induction k v m rule: om_put.induct) auto

lemma om_erase_absent [simp]: "k \<notin> om_keys m \<Longrightarrow> om_erase k m = m"
  by (auto simp: om_erase_def om_keys_def filter_id_conv)

text \<open>The interface: what lookups return after each update, and that updates keep the order.\<close>

locale ordered_map =
  fixes ok :: "'m \<Rightarrow> bool"
    and find :: "'m \<Rightarrow> 'k \<Rightarrow> 'v option"
    and put :: "'k \<Rightarrow> 'v \<Rightarrow> 'm \<Rightarrow> 'm"
    and erase :: "'k \<Rightarrow> 'm \<Rightarrow> 'm"
  assumes ok_put: "ok m \<Longrightarrow> ok (put k v m)"
    and ok_erase: "ok m \<Longrightarrow> ok (erase k m)"
    and find_put: "ok m \<Longrightarrow> find (put k v m) k' = (if k' = k then Some v else find m k')"
    and find_erase: "ok m \<Longrightarrow> find (erase k m) k' = (if k' = k then None else find m k')"
begin

lemma erase_put: "ok m \<Longrightarrow> find (erase k (put k v m)) = find (erase k m)"
  by (auto simp: find_put find_erase ok_put)

lemma put_comm:
  "ok m \<Longrightarrow> k \<noteq> k' \<Longrightarrow> find (put k v (put k' v' m)) = find (put k' v' (put k v m))"
  by (auto simp: find_put ok_put)

lemma fold_put_absent:
  "ok m \<Longrightarrow> k \<notin> fst ` set kvs \<Longrightarrow>
   find (fold (\<lambda>(k, v). put k v) kvs m) k = find m k"
  by (induction kvs arbitrary: m) (auto simp: find_put ok_put)

end

interpretation om: ordered_map om_ok om_find om_put om_erase
  by unfold_locales auto

end
