(* ===== verification/DurableFrontier.thy ===== *)
theory DurableFrontier
  imports OrdMap
begin

text \<open>
  \<open>common/durable_frontier.h\<close>: out-of-order durable completions are collected and
  only the contiguous prefix of the source sequence is released to the ACK frontier.
\<close>

record DurableBatch =
  db_message_count :: nat
  db_client_id :: nat

record DurableFrontier =
  df_next :: nat
  df_pending :: "(nat, DurableBatch) omap"

definition DurableFrontier_init :: DurableFrontier where
  "DurableFrontier_init = \<lparr>df_next = 0, df_pending = []\<rparr>"

text \<open>The release loop of \<open>Record\<close>.\<close>

function release :: "nat \<Rightarrow> (nat, DurableBatch) omap \<Rightarrow> DurableBatch list
    \<Rightarrow> nat \<times> (nat, DurableBatch) omap \<times> DurableBatch list" where
  "release n p out =
     (case om_find p n of
        None \<Rightarrow> (n, p, out)
      | Some b \<Rightarrow> release (u64 (n + 1)) (om_erase n p) (out @ [b]))"
  by pat_completeness auto
termination
  by (relation "measure (\<lambda>(n, p, out). length p)") (auto simp: length_om_erase_less)

text \<open>\<open>Record\<close>; \<open>None\<close> for the output vector is the null pointer.\<close>

definition Record :: "nat \<Rightarrow> DurableBatch \<Rightarrow> DurableBatch list option \<Rightarrow> DurableFrontier
    \<Rightarrow> bool \<times> DurableFrontier \<times> DurableBatch list option" where
  "Record sequence batch out f =
     (case out of
        None \<Rightarrow> (False, f, None)
      | Some newly \<Rightarrow>
          if db_message_count batch = 0 then (False, f, out)
          else if sequence < df_next f then (False, f, out)
          else (case om_emplace sequence batch (df_pending f) of
                  (p, inserted) \<Rightarrow>
                    if \<not> inserted then (False, f, out)
                    else (case release (df_next f) p newly of
                            (n', p', newly') \<Rightarrow>
                              (True, \<lparr>df_next = n', df_pending = p'\<rparr>, Some newly'))))"

definition next_sequence :: "DurableFrontier \<Rightarrow> nat" where
  "next_sequence f = df_next f"

definition pending_size :: "DurableFrontier \<Rightarrow> nat" where
  "pending_size f = length (df_pending f)"

declare release.simps [simp del]

text \<open>A run of calls with one output vector.\<close>

fun record_all :: "(nat \<times> DurableBatch) list \<Rightarrow> DurableFrontier \<Rightarrow> DurableBatch list
    \<Rightarrow> DurableFrontier \<times> DurableBatch list" where
  "record_all [] f out = (f, out)"
| "record_all ((s, b) # calls) f out =
     (case Record s b (Some out) f of
        (_, f', out') \<Rightarrow> record_all calls f' (the out'))"

text \<open>What the frontier promises: the first valid batch recorded for each sequence.\<close>

definition first_batch :: "(nat \<times> DurableBatch) list \<Rightarrow> nat \<Rightarrow> DurableBatch option" where
  "first_batch calls = map_of (filter (\<lambda>(s, b). db_message_count b \<noteq> 0) calls)"


subsection \<open>The release loop\<close>

lemma release_frontier:
  assumes "release n p out = (n', p', out')" "om_ok p" "\<forall>k\<in>om_keys p. k < UINT64_MAX"
  shows "n \<le> n' \<and> om_ok p' \<and> om_find p n' = None \<and>
         (\<forall>k. n \<le> k \<and> k < n' \<longrightarrow> om_find p k \<noteq> None) \<and>
         (\<forall>k. om_find p' k = (if n \<le> k \<and> k < n' then None else om_find p k)) \<and>
         out' = out @ map (\<lambda>k. the (om_find p k)) [n..<n']"
  using assms
proof (induction n p out rule: release.induct)
  case (1 n p out)
  show ?case
  proof (cases "om_find p n")
    case None
    with "1.prems" show ?thesis by (auto simp: release.simps[of n p out])
  next
    case (Some b)
    have n: "n < UINT64_MAX"
      by (rule bspec[OF "1.prems"(3) om_find_Some_keys[OF Some]])
    then have u: "u64 (n + 1) = Suc n"
      by (simp add: u64_Suc_id[unfolded Suc_eq_plus1[symmetric]])
    have rec: "release (Suc n) (om_erase n p) (out @ [b]) = (n', p', out')"
      using "1.prems"(1) Some u by (simp add: release.simps[of n p out])
    have ok': "om_ok (om_erase n p)" "\<forall>k\<in>om_keys (om_erase n p). k < UINT64_MAX"
      using "1.prems"(2,3) by simp_all
    have ih: "Suc n \<le> n' \<and> om_ok p' \<and> om_find (om_erase n p) n' = None \<and>
         (\<forall>k. Suc n \<le> k \<and> k < n' \<longrightarrow> om_find (om_erase n p) k \<noteq> None) \<and>
         (\<forall>k. om_find p' k = (if Suc n \<le> k \<and> k < n' then None else om_find (om_erase n p) k)) \<and>
         out' = (out @ [b]) @ map (\<lambda>k. the (om_find (om_erase n p) k)) [Suc n..<n']"
      using "1.IH"[OF Some, unfolded u, OF rec ok'] .
    have split: "[n..<n'] = n # [Suc n..<n']"
      using ih by (simp add: upt_rec)
    have out: "out' = out @ map (\<lambda>k. the (om_find p k)) [n..<n']"
      using ih Some unfolding split by simp
    have found: "om_find p k \<noteq> None" if "n \<le> k" "k < n'" for k
      using ih that Some by (cases "k = n") (auto split: if_splits)
    have left: "om_find p' k = (if n \<le> k \<and> k < n' then None else om_find p k)" for k
      using ih by (cases "k = n") auto
    show ?thesis
      using ih out found left by auto
  qed
qed

lemma Record_total:
  "\<exists>ok f' out'. Record s b (Some out) f = (ok, f', Some out')"
  by (auto simp: Record_def om_emplace_def split: prod.splits option.splits)

subsection \<open>Runs refine the first-batch specification\<close>

definition frontier_inv ::
  "(nat \<Rightarrow> DurableBatch option) \<Rightarrow> DurableFrontier \<Rightarrow> DurableBatch list \<Rightarrow> bool" where
  "frontier_inv M f out \<longleftrightarrow>
     om_ok (df_pending f) \<and>
     (\<forall>k. om_find (df_pending f) k = (if k < df_next f then None else M k)) \<and>
     M (df_next f) = None \<and> (\<forall>k < df_next f. M k \<noteq> None) \<and>
     out = map (\<lambda>k. the (M k)) [0..<df_next f]"

lemma frontier_inv_init: "frontier_inv (\<lambda>_. None) DurableFrontier_init []"
  by (simp add: frontier_inv_def DurableFrontier_init_def)

definition extend_first ::
  "(nat \<Rightarrow> DurableBatch option) \<Rightarrow> nat \<Rightarrow> DurableBatch \<Rightarrow> nat \<Rightarrow> DurableBatch option" where
  "extend_first M s b = (if db_message_count b = 0 \<or> M s \<noteq> None then M else M(s \<mapsto> b))"

lemma frontier_inv_Record:
  assumes inv: "frontier_inv M f out" and dom: "\<forall>k. M k \<noteq> None \<longrightarrow> k < UINT64_MAX"
    and s: "s < UINT64_MAX" and r: "Record s b (Some out) f = (ok, f', Some out')"
  shows "frontier_inv (extend_first M s b) f' out' \<and>
         (ok \<longleftrightarrow> db_message_count b \<noteq> 0 \<and> M s = None)"
proof (cases "db_message_count b = 0 \<or> M s \<noteq> None")
  case True
  then have "f' = f \<and> out' = out \<and> \<not> ok"
    using r inv by (auto simp: Record_def frontier_inv_def om_emplace_def split: if_splits option.splits)
  with inv True show ?thesis by (auto simp: extend_first_def)
next
  case False
  let ?n = "df_next f"
  let ?p = "om_put s b (df_pending f)"
  have fresh: "om_find (df_pending f) s = None" and ge: "\<not> s < ?n"
    using False inv by (auto simp: frontier_inv_def)
  obtain n' p' out1 where rel: "release ?n ?p out = (n', p', out1)"
    by (cases "release ?n ?p out") auto
  then have f': "f' = \<lparr>df_next = n', df_pending = p'\<rparr>" "out' = out1" "ok"
    using r False fresh ge by (auto simp: Record_def om_emplace_def)
  have keys: "\<forall>k\<in>om_keys ?p. k < UINT64_MAX"
  proof
    fix k assume "k \<in> om_keys ?p"
    then have "k = s \<or> om_find (df_pending f) k \<noteq> None"
      by (auto simp: om_find_None_iff)
    then show "k < UINT64_MAX"
      using s dom inv by (auto simp: frontier_inv_def split: if_splits)
  qed
  have ok: "om_ok ?p"
    using inv by (simp add: frontier_inv_def)
  have R: "?n \<le> n'" "om_ok p'" "om_find ?p n' = None"
      "\<And>k. ?n \<le> k \<Longrightarrow> k < n' \<Longrightarrow> om_find ?p k \<noteq> None"
      "\<And>k. om_find p' k = (if ?n \<le> k \<and> k < n' then None else om_find ?p k)"
      "out1 = out @ map (\<lambda>k. the (om_find ?p k)) [?n..<n']"
    using release_frontier[OF rel ok keys] by blast+
  have I: "\<And>k. om_find (df_pending f) k = (if k < ?n then None else M k)"
      "\<And>k. k < ?n \<Longrightarrow> M k \<noteq> None" "out = map (\<lambda>k. the (M k)) [0..<?n]"
    using inv by (auto simp: frontier_inv_def)
  let ?M = "M(s \<mapsto> b)"
  have fp: "om_find ?p k = ?M k" if "?n \<le> k" for k
    using that I(1) by auto
  have eq: "map (\<lambda>k. the (om_find ?p k)) [?n..<n'] = map (\<lambda>k. the (?M k)) [?n..<n']"
    using fp by (intro map_cong) auto
  have old: "map (\<lambda>k. the (M k)) [0..<?n] = map (\<lambda>k. the (?M k)) [0..<?n]"
    using ge by (intro map_cong) auto
  have join: "[0..<n'] = [0..<?n] @ [?n..<n']"
    using upt_add_eq_append[of 0 ?n "n' - ?n"] R(1) by simp
  have out: "out1 = map (\<lambda>k. the (?M k)) [0..<n']"
    unfolding join map_append using R(6) eq old I(3) by simp
  have stop: "?M n' = None"
    using R(1,3) fp[of n'] by simp
  have below: "?M k \<noteq> None" if "k < n'" for k
    using R(4)[of k] fp[of k] that I(2)[of k] by (cases "?n \<le> k") auto
  have pend: "om_find p' k = (if k < n' then None else ?M k)" for k
    using R(1) R(5)[of k] fp[of k] I(1)[of k] ge by (cases "?n \<le> k") auto
  show ?thesis
    using False R(2) f' out stop below pend by (simp add: extend_first_def frontier_inv_def)
qed

lemma first_batch_snoc:
  "first_batch (cs @ [(s, b)]) = extend_first (first_batch cs) s b"
  by (auto simp: first_batch_def extend_first_def map_add_def fun_eq_iff split: option.splits)

lemma first_batch_dom:
  "\<forall>(s, b)\<in>set cs. s < UINT64_MAX \<Longrightarrow> first_batch cs k \<noteq> None \<Longrightarrow> k < UINT64_MAX"
  by (auto simp: first_batch_def dest!: map_of_SomeD)

lemma frontier_inv_record_all:
  assumes "frontier_inv (first_batch prev) f out"
    and "\<forall>(s, b)\<in>set (prev @ calls). s < UINT64_MAX"
    and "record_all calls f out = (f', out')"
  shows "frontier_inv (first_batch (prev @ calls)) f' out'"
  using assms
proof (induction calls arbitrary: prev f out)
  case (Cons c calls)
  obtain s b where c: "c = (s, b)" by (cases c)
  obtain ok f1 out1 where r: "Record s b (Some out) f = (ok, f1, Some out1)"
    using Record_total by blast
  have dom: "\<forall>k. first_batch prev k \<noteq> None \<longrightarrow> k < UINT64_MAX"
    using Cons.prems(2) first_batch_dom[of prev] by simp
  have "frontier_inv (first_batch (prev @ [(s, b)])) f1 out1"
    using frontier_inv_Record[OF Cons.prems(1) dom _ r] Cons.prems(2) c
    by (simp add: first_batch_snoc)
  then show ?case
    using Cons.IH[of "prev @ [(s, b)]" f1 out1] Cons.prems(2,3) c r by simp
qed simp

subsection \<open>Properties\<close>

text \<open>C11: after any sequence of completions, in any order and with duplicates, the batches
  released to the ACK frontier are exactly the first valid completion of every sequence
  below the frontier, in sequence order, and the frontier stops at the first sequence that
  has not completed.\<close>

theorem durable_frontier_releases_prefix:
  assumes "\<forall>(s, b)\<in>set calls. s < UINT64_MAX"
    and "record_all calls DurableFrontier_init [] = (f, out)"
  shows "out = map (\<lambda>k. the (first_batch calls k)) [0..<next_sequence f] \<and>
         (\<forall>k < next_sequence f. first_batch calls k \<noteq> None) \<and>
         first_batch calls (next_sequence f) = None"
  using frontier_inv_record_all[of "[]" DurableFrontier_init "[]" calls f out] assms frontier_inv_init
  by (simp add: frontier_inv_def next_sequence_def first_batch_def)

lemma durable_frontier_releases_prefix_witness:
  "let b = (\<lambda>n. \<lparr>db_message_count = n, db_client_id = 7\<rparr>) in
   snd (record_all [(1, b 10), (2, b 20), (1, b 99), (0, b 5)] DurableFrontier_init []) =
   [b 5, b 10, b 20]"
proof -
  define b where "b = (\<lambda>n. \<lparr>db_message_count = n, db_client_id = 7\<rparr>)"
  define calls where "calls = [(1::nat, b 10), (2, b 20), (1, b 99), (0, b 5)]"
  obtain f out where r: "record_all calls DurableFrontier_init [] = (f, out)"
    by (cases "record_all calls DurableFrontier_init []")
  have h: "\<forall>(s, b)\<in>set calls. s < UINT64_MAX"
    by (simp add: calls_def UINT64_MAX_def)
  have P: "(\<forall>k < next_sequence f. first_batch calls k \<noteq> None)" "first_batch calls (next_sequence f) = None"
    "out = map (\<lambda>k. the (first_batch calls k)) [0..<next_sequence f]"
    using durable_frontier_releases_prefix[OF h r] by auto
  have v: "first_batch calls 0 = Some (b 5)" "first_batch calls 1 = Some (b 10)"
    "first_batch calls 2 = Some (b 20)" "first_batch calls 3 = None"
    by (simp_all add: first_batch_def calls_def b_def)
  have "\<not> 3 < next_sequence f" using P(1) v(4) by blast
  moreover have "next_sequence f \<noteq> 0" "next_sequence f \<noteq> 1" "next_sequence f \<noteq> 2"
    using P(2) v by (metis option.distinct(1))+
  ultimately have "next_sequence f = 3" by linarith
  then have "out = [b 5, b 10, b 20]"
    using P(3) v by (simp add: upt_rec numeral_eq_Suc)
  then show ?thesis
    using r by (simp add: calls_def b_def Let_def)
qed

end
