(* ===== verification/ClientState.thy ===== *)
theory ClientState
  imports OrdMap
begin

text \<open>
  Per-session sequencing state of the ORDER=5 sequencer: \<open>OptimizedClientState\<close> of
  \<open>embarlet/sequencer_utils.h\<close> (frontier, duplicate window, gap clock, fence cache), the
  fencing predicates beside it, and \<open>ClientEmitTracker\<close> of \<open>embarlet/topic.h\<close>.
  The boolean array \<open>window_seen\<close> is a function on the slot index \<open>seq mod 1024\<close>.
\<close>

subsection \<open>OptimizedClientState\<close>

definition kClientWindowSize :: nat where
  "kClientWindowSize = 1024"

record OptimizedClientState =
  next_expected :: nat
  highest_sequenced :: nat
  last_epoch :: nat
  fenced :: bool
  committed_hwm :: nat
  fence_epoch :: nat
  session_epoch :: nat
  gap_since_ns :: nat
  window_base :: nat
  window_seen :: "nat \<Rightarrow> bool"

definition ClientState_init :: OptimizedClientState where
  "ClientState_init = \<lparr>next_expected = 0, highest_sequenced = 0, last_epoch = 0, fenced = False,
     committed_hwm = 0, fence_epoch = 0, session_epoch = 0, gap_since_ns = 0,
     window_base = 0, window_seen = (\<lambda>_. False)\<rparr>"

definition is_duplicate :: "OptimizedClientState \<Rightarrow> nat \<Rightarrow> bool" where
  "is_duplicate st seq =
     (if seq < window_base st then False
      else if seq \<ge> u64 (window_base st + kClientWindowSize) then False
      else window_seen st (seq mod kClientWindowSize))"

text \<open>The slide loop at the end of \<open>mark_sequenced\<close>.\<close>

function slide_window :: "nat \<Rightarrow> nat \<Rightarrow> nat \<Rightarrow> (nat \<Rightarrow> bool) \<Rightarrow> nat \<times> (nat \<Rightarrow> bool)" where
  "slide_window nxt seq base seen =
     (if base < nxt \<and> u64 (base + kClientWindowSize) \<le> u64 (seq + kClientWindowSize div 2)
      then slide_window nxt seq (base + 1) (seen(base mod kClientWindowSize := False))
      else (base, seen))"
  by pat_completeness auto
termination
  by (relation "measure (\<lambda>(nxt, seq, base, seen). nxt - base)") auto

declare slide_window.simps [simp del]

definition mark_sequenced :: "OptimizedClientState \<Rightarrow> nat \<Rightarrow> OptimizedClientState" where
  "mark_sequenced st seq =
     (let st1 = st\<lparr>highest_sequenced := max (highest_sequenced st) seq\<rparr>;
          seen = (if seq \<ge> window_base st \<and> seq < u64 (window_base st + kClientWindowSize)
                  then (window_seen st)(seq mod kClientWindowSize := True) else window_seen st);
          (base', seen') = slide_window (next_expected st) seq (window_base st) seen
      in st1\<lparr>window_base := base', window_seen := seen'\<rparr>)"

definition advance_next_expected :: "OptimizedClientState \<Rightarrow> OptimizedClientState" where
  "advance_next_expected st = st\<lparr>next_expected := u64 (next_expected st + 1), gap_since_ns := 0\<rparr>"

definition set_next_expected :: "OptimizedClientState \<Rightarrow> nat \<Rightarrow> OptimizedClientState" where
  "set_next_expected st nxt =
     (let st1 = (if nxt \<noteq> next_expected st then st\<lparr>gap_since_ns := 0\<rparr> else st)
      in st1\<lparr>next_expected := nxt\<rparr>)"

definition note_gap :: "OptimizedClientState \<Rightarrow> nat \<Rightarrow> OptimizedClientState" where
  "note_gap st now_ns =
     (if \<not> fenced st \<and> gap_since_ns st = 0 then st\<lparr>gap_since_ns := now_ns\<rparr> else st)"

definition fence :: "OptimizedClientState \<Rightarrow> OptimizedClientState" where
  "fence st =
     (if \<not> fenced st
      then st\<lparr>fenced := True,
              committed_hwm := (if next_expected st = 0 then 0 else next_expected st - 1)\<rparr>
      else st)"

definition HasCommittedPrefix :: "OptimizedClientState \<Rightarrow> bool" where
  "HasCommittedPrefix st = (next_expected st > 0)"

subsection \<open>Fencing and recovery predicates\<close>

definition CanFenceSessionEpoch :: "nat \<Rightarrow> bool" where
  "CanFenceSessionEpoch e = (e \<noteq> 0)"

definition ShouldFenceSessionGap :: "OptimizedClientState \<Rightarrow> nat \<Rightarrow> nat \<Rightarrow> bool" where
  "ShouldFenceSessionGap st now_ns lease_ns =
     (CanFenceSessionEpoch (session_epoch st) \<and> \<not> fenced st \<and> gap_since_ns st \<noteq> 0 \<and>
      sub64 now_ns (gap_since_ns st) \<ge> lease_ns)"

definition kForceExpireShortLeaseNs :: nat where
  "kForceExpireShortLeaseNs = 250 * 1000 * 1000"

definition EffectiveOrder5SessionFenceLeaseNs :: "nat \<Rightarrow> bool \<Rightarrow> nat" where
  "EffectiveOrder5SessionFenceLeaseNs lease force =
     (if \<not> force then lease
      else if lease < kForceExpireShortLeaseNs then lease else kForceExpireShortLeaseNs)"

definition ShouldClearSessionGapFromHeldMax :: "nat \<Rightarrow> nat \<Rightarrow> bool" where
  "ShouldClearSessionGapFromHeldMax nxt max_held = (max_held \<le> nxt)"

record Order5SlotIdentity =
  os_broker_id :: int
  os_slot_offset :: nat
  os_pbr_index :: nat

definition Order5SlotMatches :: "Order5SlotIdentity \<Rightarrow> int \<Rightarrow> nat \<Rightarrow> nat \<Rightarrow> bool" where
  "Order5SlotMatches slot broker off pbr =
     (os_broker_id slot = broker \<and> os_slot_offset slot = off \<and> os_pbr_index slot = pbr)"

definition RecoveredNextExpected :: "nat \<Rightarrow> nat \<Rightarrow> nat" where
  "RecoveredNextExpected goi_next entry_expected = max goi_next entry_expected"

text \<open>The two overloads of \<open>ReconnectAnswerHwm\<close>.\<close>

definition ReconnectAnswerHwm2 :: "nat \<Rightarrow> nat \<Rightarrow> nat" where
  "ReconnectAnswerHwm2 entry_hwm goi_hwm = min entry_hwm goi_hwm"

definition ReconnectAnswerHwm :: "nat \<Rightarrow> bool \<Rightarrow> nat \<Rightarrow> nat" where
  "ReconnectAnswerHwm entry_hwm found goi_hwm =
     (if \<not> found then entry_hwm else min entry_hwm goi_hwm)"

definition ShouldTerminalFenceAckRelay :: "nat \<Rightarrow> bool \<Rightarrow> nat \<Rightarrow> bool" where
  "ShouldTerminalFenceAckRelay client_hwm found goi_hwm = (\<not> found \<or> client_hwm > goi_hwm)"

definition ShouldWithholdAckRelay :: "nat \<Rightarrow> nat \<Rightarrow> bool" where
  "ShouldWithholdAckRelay producing control = (control \<noteq> 0 \<and> producing < control)"

definition ShouldRejectOrder5SpatialGuard :: "bool \<Rightarrow> bool \<Rightarrow> nat \<Rightarrow> nat \<Rightarrow> bool" where
  "ShouldRejectOrder5SpatialGuard active fncd batch_seq durable_expected =
     (active \<and> (fncd \<or> batch_seq < durable_expected))"

subsection \<open>ClientEmitTracker\<close>

text \<open>\<open>absl::btree_set\<close> is an ordered map to \<open>unit\<close>; \<open>contiguous_max = UINT64_MAX\<close> is the
  unset sentinel.\<close>

record ClientEmitTracker =
  contiguous_max :: nat
  et_pending :: "(nat, unit) omap"

definition EmitTracker_init :: ClientEmitTracker where
  "EmitTracker_init = \<lparr>contiguous_max = UINT64_MAX, et_pending = []\<rparr>"

definition IsEmitted :: "ClientEmitTracker \<Rightarrow> nat \<Rightarrow> bool" where
  "IsEmitted t seq =
     (if contiguous_max t \<noteq> UINT64_MAX \<and> seq \<le> contiguous_max t then True
      else om_find (et_pending t) seq \<noteq> None)"

function absorb_pending :: "nat \<Rightarrow> (nat, unit) omap \<Rightarrow> nat \<times> (nat, unit) omap" where
  "absorb_pending cm p =
     (case om_find p (u64 (cm + 1)) of
        None \<Rightarrow> (cm, p)
      | Some _ \<Rightarrow> absorb_pending (u64 (cm + 1)) (om_erase (u64 (cm + 1)) p))"
  by pat_completeness auto
termination
  by (relation "measure (\<lambda>(cm, p). length p)") (auto simp: length_om_erase_less)

declare absorb_pending.simps [simp del]

definition MarkEmitted :: "ClientEmitTracker \<Rightarrow> nat \<Rightarrow> ClientEmitTracker" where
  "MarkEmitted t seq =
     (if contiguous_max t = UINT64_MAX then
        if seq = 0 then t\<lparr>contiguous_max := 0\<rparr>
        else t\<lparr>et_pending := om_put seq () (et_pending t)\<rparr>
      else if seq \<le> contiguous_max t then t
      else if seq = u64 (contiguous_max t + 1) then
        (case absorb_pending seq (et_pending t) of
           (cm, p) \<Rightarrow> t\<lparr>contiguous_max := cm, et_pending := p\<rparr>)
      else t\<lparr>et_pending := om_put seq () (et_pending t)\<rparr>)"

subsection \<open>The emit tracker is an exact set\<close>

definition tracker_ok :: "ClientEmitTracker \<Rightarrow> bool" where
  "tracker_ok t \<longleftrightarrow> om_ok (et_pending t) \<and> contiguous_max t \<le> UINT64_MAX \<and>
                    (\<forall>k\<in>om_keys (et_pending t). k < UINT64_MAX)"

lemma tracker_ok_init [simp]: "tracker_ok EmitTracker_init"
  by (simp add: tracker_ok_def EmitTracker_init_def)

lemma IsEmitted_init [simp]: "\<not> IsEmitted EmitTracker_init k"
  by (simp add: IsEmitted_def EmitTracker_init_def)

lemma absorb_pending_set:
  assumes "absorb_pending cm p = (cm', p')" "om_ok p" "\<forall>k\<in>om_keys p. k < UINT64_MAX" "cm < UINT64_MAX"
  shows "om_ok p' \<and> cm \<le> cm' \<and> cm' < UINT64_MAX \<and> om_keys p' \<subseteq> om_keys p \<and>
         (\<forall>k. k \<le> cm' \<or> k \<in> om_keys p' \<longleftrightarrow> k \<le> cm \<or> k \<in> om_keys p)"
  using assms
proof (induction cm p rule: absorb_pending.induct)
  case (1 cm p)
  show ?case
  proof (cases "om_find p (u64 (cm + 1))")
    case None
    with "1.prems" show ?thesis by (auto simp: absorb_pending.simps[of cm p])
  next
    case (Some v)
    have u: "u64 (cm + 1) = cm + 1" using "1.prems"(4) by (rule u64_Suc_id)
    have mem: "cm + 1 \<in> om_keys p" using Some u om_find_Some_keys by metis
    have rec: "absorb_pending (cm + 1) (om_erase (cm + 1) p) = (cm', p')"
      using "1.prems"(1) Some u by (simp add: absorb_pending.simps[of cm p])
    have hyp: "om_ok (om_erase (cm + 1) p)" "\<forall>k\<in>om_keys (om_erase (cm + 1) p). k < UINT64_MAX"
        "cm + 1 < UINT64_MAX"
      using "1.prems"(2,3) mem by auto
    have ih: "om_ok p' \<and> cm + 1 \<le> cm' \<and> cm' < UINT64_MAX \<and> om_keys p' \<subseteq> om_keys p - {cm + 1} \<and>
         (\<forall>k. k \<le> cm' \<or> k \<in> om_keys p' \<longleftrightarrow> k \<le> cm + 1 \<or> k \<in> om_keys p - {cm + 1})"
      using "1.IH"[OF Some, unfolded u, OF rec hyp] by simp
    have "(k \<le> cm + 1 \<or> k \<in> om_keys p - {cm + 1}) = (k \<le> cm \<or> k \<in> om_keys p)" for k
      using mem by (cases "k = cm + 1") auto
    with ih show ?thesis by auto
  qed
qed

lemma IsEmitted_alt:
  "IsEmitted t k \<longleftrightarrow> contiguous_max t \<noteq> UINT64_MAX \<and> k \<le> contiguous_max t \<or> k \<in> om_keys (et_pending t)"
  by (auto simp: IsEmitted_def om_find_None_iff dest: om_find_Some_keys)

lemma MarkEmitted_exact:
  assumes ok: "tracker_ok t" and s: "s < UINT64_MAX"
  shows "tracker_ok (MarkEmitted t s)"
    and "IsEmitted (MarkEmitted t s) k \<longleftrightarrow> k = s \<or> IsEmitted t k"
proof -
  have "tracker_ok (MarkEmitted t s) \<and> (IsEmitted (MarkEmitted t s) k \<longleftrightarrow> k = s \<or> IsEmitted t k)"
  proof (cases "contiguous_max t \<noteq> UINT64_MAX \<and> \<not> s \<le> contiguous_max t \<and> s = u64 (contiguous_max t + 1)")
    case True
    let ?c = "contiguous_max t"
    have c: "?c < UINT64_MAX" using True ok by (auto simp: tracker_ok_def)
    then have s1: "s = ?c + 1" using True u64_Suc_id by simp
    obtain cm p where ab: "absorb_pending s (et_pending t) = (cm, p)" by (cases "absorb_pending s (et_pending t)")
    have A: "om_ok p" "s \<le> cm" "cm < UINT64_MAX" "om_keys p \<subseteq> om_keys (et_pending t)"
        "\<And>k. k \<le> cm \<or> k \<in> om_keys p \<longleftrightarrow> k \<le> s \<or> k \<in> om_keys (et_pending t)"
      using absorb_pending_set[OF ab] ok s by (auto simp: tracker_ok_def)
    have m: "MarkEmitted t s = t\<lparr>contiguous_max := cm, et_pending := p\<rparr>"
      using True ab by (simp add: MarkEmitted_def)
    show ?thesis
      using A(1-4) A(5)[of k] ok c s1 unfolding m by (auto simp: tracker_ok_def IsEmitted_alt)
  next
    case False
    then show ?thesis
      using ok s by (auto simp: MarkEmitted_def tracker_ok_def IsEmitted_alt)
  qed
  then show "tracker_ok (MarkEmitted t s)" "IsEmitted (MarkEmitted t s) k \<longleftrightarrow> k = s \<or> IsEmitted t k"
    by auto
qed

lemma MarkEmitted_fold:
  "tracker_ok t \<Longrightarrow> \<forall>s\<in>set ss. s < UINT64_MAX \<Longrightarrow>
   tracker_ok (fold (\<lambda>s t. MarkEmitted t s) ss t) \<and>
   (\<forall>k. IsEmitted (fold (\<lambda>s t. MarkEmitted t s) ss t) k \<longleftrightarrow> k \<in> set ss \<or> IsEmitted t k)"
proof (induction ss arbitrary: t)
  case (Cons s ss)
  then show ?case using MarkEmitted_exact[of t s] by auto
qed simp

subsection \<open>The duplicate window has no false positives\<close>

text \<open>\<open>window_ok M st\<close>: every bit set for a sequence inside the window belongs to a sequence
  of \<open>M\<close>, the sequences marked so far.\<close>

definition window_seen_ok :: "nat set \<Rightarrow> nat \<Rightarrow> (nat \<Rightarrow> bool) \<Rightarrow> bool" where
  "window_seen_ok M base seen \<longleftrightarrow>
     (\<forall>k. base \<le> k \<and> k < base + kClientWindowSize \<longrightarrow> seen (k mod kClientWindowSize) \<longrightarrow> k \<in> M)"

definition window_ok :: "nat set \<Rightarrow> OptimizedClientState \<Rightarrow> bool" where
  "window_ok M st \<longleftrightarrow> window_seen_ok M (window_base st) (window_seen st)"

lemma window_slot_unique:
  assumes "base \<le> a" "a < base + n" "base \<le> b" "b < base + n" "a mod n = b mod (n::nat)"
  shows "a = b"
proof -
  have "a - b < n" "b - a < n" using assms by auto
  moreover have "n dvd a - b" "n dvd b - a"
    using assms(5) by (metis mod_eq_dvd_iff_nat nat_le_linear diff_is_0_eq' dvd_0_right)+
  ultimately have "a - b = 0" "b - a = 0" by (metis dvd_imp_le gr0I not_less)+
  then show ?thesis by simp
qed

lemma window_seen_ok_slide:
  assumes "window_seen_ok M base seen"
  shows "window_seen_ok M (base + 1) (seen(base mod kClientWindowSize := False))"
  unfolding window_seen_ok_def
proof (intro allI impI)
  fix k assume k: "base + 1 \<le> k \<and> k < base + 1 + kClientWindowSize"
    and s: "(seen(base mod kClientWindowSize := False)) (k mod kClientWindowSize)"
  then have "k \<noteq> base + kClientWindowSize" by auto
  with k have "base \<le> k \<and> k < base + kClientWindowSize" by auto
  moreover have "seen (k mod kClientWindowSize)" using s by (auto split: if_splits)
  ultimately show "k \<in> M" using assms by (auto simp: window_seen_ok_def)
qed

lemma window_seen_ok_mark:
  assumes "window_seen_ok M base seen" "base \<le> s" "s < base + kClientWindowSize"
  shows "window_seen_ok (insert s M) base (seen(s mod kClientWindowSize := True))"
  using assms window_slot_unique[of base _ kClientWindowSize s]
  by (auto simp: window_seen_ok_def)

lemma slide_window_ok:
  "slide_window nxt seq base seen = (base', seen') \<Longrightarrow> window_seen_ok M base seen \<Longrightarrow>
   window_seen_ok M base' seen' \<and> base \<le> base' \<and> base' \<le> max base nxt"
proof (induction nxt seq base seen rule: slide_window.induct)
  case (1 nxt seq base seen)
  show ?case
  proof (cases "base < nxt \<and> u64 (base + kClientWindowSize) \<le> u64 (seq + kClientWindowSize div 2)")
    case True
    then have "slide_window nxt seq (base + 1) (seen(base mod kClientWindowSize := False)) = (base', seen')"
      using "1.prems"(1) by (simp add: slide_window.simps[of nxt seq base seen])
    from "1.IH"[OF True this window_seen_ok_slide[OF "1.prems"(2)]] True show ?thesis by auto
  next
    case False
    then have "slide_window nxt seq base seen = (base, seen)"
      by (subst slide_window.simps) (rule if_not_P)
    with "1.prems" show ?thesis by simp
  qed
qed

lemma window_ok_mark_sequenced:
  assumes "window_ok M st" "window_base st + kClientWindowSize \<le> UINT64_MAX"
  shows "window_ok (insert s M) (mark_sequenced st s)"
proof -
  define seen where "seen = (if s \<ge> window_base st \<and> s < u64 (window_base st + kClientWindowSize)
                  then (window_seen st)(s mod kClientWindowSize := True) else window_seen st)"
  have "window_seen_ok (insert s M) (window_base st) seen"
    using assms window_seen_ok_mark[of M "window_base st" "window_seen st" s]
    by (auto simp: seen_def window_ok_def window_seen_ok_def)
  then show ?thesis
    using slide_window_ok[of "next_expected st" s "window_base st" seen]
    by (auto simp: mark_sequenced_def window_ok_def seen_def[symmetric] Let_def split: prod.splits)
qed

lemma is_duplicate_marked:
  assumes "window_ok M st" "window_base st + kClientWindowSize \<le> UINT64_MAX" "is_duplicate st s"
  shows "s \<in> M"
  using assms by (auto simp: is_duplicate_def window_ok_def window_seen_ok_def split: if_splits)

lemma mark_sequenced_frontier [simp]:
  "next_expected (mark_sequenced st s) = next_expected st"
  "fenced (mark_sequenced st s) = fenced st"
  "session_epoch (mark_sequenced st s) = session_epoch st"
  "committed_hwm (mark_sequenced st s) = committed_hwm st"
  "gap_since_ns (mark_sequenced st s) = gap_since_ns st"
  "last_epoch (mark_sequenced st s) = last_epoch st"
  "highest_sequenced (mark_sequenced st s) = max (highest_sequenced st) s"
  by (simp_all add: mark_sequenced_def Let_def split: prod.splits)

lemma advance_next_expected_simps [simp]:
  "next_expected (advance_next_expected st) = u64 (next_expected st + 1)"
  "fenced (advance_next_expected st) = fenced st"
  "session_epoch (advance_next_expected st) = session_epoch st"
  "committed_hwm (advance_next_expected st) = committed_hwm st"
  "gap_since_ns (advance_next_expected st) = 0"
  "highest_sequenced (advance_next_expected st) = highest_sequenced st"
  by (simp_all add: advance_next_expected_def)

lemma set_next_expected_simps [simp]:
  "next_expected (set_next_expected st n) = n"
  "fenced (set_next_expected st n) = fenced st"
  "session_epoch (set_next_expected st n) = session_epoch st"
  "committed_hwm (set_next_expected st n) = committed_hwm st"
  "highest_sequenced (set_next_expected st n) = highest_sequenced st"
  by (simp_all add: set_next_expected_def Let_def)

lemma note_gap_simps [simp]:
  "next_expected (note_gap st t) = next_expected st"
  "fenced (note_gap st t) = fenced st"
  "session_epoch (note_gap st t) = session_epoch st"
  "committed_hwm (note_gap st t) = committed_hwm st"
  "highest_sequenced (note_gap st t) = highest_sequenced st"
  by (simp_all add: note_gap_def)

lemma fence_simps [simp]:
  "next_expected (fence st) = next_expected st"
  "fenced (fence st)"
  "session_epoch (fence st) = session_epoch st"
  "highest_sequenced (fence st) = highest_sequenced st"
  by (simp_all add: fence_def)

lemma fence_idem: "fence (fence st) = fence st"
  by (simp add: fence_def)

subsection \<open>Properties\<close>

text \<open>C28: the emit tracker represents exactly the set of sequences marked so far: after marking
  any sequences in any order (repetitions and gaps included), a sequence is reported emitted if
  and only if it was marked, although the tracker stores only a contiguous prefix and the
  sequences beyond it.\<close>

theorem emit_tracker_exact:
  assumes "\<forall>s\<in>set ss. s < UINT64_MAX"
  shows "IsEmitted (fold (\<lambda>s t. MarkEmitted t s) ss EmitTracker_init) k \<longleftrightarrow> k \<in> set ss"
  using MarkEmitted_fold[of EmitTracker_init ss] assms by simp

lemma emit_tracker_exact_witness:
  "IsEmitted (fold (\<lambda>s t. MarkEmitted t s) [2, 0, 5, 1] EmitTracker_init) 5 \<and>
   \<not> IsEmitted (fold (\<lambda>s t. MarkEmitted t s) [2, 0, 5, 1] EmitTracker_init) 3"
proof -
  have "\<forall>s\<in>set [2, 0, 5, 1]. s < UINT64_MAX" by (simp add: UINT64_MAX_def)
  from emit_tracker_exact[OF this, of 5] emit_tracker_exact[OF this, of 3] this show ?thesis by simp
qed

text \<open>A history of a session's state: sequences marked and frontier moves, in any order.\<close>

datatype window_op = MarkSeq nat | SetNext nat | Advance

primrec window_step :: "window_op \<Rightarrow> OptimizedClientState \<Rightarrow> OptimizedClientState" where
  "window_step (MarkSeq s) st = mark_sequenced st s"
| "window_step (SetNext n) st = set_next_expected st n"
| "window_step Advance st = advance_next_expected st"

fun marked_seqs :: "window_op list \<Rightarrow> nat set" where
  "marked_seqs [] = {}"
| "marked_seqs (MarkSeq s # ops) = insert s (marked_seqs ops)"
| "marked_seqs (_ # ops) = marked_seqs ops"

lemma window_frame [simp]:
  "window_base (set_next_expected st n) = window_base st" "window_seen (set_next_expected st n) = window_seen st"
  "window_base (advance_next_expected st) = window_base st" "window_seen (advance_next_expected st) = window_seen st"
  by (simp_all add: set_next_expected_def advance_next_expected_def Let_def)

lemma window_base_mark: "window_base (mark_sequenced st s) \<le> max (window_base st) (next_expected st)"
  using slide_window_ok[of "next_expected st" s "window_base st" _ _ _ UNIV]
  by (auto simp: mark_sequenced_def Let_def window_seen_ok_def split: prod.splits)

definition window_bounded :: "nat \<Rightarrow> OptimizedClientState \<Rightarrow> bool" where
  "window_bounded b st \<longleftrightarrow> window_base st \<le> b \<and> next_expected st \<le> b"

lemma window_run:
  assumes "window_ok M st" "window_bounded b st" "b + length ops + kClientWindowSize \<le> UINT64_MAX"
    "\<forall>n. SetNext n \<in> set ops \<longrightarrow> n \<le> b"
  shows "window_ok (M \<union> marked_seqs ops) (fold window_step ops st) \<and>
         window_bounded (b + length ops) (fold window_step ops st)"
  using assms
proof (induction ops arbitrary: st M b)
  case (Cons op ops)
  have b: "window_base st + kClientWindowSize \<le> UINT64_MAX" using Cons.prems(2,3) by (simp add: window_bounded_def)
  have n: "u64 (Suc (next_expected st)) = Suc (next_expected st)"
    using Cons.prems(2,3) by (simp add: window_bounded_def kClientWindowSize_def u64_Suc_id[unfolded Suc_eq_plus1[symmetric]])
  have ok: "window_ok (M \<union> marked_seqs [op]) (window_step op st)"
    using Cons.prems(1) window_ok_mark_sequenced[OF Cons.prems(1) b] by (cases op) (auto simp: window_ok_def)
  have "window_bounded (b + 1) (window_step op st)"
    using Cons.prems(2,4) window_base_mark[of st] n
    by (cases op) (fastforce simp: window_bounded_def intro: le_SucI order_trans)+
  from Cons.IH[OF ok this] Cons.prems(3,4) have
    "window_ok (M \<union> marked_seqs [op] \<union> marked_seqs ops) (fold window_step ops (window_step op st)) \<and>
     window_bounded (b + 1 + length ops) (fold window_step ops (window_step op st))"
    by (auto intro: le_SucI)
  moreover have "M \<union> marked_seqs [op] \<union> marked_seqs ops = M \<union> marked_seqs (op # ops)" by (cases op) auto
  ultimately show ?case by simp
qed (simp add: window_bounded_def)

text \<open>C29: the sliding window never invents a duplicate: after any history of marks and frontier
  moves of a session that starts fresh, a sequence reported duplicate was marked before, although
  the window reuses its 1024 slots.\<close>

theorem window_no_false_duplicate:
  assumes "\<forall>n. SetNext n \<in> set ops \<longrightarrow> n \<le> b" "b + length ops + kClientWindowSize \<le> UINT64_MAX"
    and "is_duplicate (fold window_step ops ClientState_init) s"
  shows "MarkSeq s \<in> set ops"
proof -
  have "window_ok {} ClientState_init" "window_bounded b ClientState_init"
    by (simp_all add: window_ok_def window_seen_ok_def window_bounded_def ClientState_init_def)
  from window_run[OF this assms(2,1)] have
    "window_ok (marked_seqs ops) (fold window_step ops ClientState_init)"
    "window_base (fold window_step ops ClientState_init) + kClientWindowSize \<le> UINT64_MAX"
    using assms(2) by (auto simp: window_bounded_def)
  from is_duplicate_marked[OF this assms(3)] show ?thesis
    by (induction ops rule: marked_seqs.induct) auto
qed

lemma window_no_false_duplicate_witness:
  "is_duplicate (fold window_step [MarkSeq 0, SetNext 1, MarkSeq 3] ClientState_init) 3 \<and>
   MarkSeq 3 \<in> set [MarkSeq 0, SetNext 1, MarkSeq 3]"
proof -
  have d: "is_duplicate (fold window_step [MarkSeq 0, SetNext 1, MarkSeq 3] ClientState_init) 3"
    by (simp add: is_duplicate_def mark_sequenced_def set_next_expected_def ClientState_init_def kClientWindowSize_def
        u64_def slide_window.simps Let_def)
  have "MarkSeq 3 \<in> set [MarkSeq 0, SetNext 1, MarkSeq 3]"
    using window_no_false_duplicate[of "[MarkSeq 0, SetNext 1, MarkSeq 3]" 1, OF _ _ d]
    by (simp add: kClientWindowSize_def UINT64_MAX_def)
  with d show ?thesis by blast
qed

text \<open>Force-expiry shortens a lease and never removes it: the effective lease is at most the
  configured one and at most 250 ms while the window is armed, and zero only when the configured
  lease is zero; hence a gap observed at the same instant never fences a session.\<close>

lemma force_expire_lease_positive:
  "EffectiveOrder5SessionFenceLeaseNs lease force \<le> lease \<and>
   EffectiveOrder5SessionFenceLeaseNs lease True \<le> 250000000 \<and>
   (EffectiveOrder5SessionFenceLeaseNs lease force = 0 \<longleftrightarrow> lease = 0) \<and>
   \<not> (lease \<noteq> 0 \<and> gap_since_ns st = now \<and> ShouldFenceSessionGap st now (EffectiveOrder5SessionFenceLeaseNs lease force))"
  by (auto simp: EffectiveOrder5SessionFenceLeaseNs_def kForceExpireShortLeaseNs_def ShouldFenceSessionGap_def sub64_def)

end
