(* ===== verification/SessionTable.thy ===== *)
theory SessionTable
  imports Prelude
begin

unbundle bit_operations_syntax

text \<open>
  The authoritative session table in CXL memory: key encoding and hashing
  (\<open>embarlet/topic_session_key.h\<close>, \<open>MakeClientBrokerStreamKey\<close> of
  \<open>embarlet/topic_order5_internal.h\<close>), linear-probe claim and lookup
  (\<open>embarlet/session_admission.h\<close>, \<open>embarlet/topic_session.cc\<close>) and monotone publication.
  Session keys and state words are \<open>64 word\<close>; the table is a function from slot index to
  entry.  Cache-line flushes and fences have no effect on the modelled values.
\<close>

subsection \<open>Keys\<close>

definition MakeSessionKey :: "nat \<Rightarrow> nat \<Rightarrow> 64 word" where
  "MakeSessionKey client_id epoch = push_bit 32 (word_of_nat (u32 client_id)) OR word_of_nat epoch"

definition SessionKeyFor :: "nat \<Rightarrow> nat \<Rightarrow> 64 word" where
  "SessionKeyFor client_id epoch = push_bit 32 (word_of_nat client_id) OR word_of_nat epoch"

definition Mix64 :: "64 word \<Rightarrow> 64 word" where
  "Mix64 x =
     (let x = x XOR drop_bit 33 x;
          x = x * 0xff51afd7ed558ccd;
          x = x XOR drop_bit 33 x;
          x = x * 0xc4ceb9fe1a85ec53
      in x XOR drop_bit 33 x)"

text \<open>\<open>static_cast<uint16_t>(broker_id & 0xFFFF)\<close> of a broker id.\<close>

definition broker16 :: "int \<Rightarrow> nat" where
  "broker16 b = nat (b mod 65536)"

definition MakeClientBrokerStreamKey :: "nat \<Rightarrow> nat \<Rightarrow> int \<Rightarrow> 64 word" where
  "MakeClientBrokerStreamKey client_id epoch broker_id =
     (if epoch = 0
      then push_bit 16 (word_of_nat client_id) OR word_of_nat (broker16 broker_id)
      else Mix64 (MakeSessionKey client_id epoch XOR push_bit 1 (word_of_nat (broker16 broker_id))))"

definition kSessionEntryFlagFenced :: "64 word" where
  "kSessionEntryFlagFenced = 1"

definition kSessionEntryFlagActive :: "64 word" where
  "kSessionEntryFlagActive = 2"

subsection \<open>Entries\<close>

record SessionEntry =
  se_session_key :: "64 word"
  se_expected_seq :: nat
  se_committed_hwm :: nat
  se_highest_sequenced :: nat
  se_state_word :: "64 word"

definition SessionEntry_empty :: SessionEntry where
  "SessionEntry_empty = \<lparr>se_session_key = 0, se_expected_seq = 0, se_committed_hwm = 0,
     se_highest_sequenced = 0, se_state_word = 0\<rparr>"

type_synonym SessionTable = "nat \<Rightarrow> SessionEntry"

definition kMaxSessions :: nat where
  "kMaxSessions = 4096"

definition session_start :: "64 word \<Rightarrow> nat" where
  "session_start key = unat (Mix64 key) mod kMaxSessions"

text \<open>The probe loop of \<open>FindSessionEntry\<close>, from probe number \<open>p\<close> with \<open>n\<close> probes left.\<close>

fun find_probe :: "SessionTable \<Rightarrow> nat \<Rightarrow> 64 word \<Rightarrow> nat \<Rightarrow> nat \<Rightarrow> nat \<Rightarrow> nat option" where
  "find_probe tbl cap key start p 0 = None"
| "find_probe tbl cap key start p (Suc n) =
     (let i = (start + p) mod cap; observed = se_session_key (tbl i)
      in if observed = key then Some i
         else if observed = 0 then None
         else find_probe tbl cap key start (p + 1) n)"

definition FindSessionEntry :: "SessionTable option \<Rightarrow> 64 word \<Rightarrow> nat option" where
  "FindSessionEntry tbl key =
     (case tbl of
        None \<Rightarrow> None
      | Some t \<Rightarrow> if key = 0 then None
                  else find_probe t kMaxSessions key (session_start key) 0 kMaxSessions)"

text \<open>The claim loop.  \<open>intf i\<close> is the key a concurrent claimant installs in slot \<open>i\<close> between
  this claimant's load and its compare-exchange (0 when none does).\<close>

fun claim_probe :: "(nat \<Rightarrow> 64 word) \<Rightarrow> nat \<Rightarrow> 64 word \<Rightarrow> nat \<Rightarrow> nat \<Rightarrow> nat \<Rightarrow> SessionTable
    \<Rightarrow> nat option \<times> bool \<times> SessionTable" where
  "claim_probe intf cap key start p 0 tbl = (None, False, tbl)"
| "claim_probe intf cap key start p (Suc n) tbl =
     (let i = (start + p) mod cap; seen = se_session_key (tbl i)
      in if seen = key then (Some i, False, tbl)
         else if seen = 0 then
           (if intf i = 0 then (Some i, True, tbl(i := (tbl i)\<lparr>se_session_key := key\<rparr>))
            else let tbl' = tbl(i := (tbl i)\<lparr>se_session_key := intf i\<rparr>)
                 in if intf i = key then (Some i, False, tbl')
                    else claim_probe intf cap key start (p + 1) n tbl')
         else claim_probe intf cap key start (p + 1) n tbl)"

definition FindOrClaimSession :: "(nat \<Rightarrow> 64 word) \<Rightarrow> SessionTable option \<Rightarrow> nat \<Rightarrow> 64 word \<Rightarrow> nat
    \<Rightarrow> nat option \<times> bool \<times> SessionTable option" where
  "FindOrClaimSession intf table cap key start =
     (case table of
        None \<Rightarrow> (None, False, None)
      | Some t \<Rightarrow>
          if cap = 0 \<or> key = 0 \<or> start \<ge> cap then (None, False, Some t)
          else (case claim_probe intf cap key start 0 cap t of
                  (r, claimed, t') \<Rightarrow> (r, claimed, Some t')))"

definition SessionClaimNeedsFlush :: "bool \<Rightarrow> 64 word \<Rightarrow> bool" where
  "SessionClaimNeedsFlush claimed state_word = (claimed \<or> state_word AND 2 = 0)"

definition no_interference :: "nat \<Rightarrow> 64 word" where
  "no_interference i = 0"

definition FindOrCreateSessionEntry :: "SessionTable option \<Rightarrow> 64 word
    \<Rightarrow> nat option \<times> SessionTable option" where
  "FindOrCreateSessionEntry table key =
     (case FindOrClaimSession no_interference table kMaxSessions key (session_start key) of
        (r, claimed, table') \<Rightarrow> (r, table'))"

datatype SessionAdmission = unavailable | fenced_adm | admitted

definition TryAdmitSession :: "bool \<Rightarrow> SessionTable option \<Rightarrow> nat \<Rightarrow> nat
    \<Rightarrow> SessionAdmission \<times> SessionTable option" where
  "TryAdmitSession capacity_exhausted table client_id epoch =
     (if client_id = 0 \<or> epoch = 0 \<or> capacity_exhausted then (unavailable, table)
      else (case FindOrCreateSessionEntry table (MakeSessionKey client_id epoch) of
              (Some i, Some t) \<Rightarrow>
                (if se_state_word (t i) AND kSessionEntryFlagFenced \<noteq> 0 then fenced_adm else admitted, Some t)
            | (_, table') \<Rightarrow> (unavailable, table')))"

subsection \<open>Publication\<close>

definition StoreSessionMaximum :: "nat \<Rightarrow> nat \<Rightarrow> nat" where
  "StoreSessionMaximum field v = (if field < v then v else field)"

definition MergeSessionStateWord :: "64 word \<Rightarrow> nat \<Rightarrow> bool \<Rightarrow> 64 word" where
  "MergeSessionStateWord current epoch fncd =
     push_bit 32 (word_of_nat epoch) OR 2 OR (current AND 1) OR (if fncd then 1 else 0)"

definition MergeSessionState :: "64 word \<Rightarrow> nat \<Rightarrow> bool \<Rightarrow> bool \<times> 64 word" where
  "MergeSessionState st epoch fncd =
     (let nxt = MergeSessionStateWord st epoch fncd
      in if nxt = st then (False, st) else (True, nxt))"

record SessionPublishSnapshot =
  sp_session_epoch :: nat
  sp_expected_seq :: nat
  sp_committed_hwm :: nat
  sp_highest_sequenced :: nat
  sp_fenced :: bool

definition merge_entry :: "SessionPublishSnapshot \<Rightarrow> SessionEntry \<Rightarrow> SessionEntry" where
  "merge_entry snap e =
     e\<lparr>se_expected_seq := StoreSessionMaximum (se_expected_seq e) (sp_expected_seq snap),
       se_committed_hwm := StoreSessionMaximum (se_committed_hwm e) (sp_committed_hwm snap),
       se_highest_sequenced := StoreSessionMaximum (se_highest_sequenced e) (sp_highest_sequenced snap),
       se_state_word := snd (MergeSessionState (se_state_word e) (sp_session_epoch snap) (sp_fenced snap))\<rparr>"

definition PublishSessionEntry :: "SessionTable option \<Rightarrow> 64 word \<Rightarrow> SessionPublishSnapshot
    \<Rightarrow> bool \<times> SessionTable option" where
  "PublishSessionEntry table key snap =
     (if sp_session_epoch snap = 0 then (True, table)
      else (case FindOrCreateSessionEntry table key of
              (Some i, Some t) \<Rightarrow> (True, Some (t(i := merge_entry snap (t i))))
            | (_, table') \<Rightarrow> (False, table')))"

definition entry_fenced :: "SessionEntry \<Rightarrow> bool" where
  "entry_fenced e \<longleftrightarrow> se_state_word e AND kSessionEntryFlagFenced \<noteq> 0"

definition entry_active :: "SessionEntry \<Rightarrow> bool" where
  "entry_active e \<longleftrightarrow> se_state_word e AND kSessionEntryFlagActive \<noteq> 0"

subsection \<open>State words\<close>

lemma bit_of_and_1: "w AND (1::64 word) \<noteq> 0 \<longleftrightarrow> bit w 0"
  by (simp add: and_exp_eq_0_iff_not_bit[of w 0, simplified] flip: one_word_def)

lemma bit_of_and_2: "w AND (2::64 word) \<noteq> 0 \<longleftrightarrow> bit w 1"
  using and_exp_eq_0_iff_not_bit[of w 1] by simp

lemma merge_word_fenced:
  "bit (MergeSessionStateWord w e f) 0 \<longleftrightarrow> bit w 0 \<or> f"
  by (auto simp: MergeSessionStateWord_def bit_or_iff bit_and_iff bit_push_bit_iff)

lemma merge_word_active: "bit (MergeSessionStateWord w e f) (Suc 0)"
  by (auto simp: MergeSessionStateWord_def bit_or_iff bit_and_iff bit_push_bit_iff)

lemma snd_MergeSessionState [simp]: "snd (MergeSessionState w e f) = MergeSessionStateWord w e f"
  by (simp add: MergeSessionState_def Let_def)

lemma nat_bit_high:
  assumes "(e::nat) < 2 ^ k" "k \<le> n"
  shows "\<not> bit e n"
proof -
  have "e < 2 ^ n" using assms by (meson order_less_le_trans power_increasing one_le_numeral)
  then show ?thesis by (simp add: bit_iff_odd)
qed

lemma bit_word_of_nat64: "bit (word_of_nat e :: 64 word) n \<longleftrightarrow> n < 64 \<and> bit e n"
  by (simp add: bit_of_nat_iff)

lemma merge_word_epoch:
  assumes "e < 2 ^ 32"
  shows "drop_bit 32 (MergeSessionStateWord w e f) = word_of_nat e"
proof (rule bit_word_eqI)
  fix n assume n: "n < LENGTH(64)"
  have hi: "\<not> bit (1::64 word) (n + 32)" "\<not> bit (2::64 word) (n + 32)"
    by (simp_all add: bit_1_iff bit_numeral_rec(1) numeral_eq_Suc)
  have e: "bit e n \<Longrightarrow> n < 32"
    using nat_bit_high[OF assms, of n] not_less by blast
  show "bit (drop_bit 32 (MergeSessionStateWord w e f)) n = bit (word_of_nat e :: 64 word) n"
    using n hi e by (auto simp: MergeSessionStateWord_def bit_drop_bit_eq bit_or_iff bit_and_iff
        bit_push_bit_iff bit_word_of_nat64 add.commute)
qed

lemma xorshift_inv: "(x XOR drop_bit 33 x) XOR drop_bit 33 (x XOR drop_bit 33 x) = (x::64 word)"
  by (rule bit_word_eqI) (auto simp: bit_xor_iff bit_drop_bit_eq dest: bit_imp_le_length)

definition Mix64_inv :: "64 word \<Rightarrow> 64 word" where
  "Mix64_inv y =
     (let y = y XOR drop_bit 33 y;
          y = y * 11291846944257947611;
          y = y XOR drop_bit 33 y;
          y = y * 5725274745694666757
      in y XOR drop_bit 33 y)"

lemma Mix64_inv: "Mix64_inv (Mix64 x) = x"
proof -
  have k: "0xc4ceb9fe1a85ec53 * 11291846944257947611 = (1 :: 64 word)"
     "0xff51afd7ed558ccd * 5725274745694666757 = (1 :: 64 word)"
    by code_simp+
  have m: "(z * 0xc4ceb9fe1a85ec53) * 11291846944257947611 = (z :: 64 word)"
     "(z * 0xff51afd7ed558ccd) * 5725274745694666757 = (z :: 64 word)" for z
    unfolding mult.assoc k by simp_all
  show ?thesis
    unfolding Mix64_inv_def Mix64_def Let_def xorshift_inv m ..
qed

lemma session_key_unat:
  assumes "e < 2 ^ 32"
  shows "unat (MakeSessionKey c e) = u32 c * 2 ^ 32 + e"
proof -
  let ?c = "word_of_nat (u32 c) :: 64 word"
  have c: "u32 c < 2 ^ 32" by (simp add: u32_def)
  have "push_bit 32 ?c AND word_of_nat e = 0"
    by (rule bit_word_eqI) (use nat_bit_high[OF assms] in \<open>auto simp: bit_and_iff bit_push_bit_iff bit_word_of_nat64\<close>)
  then have k: "MakeSessionKey c e = push_bit 32 ?c + word_of_nat e"
    unfolding MakeSessionKey_def by (simp add: disjunctive_add_eq_or)
  also have "\<dots> = word_of_nat (u32 c * 2 ^ 32 + e)"
    by (simp add: push_bit_eq_mult)
  finally have "unat (MakeSessionKey c e) = (u32 c * 2 ^ 32 + e) mod 2 ^ LENGTH(64)"
    by (simp only: unat_of_nat)
  moreover have "u32 c * 2 ^ 32 + e < 2 ^ LENGTH(64)"
    using c assms by simp
  ultimately show ?thesis by (simp only: mod_less)
qed

lemma session_key_inj:
  assumes "e < 2 ^ 32" "e' < 2 ^ 32" "c < 2 ^ 32" "c' < 2 ^ 32"
  shows "MakeSessionKey c e = MakeSessionKey c' e' \<longleftrightarrow> c = c' \<and> e = e'"
proof
  assume "MakeSessionKey c e = MakeSessionKey c' e'"
  then have "c * 2 ^ 32 + e = c' * 2 ^ 32 + e'"
    using session_key_unat[OF assms(1), of c] session_key_unat[OF assms(2), of c'] assms(3,4)
    by (simp add: u32_def)
  then have "(c * 2 ^ 32 + e) div 2 ^ 32 = (c' * 2 ^ 32 + e') div 2 ^ 32"
    "(c * 2 ^ 32 + e) mod 2 ^ 32 = (c' * 2 ^ 32 + e') mod 2 ^ 32" by simp_all
  then show "c = c' \<and> e = e'" using assms(1,2) by simp
qed simp

lemma stream_key_collision:
  "e \<noteq> 0 \<Longrightarrow> e' \<noteq> 0 \<Longrightarrow>
   MakeClientBrokerStreamKey c e b = MakeClientBrokerStreamKey c' e' b' \<longleftrightarrow>
   MakeSessionKey c e XOR push_bit 1 (word_of_nat (broker16 b)) =
   MakeSessionKey c' e' XOR push_bit 1 (word_of_nat (broker16 b'))"
  by (metis MakeClientBrokerStreamKey_def Mix64_inv)

subsection \<open>Probing\<close>

lemma find_probe_Some:
  "find_probe tbl cap key start p n = Some i \<Longrightarrow>
   \<exists>d. p \<le> d \<and> d < p + n \<and> i = (start + d) mod cap \<and> se_session_key (tbl i) = key \<and>
       (\<forall>q. p \<le> q \<and> q < d \<longrightarrow> se_session_key (tbl ((start + q) mod cap)) \<notin> {0, key})"
proof (induction n arbitrary: p)
  case (Suc n)
  let ?s = "se_session_key (tbl ((start + p) mod cap))"
  show ?case
  proof (cases "?s = key")
    case True
    then show ?thesis using Suc.prems by (intro exI[of _ p]) (auto simp: Let_def)
  next
    case False
    with Suc.prems have ns: "?s \<noteq> 0" and rec: "find_probe tbl cap key start (p + 1) n = Some i"
      by (auto simp: Let_def split: if_splits)
    obtain d where d: "p + 1 \<le> d" "d < p + 1 + n" "i = (start + d) mod cap" "se_session_key (tbl i) = key"
      "\<forall>q. p + 1 \<le> q \<and> q < d \<longrightarrow> se_session_key (tbl ((start + q) mod cap)) \<notin> {0, key}"
      using Suc.IH[OF rec] by blast
    have "se_session_key (tbl ((start + q) mod cap)) \<notin> {0, key}" if "p \<le> q" "q < d" for q
      using that d(5) False ns by (cases "q = p") auto
    then show ?thesis using d(1-4) by (intro exI[of _ d]) auto
  qed
qed simp

lemma find_probe_hit:
  "p \<le> d \<Longrightarrow> d < p + n \<Longrightarrow> se_session_key (tbl ((start + d) mod cap)) = key \<Longrightarrow>
   (\<And>q. p \<le> q \<Longrightarrow> q < d \<Longrightarrow> se_session_key (tbl ((start + q) mod cap)) \<notin> {0, key}) \<Longrightarrow>
   find_probe tbl cap key start p n = Some ((start + d) mod cap)"
proof (induction n arbitrary: p)
  case (Suc n)
  show ?case
  proof (cases "p = d")
    case True
    then show ?thesis using Suc.prems by (simp add: Let_def)
  next
    case False
    then have "find_probe tbl cap key start (p + 1) n = Some ((start + d) mod cap)"
      using Suc.prems by (intro Suc.IH) auto
    then show ?thesis using Suc.prems(4)[of p] Suc.prems(1) False by (simp add: Let_def)
  qed
qed simp

text \<open>Slots on the probe path of a stored key are occupied by other keys.\<close>

definition probe_dist :: "nat \<Rightarrow> nat \<Rightarrow> nat \<Rightarrow> nat" where
  "probe_dist cap start i = (i + cap - start) mod cap"

definition table_ok :: "(64 word \<Rightarrow> nat) \<Rightarrow> nat \<Rightarrow> SessionTable \<Rightarrow> bool" where
  "table_ok h cap tbl \<longleftrightarrow>
     (\<forall>i < cap. se_session_key (tbl i) \<noteq> 0 \<longrightarrow>
        (\<forall>q < probe_dist cap (h (se_session_key (tbl i))) i.
           se_session_key (tbl ((h (se_session_key (tbl i)) + q) mod cap)) \<notin> {0, se_session_key (tbl i)}))"

lemma probe_dist_less: "0 < cap \<Longrightarrow> probe_dist cap s i < cap"
  by (simp add: probe_dist_def)

lemma probe_dist_reach: "i < cap \<Longrightarrow> s < cap \<Longrightarrow> (s + probe_dist cap s i) mod cap = i"
  by (simp add: probe_dist_def mod_simps)

lemma probe_dist_unique: "s < cap \<Longrightarrow> d < cap \<Longrightarrow> probe_dist cap s ((s + d) mod cap) = d"
proof -
  assume a: "s < cap" "d < cap"
  show ?thesis
  proof (cases "s + d < cap")
    case True
    then show ?thesis using a by (simp add: probe_dist_def)
  next
    case False
    then have "(s + d) mod cap = s + d - cap" using a by (simp add: le_mod_geq)
    then show ?thesis using a False by (simp add: probe_dist_def)
  qed
qed

lemma table_ok_find:
  assumes ok: "table_ok h cap tbl" and h: "h key < cap" and i: "i < cap" and k: "se_session_key (tbl i) = key" "key \<noteq> 0"
  shows "find_probe tbl cap key (h key) 0 cap = Some i"
proof -
  let ?d = "probe_dist cap (h key) i"
  have r: "(h key + ?d) mod cap = i" using i h by (rule probe_dist_reach)
  have "find_probe tbl cap key (h key) 0 cap = Some ((h key + ?d) mod cap)"
  proof (rule find_probe_hit)
    show "?d < 0 + cap" using i by (simp add: probe_dist_less)
    show "se_session_key (tbl ((h key + ?d) mod cap)) = key" using r k by simp
    show "se_session_key (tbl ((h key + q) mod cap)) \<notin> {0, key}" if "q < ?d" for q
      using ok i k that unfolding table_ok_def by blast
  qed simp
  then show ?thesis using r by simp
qed

lemma find_probe_index:
  assumes "find_probe tbl cap key start p n = Some i" "0 < cap"
  shows "i < cap \<and> se_session_key (tbl i) = key"
  using find_probe_Some[OF assms(1)] assms(2) by auto

definition busy_path :: "SessionTable \<Rightarrow> nat \<Rightarrow> 64 word \<Rightarrow> nat \<Rightarrow> nat \<Rightarrow> nat \<Rightarrow> bool" where
  "busy_path tbl cap key start p d \<longleftrightarrow>
     (\<forall>q. p \<le> q \<and> q < d \<longrightarrow> se_session_key (tbl ((start + q) mod cap)) \<notin> {0, key})"

lemma busy_path_empty [simp]: "busy_path tbl cap key start p p"
  unfolding busy_path_def by (meson leD)

lemma busy_path_extend:
  assumes "busy_path tbl cap key start (p + 1) d"
    and "se_session_key (tbl ((start + p) mod cap)) \<notin> {0, key}"
  shows "busy_path tbl cap key start p d"
  unfolding busy_path_def
proof (intro allI impI)
  fix q assume "p \<le> q \<and> q < d"
  then show "se_session_key (tbl ((start + q) mod cap)) \<notin> {0, key}"
    using assms by (cases "q = p") (auto simp: busy_path_def)
qed

text \<open>Without interference a claim either finds the key, or takes the first free slot on its
  path, or (no free slot and no such key) reports a full table.\<close>

lemma claim_probe_cases:
  assumes "claim_probe no_interference cap key start p n tbl = (r, claimed, tbl')"
  obtains (found) i where "r = Some i" "\<not> claimed" "tbl' = tbl" "find_probe tbl cap key start p n = Some i"
  | (full) "r = None" "\<not> claimed" "tbl' = tbl" "find_probe tbl cap key start p n = None"
      "busy_path tbl cap key start p (p + n)"
  | (fresh) d where "p \<le> d" "d < p + n" "r = Some ((start + d) mod cap)" "claimed"
      "find_probe tbl cap key start p n = None"
      "se_session_key (tbl ((start + d) mod cap)) = 0" "busy_path tbl cap key start p d"
      "tbl' = tbl((start + d) mod cap := (tbl ((start + d) mod cap))\<lparr>se_session_key := key\<rparr>)"
  using assms
proof (induction n arbitrary: p thesis)
  case 0
  then show ?case by simp
next
  case (Suc n)
  let ?i = "(start + p) mod cap"
  consider "se_session_key (tbl ?i) = key" | "se_session_key (tbl ?i) \<noteq> key" "se_session_key (tbl ?i) = 0"
    | "se_session_key (tbl ?i) \<notin> {0, key}" by blast
  then show ?case
  proof cases
    case 1
    then show ?thesis using Suc.prems(1)[of ?i] Suc.prems(4) by (simp add: Let_def)
  next
    case 2
    then have "r = Some ?i" "claimed" "find_probe tbl cap key start p (Suc n) = None"
      "tbl' = tbl(?i := (tbl ?i)\<lparr>se_session_key := key\<rparr>)"
      using Suc.prems(4) by (auto simp: Let_def no_interference_def)
    then show ?thesis using 2 by (intro Suc.prems(3)[of p]) simp_all
  next
    case 3
    then have rec: "claim_probe no_interference cap key start (p + 1) n tbl = (r, claimed, tbl')"
      and f: "find_probe tbl cap key start p (Suc n) = find_probe tbl cap key start (p + 1) n"
      using Suc.prems(4) by (simp_all add: Let_def)
    show ?thesis
    proof (rule Suc.IH[OF _ _ _ rec], goal_cases)
      case (1 i)
      then show ?case using Suc.prems(1)[of i] f by simp
    next
      case 2
      then show ?case
        using f busy_path_extend \<open>se_session_key (tbl ?i) \<notin> {0, key}\<close>
        by (intro Suc.prems(2)) simp_all
    next
      case (3 d)
      then show ?case
        using f busy_path_extend \<open>se_session_key (tbl ?i) \<notin> {0, key}\<close>
        by (intro Suc.prems(3)[of d]) simp_all
    qed
  qed
qed

text \<open>A claimed slot extends the table by one key and keeps every probe path busy.\<close>

lemma table_ok_install:
  assumes ok: "table_ok h cap tbl" and h: "\<And>k. h k < cap" and d: "d < cap" and key: "key \<noteq> 0"
    and free: "se_session_key (tbl ((h key + d) mod cap)) = 0"
    and busy: "busy_path tbl cap key (h key) 0 d"
  shows "table_ok h cap (tbl((h key + d) mod cap := (tbl ((h key + d) mod cap))\<lparr>se_session_key := key\<rparr>))"
    (is "table_ok h cap ?t")
  unfolding table_ok_def
proof (intro allI impI)
  let ?j = "(h key + d) mod cap"
  fix i q
  assume i: "i < cap" "se_session_key (?t i) \<noteq> 0" and q: "q < probe_dist cap (h (se_session_key (?t i))) i"
  let ?k = "se_session_key (?t i)" and ?s = "(h (se_session_key (?t i)) + q) mod cap"
  show "se_session_key (?t ?s) \<notin> {0, ?k}"
  proof (cases "i = ?j")
    case True
    then have k: "?k = key" by simp
    have "probe_dist cap (h key) i = d" using True probe_dist_unique[OF h d] by simp
    then have qd: "q < d" using q k by simp
    then have "se_session_key (tbl ?s) \<notin> {0, key}" using busy k by (simp add: busy_path_def)
    moreover have "?s \<noteq> ?j" using calculation free k by auto
    ultimately show ?thesis using k by simp
  next
    case False
    then have k: "?k = se_session_key (tbl i)" by simp
    then have old: "se_session_key (tbl ?s) \<notin> {0, ?k}"
      using ok i q unfolding table_ok_def by simp
    then have "?s \<noteq> ?j" using free by auto
    then show ?thesis using old by simp
  qed
qed

lemma table_ok_same_keys:
  assumes "\<And>i. se_session_key (tbl' i) = se_session_key (tbl i)"
  shows "table_ok h cap tbl' = table_ok h cap tbl"
  using assms by (simp add: table_ok_def)

lemma find_probe_same_keys:
  assumes "\<And>i. se_session_key (tbl' i) = se_session_key (tbl i)"
  shows "find_probe tbl' cap key start p n = find_probe tbl cap key start p n"
  using assms by (induction n arbitrary: p) (simp_all add: Let_def)

text \<open>Lookups of another key are unaffected by an installation.\<close>

lemma find_probe_install_other:
  assumes ok: "table_ok h cap tbl" and ok': "table_ok h cap tbl'" and h: "h k < cap" and k: "k \<noteq> 0" "k \<noteq> key"
    and upd: "tbl' = tbl(j := (tbl j)\<lparr>se_session_key := key\<rparr>)" "se_session_key (tbl j) = 0" and j: "j < cap"
  shows "find_probe tbl' cap k (h k) 0 cap = find_probe tbl cap k (h k) 0 cap"
proof (cases "find_probe tbl cap k (h k) 0 cap")
  case (Some i)
  have c: "0 < cap" using h by simp
  have i: "i < cap" "se_session_key (tbl i) = k" using find_probe_index[OF Some c] by auto
  then have "se_session_key (tbl' i) = k" using upd k by auto
  then show ?thesis using table_ok_find[OF ok' h i(1) _ k(1)] Some by simp
next
  case None
  have c: "0 < cap" using h by simp
  have "find_probe tbl' cap k (h k) 0 cap \<noteq> Some i" for i
  proof
    assume a: "find_probe tbl' cap k (h k) 0 cap = Some i"
    have i: "i < cap" "se_session_key (tbl' i) = k" using find_probe_index[OF a c] by auto
    then have "se_session_key (tbl i) = k" using upd k by (auto split: if_splits)
    then show False using table_ok_find[OF ok h i(1) _ k(1)] None by simp
  qed
  then show ?thesis using None by (metis option.exhaust)
qed
subsection \<open>The table as a map from keys to entries\<close>

definition session_lookup :: "SessionTable option \<Rightarrow> 64 word \<Rightarrow> SessionEntry option" where
  "session_lookup table key =
     (case table of None \<Rightarrow> None
      | Some t \<Rightarrow> map_option t (FindSessionEntry table key))"

definition session_table_ok :: "SessionTable option \<Rightarrow> bool" where
  "session_table_ok table =
     (case table of None \<Rightarrow> True
      | Some t \<Rightarrow> table_ok session_start kMaxSessions t \<and>
                  (\<forall>i. se_session_key (t i) = 0 \<longrightarrow> t i = SessionEntry_empty))"

definition session_fresh :: "64 word \<Rightarrow> SessionEntry" where
  "session_fresh key = SessionEntry_empty\<lparr>se_session_key := key\<rparr>"

lemma session_start_less [simp]: "session_start k < kMaxSessions"
  by (simp add: session_start_def kMaxSessions_def)

lemma session_start_not_ge [simp]: "\<not> kMaxSessions \<le> session_start k"
  by (simp add: not_le)

lemma kMaxSessions_pos [simp]: "0 < kMaxSessions" "kMaxSessions \<noteq> 0"
  by (simp_all add: kMaxSessions_def)

lemma session_lookup_Some:
  "session_lookup (Some t) k =
     (if k = 0 then None else map_option t (find_probe t kMaxSessions k (session_start k) 0 kMaxSessions))"
  by (simp add: session_lookup_def FindSessionEntry_def)

lemma session_table_ok_empty: "session_table_ok (Some (\<lambda>_. SessionEntry_empty))"
  by (simp add: session_table_ok_def table_ok_def SessionEntry_empty_def)

text \<open>\<open>FindOrCreateSessionEntry\<close> on a well-formed table.\<close>

lemma create_cases:
  assumes ok: "session_table_ok (Some t)" and r: "FindOrCreateSessionEntry (Some t) key = (r, table')"
  obtains (zero) "key = 0" "r = None" "table' = Some t"
  | (found) i where "key \<noteq> 0" "r = Some i" "i < kMaxSessions" "table' = Some t" "se_session_key (t i) = key"
      "session_lookup (Some t) key = Some (t i)"
  | (full) "key \<noteq> 0" "r = None" "table' = Some t" "session_lookup (Some t) key = None"
  | (fresh) j t' where "key \<noteq> 0" "r = Some j" "j < kMaxSessions" "table' = Some t'"
      "session_lookup (Some t) key = None" "t j = SessionEntry_empty"
      "t' = t(j := session_fresh key)" "session_table_ok (Some t')"
proof (cases "key = 0")
  case True
  then show thesis using r by (intro zero) (auto simp: FindOrCreateSessionEntry_def FindOrClaimSession_def)
next
  case key: False
  let ?s = "session_start key"
  obtain r0 claimed t' where c: "claim_probe no_interference kMaxSessions key ?s 0 kMaxSessions t = (r0, claimed, t')"
    by (cases "claim_probe no_interference kMaxSessions key ?s 0 kMaxSessions t") auto
  have rt: "r = r0" "table' = Some t'"
    using r c key by (simp_all add: FindOrCreateSessionEntry_def FindOrClaimSession_def)
  from c show thesis
  proof (cases rule: claim_probe_cases)
    case (found i)
    then show thesis
      using key rt find_probe_index[OF found(4)]
      by (intro that(2)[of i]) (auto simp: session_lookup_Some)
  next
    case full
    then show thesis using key rt by (intro that(3)) (auto simp: session_lookup_Some)
  next
    case (fresh d)
    let ?j = "(?s + d) mod kMaxSessions"
    have e: "t ?j = SessionEntry_empty" using ok fresh(6) by (simp add: session_table_ok_def)
    have t': "t' = t(?j := session_fresh key)" using fresh(8) e by (simp add: session_fresh_def)
    have "table_ok session_start kMaxSessions t'"
      using table_ok_install[of session_start kMaxSessions t d key] ok fresh key
      by (simp add: session_table_ok_def)
    then have "session_table_ok (Some t')"
      using ok key by (auto simp: session_table_ok_def t' session_fresh_def)
    then show thesis
      using key rt fresh e t' by (intro that(4)[of ?j t']) (auto simp: session_lookup_Some)
  qed
qed

lemma session_table_ok_update:
  assumes "session_table_ok (Some t)" "se_session_key (t i) \<noteq> 0" "se_session_key e = se_session_key (t i)"
  shows "session_table_ok (Some (t(i := e)))"
    and "session_lookup (Some (t(i := e))) k =
         (if session_lookup (Some t) k = None then None
          else if i < kMaxSessions \<and> k = se_session_key (t i) then Some e else session_lookup (Some t) k)"
proof -
  have same: "se_session_key ((t(i := e)) n) = se_session_key (t n)" for n
    using assms(3) by simp
  show "session_table_ok (Some (t(i := e)))"
    using assms table_ok_same_keys[of "t(i := e)" t, OF same] by (simp add: session_table_ok_def)
  show "session_lookup (Some (t(i := e))) k =
         (if session_lookup (Some t) k = None then None
          else if i < kMaxSessions \<and> k = se_session_key (t i) then Some e else session_lookup (Some t) k)"
  proof (cases "find_probe t kMaxSessions k (session_start k) 0 kMaxSessions")
    case None
    then have "session_lookup (Some t) k = None" "session_lookup (Some (t(i := e))) k = None"
      using find_probe_same_keys[of "t(i := e)" t, OF same] by (simp_all add: session_lookup_Some)
    then show ?thesis by simp
  next
    case (Some n)
    have n: "n < kMaxSessions" "se_session_key (t n) = k" using find_probe_index[OF Some] by auto
    have fp: "find_probe (t(i := e)) kMaxSessions k (session_start k) 0 kMaxSessions = Some n"
      using find_probe_same_keys[of "t(i := e)" t, OF same] Some by simp
    show ?thesis
    proof (cases "k = 0")
      case False
      have look: "session_lookup (Some t) k = Some (t n)" "session_lookup (Some (t(i := e))) k = Some ((t(i := e)) n)"
        using False Some fp by (simp_all add: session_lookup_Some)
      have "i < kMaxSessions \<and> k = se_session_key (t i) \<longleftrightarrow> n = i"
      proof
        assume a: "i < kMaxSessions \<and> k = se_session_key (t i)"
        have "find_probe t kMaxSessions k (session_start k) 0 kMaxSessions = Some i"
          by (rule table_ok_find) (use a False assms(1) in \<open>simp_all add: session_table_ok_def\<close>)
        then show "n = i" using Some by simp
      qed (use n in auto)
      then show ?thesis using look by simp
    qed (simp add: session_lookup_Some)
  qed
qed

text \<open>Lookups after a claim installed a fresh entry.\<close>

lemma lookup_install:
  assumes ok: "session_table_ok (Some t)" and key: "key \<noteq> 0" and j: "j < kMaxSessions" "t j = SessionEntry_empty"
    and t': "t' = t(j := session_fresh key)" and ok': "session_table_ok (Some t')" and new: "session_lookup (Some t) key = None"
  shows "session_lookup (Some t') k = (if k = key then Some (session_fresh key) else session_lookup (Some t) k)"
proof -
  have kj: "se_session_key (t' j) = key" using t' by (simp add: session_fresh_def)
  have l1: "session_lookup (Some t') key = Some (session_fresh key)"
    using table_ok_find[of session_start kMaxSessions t' key j] key j t' ok' kj
    by (simp add: session_lookup_Some session_table_ok_def)
  have l2: "session_lookup (Some t') k = session_lookup (Some t) k" if "k \<noteq> key"
  proof (cases "k = 0")
    case False
    have "find_probe t' kMaxSessions k (session_start k) 0 kMaxSessions
        = find_probe t kMaxSessions k (session_start k) 0 kMaxSessions"
      using ok ok' key j t' new that False
      by (intro find_probe_install_other[of session_start kMaxSessions t t' k key j])
        (auto simp: session_table_ok_def session_fresh_def SessionEntry_empty_def)
    moreover have "i \<noteq> j" if "find_probe t kMaxSessions k (session_start k) 0 kMaxSessions = Some i" for i
      using find_probe_index[OF that] j(2) False by (auto simp: SessionEntry_empty_def)
    ultimately show ?thesis
      using t' by (cases "find_probe t kMaxSessions k (session_start k) 0 kMaxSessions")
        (auto simp: session_lookup_Some)
  qed (simp add: session_lookup_Some)
  show ?thesis using l1 l2 by simp
qed

text \<open>A session that was found or created is in the table, and creating it keeps the others.\<close>

lemma create_lookup:
  assumes ok: "session_table_ok table" and r: "FindOrCreateSessionEntry table key = (Some i, table')"
  shows "session_table_ok table' \<and> session_lookup table' key = Some (the table' i) \<and>
     (\<forall>k. session_lookup table' k = (if k = key \<and> session_lookup table key = None then Some (session_fresh key) else session_lookup table k))"
proof -
  obtain t where t: "table = Some t"
    using r by (cases table) (auto simp: FindOrCreateSessionEntry_def FindOrClaimSession_def)
  show ?thesis
    using ok[unfolded t] r[unfolded t]
  proof (cases rule: create_cases)
    case (found j)
    then show ?thesis using ok t by auto
  next
    case (fresh j t')
    have l: "session_lookup (Some t') k = (if k = key then Some (session_fresh key) else session_lookup (Some t) k)" for k
      using lookup_install[OF ok[unfolded t] fresh(1,3,6,7,8,5)] .
    show ?thesis using fresh l by (auto simp: t)
  qed simp_all
qed

lemma publish_present:
  assumes ok: "session_table_ok table" and "session_lookup table key \<noteq> None"
  shows "fst (PublishSessionEntry table key snap)"
proof -
  obtain t where t: "table = Some t" using assms(2) by (cases table) (auto simp: session_lookup_def)
  obtain r t1 where c: "FindOrCreateSessionEntry (Some t) key = (r, t1)" by (cases "FindOrCreateSessionEntry (Some t) key")
  show ?thesis
    using ok[unfolded t] c
  proof (cases rule: create_cases)
    case zero
    then show ?thesis using assms(2) by (simp add: t session_lookup_Some)
  qed (use assms(2) c in \<open>simp_all add: PublishSessionEntry_def t\<close>)
qed

lemma publish_lookup:
  assumes ok: "session_table_ok table" and e: "sp_session_epoch snap \<noteq> 0"
    and p: "PublishSessionEntry table key snap = (True, table')"
  shows "session_table_ok table'"
    and "session_lookup table' k =
         (if k = key then Some (merge_entry snap (case session_lookup table key of None \<Rightarrow> session_fresh key | Some en \<Rightarrow> en))
          else session_lookup table k)"
proof -
  obtain t where t: "table = Some t"
    using p e by (cases table) (auto simp: PublishSessionEntry_def FindOrCreateSessionEntry_def FindOrClaimSession_def)
  obtain r t1 where c: "FindOrCreateSessionEntry (Some t) key = (r, t1)" by (cases "FindOrCreateSessionEntry (Some t) key")
  have key: "se_session_key (merge_entry snap en) = se_session_key en" for en by (simp add: merge_entry_def)
  have "session_table_ok table' \<and> session_lookup table' k =
         (if k = key then Some (merge_entry snap (case session_lookup table key of None \<Rightarrow> session_fresh key | Some en \<Rightarrow> en))
          else session_lookup table k)"
  using ok[unfolded t] c
  proof (cases rule: create_cases)
    case (found i)
    have t': "table' = Some (t(i := merge_entry snap (t i)))"
      using p e c found by (simp add: PublishSessionEntry_def t)
    show ?thesis
      using session_table_ok_update[OF ok[unfolded t], of i "merge_entry snap (t i)"] found key
      by (auto simp: t t')
  next
    case (fresh j t')
    have u: "table' = Some (t'(j := merge_entry snap (t' j)))"
      using p e c fresh by (simp add: PublishSessionEntry_def t)
    have kj: "se_session_key (t' j) = key" using fresh by (simp add: session_fresh_def)
    have l: "session_lookup (Some t') k = (if k = key then Some (session_fresh key) else session_lookup (Some t) k)" for k
      using lookup_install[OF ok[unfolded t] fresh(1,3,6,7,8,5)] .
    show ?thesis
      using session_table_ok_update[OF fresh(8), of j "merge_entry snap (t' j)"] kj key fresh l
      by (auto simp: t u)
  qed (use p e c in \<open>simp_all add: PublishSessionEntry_def t\<close>)
  then show "session_table_ok table'"
    "session_lookup table' k =
         (if k = key then Some (merge_entry snap (case session_lookup table key of None \<Rightarrow> session_fresh key | Some en \<Rightarrow> en))
          else session_lookup table k)" by auto
qed

subsection \<open>The publication interface\<close>

fun run_publish :: "('t \<Rightarrow> 'k \<Rightarrow> 's \<Rightarrow> bool \<times> 't) \<Rightarrow> ('k \<times> 's) list \<Rightarrow> 't \<Rightarrow> 't option" where
  "run_publish pub [] t = Some t"
| "run_publish pub ((k, s) # xs) t =
     (case pub t k s of (ok, t') \<Rightarrow> if ok then run_publish pub xs t' else None)"

locale session_store =
  fixes ok :: "'t \<Rightarrow> bool"
    and lookup :: "'t \<Rightarrow> 'k \<Rightarrow> 'e option"
    and publish :: "'t \<Rightarrow> 'k \<Rightarrow> 's \<Rightarrow> bool \<times> 't"
    and merge :: "'s \<Rightarrow> 'e \<Rightarrow> 'e"
    and fresh :: "'k \<Rightarrow> 'e"
    and valid :: "'s \<Rightarrow> bool"
  assumes publish_ok: "ok t \<Longrightarrow> valid s \<Longrightarrow> publish t k s = (True, t') \<Longrightarrow> ok t'"
    and publish_find: "ok t \<Longrightarrow> valid s \<Longrightarrow> publish t k s = (True, t') \<Longrightarrow>
      lookup t' k' = (if k' = k then Some (merge s (case lookup t k of None \<Rightarrow> fresh k | Some e \<Rightarrow> e))
                      else lookup t k')"
begin

lemma run_publish_lookup:
  assumes "ok t" "\<forall>(k, s)\<in>set xs. valid s" "run_publish publish xs t = Some t'"
  shows "ok t' \<and> lookup t' k =
     (let ss = map snd (filter (\<lambda>(k', s). k' = k) xs)
      in if ss = [] then lookup t k
         else Some (fold merge ss (case lookup t k of None \<Rightarrow> fresh k | Some e \<Rightarrow> e)))"
  using assms
proof (induction xs arbitrary: t)
  case (Cons x xs)
  obtain k0 s where x: "x = (k0, s)" by (cases x)
  obtain b t1 where p: "publish t k0 s = (b, t1)" by (cases "publish t k0 s")
  with Cons.prems(3) x have b: "b" and run: "run_publish publish xs t1 = Some t'"
    by (auto split: if_splits)
  have p': "publish t k0 s = (True, t1)" using p b by simp
  have v: "valid s" "\<forall>(k, s)\<in>set xs. valid s" using Cons.prems(2) x by auto
  note ok1 = publish_ok[OF Cons.prems(1) v(1) p'] and look1 = publish_find[OF Cons.prems(1) v(1) p', of k]
  show ?case
    using Cons.IH[OF ok1 v(2) run] look1 x by (auto simp: Let_def)
qed (simp add: Let_def)

text \<open>Whatever a merge never decreases, a run of publications never decreases.\<close>

lemma run_publish_mono:
  assumes "ok t" "\<forall>(k, s)\<in>set xs. valid s" "run_publish publish xs t = Some t'" "lookup t k = Some e"
    and mono: "\<And>s e. R e (merge s e)" and refl: "\<And>e. R e e" and trans: "\<And>a b c. R a b \<Longrightarrow> R b c \<Longrightarrow> R a c"
  shows "\<exists>e'. lookup t' k = Some e' \<and> R e e'"
proof -
  have f: "R a (fold merge ss a)" for ss a
  proof (induction ss arbitrary: a)
    case (Cons s ss)
    show ?case using trans[OF mono[of a s] Cons[of "merge s a"]] by simp
  qed (simp add: refl)
  show ?thesis
    using run_publish_lookup[OF assms(1-3), of k] assms(4) f refl by (auto simp: Let_def)
qed

end

interpretation stbl: session_store session_table_ok session_lookup PublishSessionEntry merge_entry session_fresh
  "\<lambda>s. sp_session_epoch s \<noteq> 0"
  by unfold_locales (use publish_lookup in blast)+

text \<open>The order publications respect: frontiers grow, fences and activation persist.\<close>

definition entry_le :: "SessionEntry \<Rightarrow> SessionEntry \<Rightarrow> bool" where
  "entry_le a b \<longleftrightarrow> se_session_key a = se_session_key b \<and> se_expected_seq a \<le> se_expected_seq b \<and>
     se_committed_hwm a \<le> se_committed_hwm b \<and> se_highest_sequenced a \<le> se_highest_sequenced b \<and>
     (entry_fenced a \<longrightarrow> entry_fenced b) \<and> (entry_active a \<longrightarrow> entry_active b)"

lemma merge_entry_le: "entry_le e (merge_entry snap e)"
  by (auto simp: entry_le_def merge_entry_def StoreSessionMaximum_def entry_fenced_def entry_active_def
      kSessionEntryFlagFenced_def kSessionEntryFlagActive_def bit_of_and_1 bit_of_and_2
      merge_word_fenced merge_word_active)

lemma entry_le_refl: "entry_le e e"
  by (simp add: entry_le_def)

lemma entry_le_trans: "entry_le a b \<Longrightarrow> entry_le b c \<Longrightarrow> entry_le a c"
  by (auto simp: entry_le_def)

lemma fold_merge_fields:
  "se_expected_seq (fold merge_entry ss e) = fold max (map sp_expected_seq ss) (se_expected_seq e)"
  "se_committed_hwm (fold merge_entry ss e) = fold max (map sp_committed_hwm ss) (se_committed_hwm e)"
  "entry_fenced (fold merge_entry ss e) \<longleftrightarrow> entry_fenced e \<or> (\<exists>s\<in>set ss. sp_fenced s)"
proof -
  have m: "(if a < b then b else a) = max b (a::nat)" for a b by simp
  show "se_expected_seq (fold merge_entry ss e) = fold max (map sp_expected_seq ss) (se_expected_seq e)"
    by (induction ss arbitrary: e) (simp_all add: merge_entry_def StoreSessionMaximum_def m)
  show "se_committed_hwm (fold merge_entry ss e) = fold max (map sp_committed_hwm ss) (se_committed_hwm e)"
    by (induction ss arbitrary: e) (simp_all add: merge_entry_def StoreSessionMaximum_def m)
  show "entry_fenced (fold merge_entry ss e) \<longleftrightarrow> entry_fenced e \<or> (\<exists>s\<in>set ss. sp_fenced s)"
    by (induction ss arbitrary: e)
      (auto simp: merge_entry_def entry_fenced_def kSessionEntryFlagFenced_def bit_of_and_1 merge_word_fenced)
qed

text \<open>Claims under interference end at a slot that holds the key.\<close>

lemma claim_probe_holds_key:
  "claim_probe intf cap key start p n tbl = (Some i, c, tbl') \<Longrightarrow> se_session_key (tbl' i) = key"
  by (induction n arbitrary: p tbl) (auto simp: Let_def split: if_splits)

lemma find_first_free:
  "se_session_key (tbl start) = 0 \<Longrightarrow> key \<noteq> 0 \<Longrightarrow> start < cap \<Longrightarrow>
   find_probe tbl cap key start 0 cap = None"
  by (cases cap) (auto simp: Let_def)

lemma claim_first_free:
  "se_session_key (tbl start) = 0 \<Longrightarrow> key \<noteq> 0 \<Longrightarrow> start < cap \<Longrightarrow>
   claim_probe no_interference cap key start 0 cap tbl =
     (Some start, True, tbl(start := (tbl start)\<lparr>se_session_key := key\<rparr>))"
  by (cases cap) (auto simp: Let_def no_interference_def)

lemma claim_first_hit:
  "se_session_key (tbl start) = key \<Longrightarrow> start < cap \<Longrightarrow>
   claim_probe intf cap key start 0 cap tbl = (Some start, False, tbl)"
  by (cases cap) (auto simp: Let_def)

lemma publish_first_free:
  assumes "se_session_key (t (session_start key)) = 0" "key \<noteq> 0" "sp_session_epoch snap \<noteq> 0"
  shows "\<exists>t'. PublishSessionEntry (Some t) key snap = (True, Some t')"
  using assms by (simp add: PublishSessionEntry_def FindOrCreateSessionEntry_def FindOrClaimSession_def claim_first_free)

subsection \<open>Properties\<close>

text \<open>C9: the probing session table implements a map of merged entries.  After any successful
  run of publications from a well-formed table, looking up a key returns its previous (or a
  fresh) entry with exactly the snapshots published for that key merged in, in order; keys
  that were not published are unchanged.\<close>

theorem session_table_refines_map:
  assumes "session_table_ok table" "\<forall>(k, s)\<in>set pubs. sp_session_epoch s \<noteq> 0"
    and "run_publish PublishSessionEntry pubs table = Some table'"
  shows "session_lookup table' key =
     (let ss = map snd (filter (\<lambda>(k, s). k = key) pubs)
      in if ss = [] then session_lookup table key
         else Some (fold merge_entry ss
                (case session_lookup table key of None \<Rightarrow> session_fresh key | Some e \<Rightarrow> e)))"
  using stbl.run_publish_lookup[OF assms, of key] by simp

lemma session_table_refines_map_witness:
  "let k = MakeSessionKey 7 1;
       s = \<lparr>sp_session_epoch = 1, sp_expected_seq = 3, sp_committed_hwm = 2, sp_highest_sequenced = 2, sp_fenced = True\<rparr>
   in map_option (\<lambda>t. map_option se_expected_seq (session_lookup t k))
        (run_publish PublishSessionEntry [(k, s)] (Some (\<lambda>_. SessionEntry_empty))) = Some (Some 3)"
proof -
  define k where "k = MakeSessionKey 7 1"
  define s where "s = \<lparr>sp_session_epoch = 1, sp_expected_seq = 3, sp_committed_hwm = 2, sp_highest_sequenced = 2, sp_fenced = True\<rparr>"
  have k: "k \<noteq> 0" by (simp add: k_def MakeSessionKey_def u32_def)
  have e: "session_lookup (Some (\<lambda>_. SessionEntry_empty)) k = None"
    using k by (simp add: session_lookup_Some SessionEntry_empty_def find_first_free)
  obtain t' where r: "run_publish PublishSessionEntry [(k, s)] (Some (\<lambda>_. SessionEntry_empty)) = Some t'"
    using publish_first_free[of "\<lambda>_. SessionEntry_empty" k s] k
    by (auto simp: SessionEntry_empty_def s_def)
  have "session_lookup t' k = Some (merge_entry s (session_fresh k))"
    using session_table_refines_map[OF session_table_ok_empty _ r, of k] e by (simp add: s_def)
  then show ?thesis
    using r by (simp add: Let_def k_def s_def merge_entry_def StoreSessionMaximum_def session_fresh_def SessionEntry_empty_def)
qed

text \<open>C10: publication is monotone and fencing is irreversible.  Over any successful run of
  publications the entry of a session keeps its key, its expected sequence, committed
  high-water mark and highest sequenced never decrease, and a fenced or active session stays so.\<close>

theorem session_publication_monotone:
  assumes "session_table_ok table" "\<forall>(k, s)\<in>set pubs. sp_session_epoch s \<noteq> 0"
    and "run_publish PublishSessionEntry pubs table = Some table'"
    and "session_lookup table key = Some e"
  shows "\<exists>e'. session_lookup table' key = Some e' \<and> entry_le e e'"
  by (rule stbl.run_publish_mono[OF assms]) (auto intro: merge_entry_le entry_le_refl entry_le_trans)

lemma session_publication_monotone_witness:
  "let k = MakeSessionKey 7 1;
       s = (\<lambda>n f. \<lparr>sp_session_epoch = 1, sp_expected_seq = n, sp_committed_hwm = n - 1, sp_highest_sequenced = n - 1, sp_fenced = f\<rparr>);
       tbl = Some ((\<lambda>_. SessionEntry_empty)(session_start k := merge_entry (s 5 True) (session_fresh k)))
   in \<exists>e e' tbl'. session_lookup tbl k = Some e \<and>
        run_publish PublishSessionEntry [(k, s 2 False)] tbl = Some tbl' \<and>
        session_lookup tbl' k = Some e' \<and> entry_fenced e' \<and> 5 \<le> se_expected_seq e'"
proof -
  define k where "k = MakeSessionKey 7 1"
  define s where "s = (\<lambda>n f. \<lparr>sp_session_epoch = 1, sp_expected_seq = n, sp_committed_hwm = n - 1, sp_highest_sequenced = n - (1::nat), sp_fenced = f\<rparr>)"
  have k: "k \<noteq> 0" by (simp add: k_def MakeSessionKey_def u32_def)
  obtain t0 where p0: "PublishSessionEntry (Some (\<lambda>_. SessionEntry_empty)) k (s 5 True) = (True, Some t0)"
    using publish_first_free[of "\<lambda>_. SessionEntry_empty" k "s 5 True"] k by (auto simp: SessionEntry_empty_def s_def)
  have t0: "t0 = (\<lambda>_. SessionEntry_empty)(session_start k := merge_entry (s 5 True) (session_fresh k))"
    using p0 k by (auto simp: PublishSessionEntry_def FindOrCreateSessionEntry_def FindOrClaimSession_def
        claim_first_free SessionEntry_empty_def session_fresh_def s_def)
  have e0: "session_lookup (Some (\<lambda>_. SessionEntry_empty)) k = None"
    using k by (simp add: session_lookup_Some SessionEntry_empty_def find_first_free)
  have ok: "session_table_ok (Some t0)" and l: "session_lookup (Some t0) k = Some (merge_entry (s 5 True) (session_fresh k))"
    using publish_lookup[OF session_table_ok_empty _ p0] e0 by (auto simp: s_def)
  have here: "se_session_key (t0 (session_start k)) = k" by (simp add: t0 merge_entry_def session_fresh_def)
  have "claim_probe no_interference kMaxSessions k (session_start k) 0 kMaxSessions t0 = (Some (session_start k), False, t0)"
    using here by (simp add: claim_first_hit)
  then obtain t1 where r: "run_publish PublishSessionEntry [(k, s 2 False)] (Some t0) = Some t1"
    using k by (auto simp: PublishSessionEntry_def FindOrCreateSessionEntry_def FindOrClaimSession_def s_def)
  obtain e' where e': "session_lookup t1 k = Some e'" "entry_le (merge_entry (s 5 True) (session_fresh k)) e'"
    using session_publication_monotone[OF ok _ r l] by (auto simp: s_def)
  have "entry_fenced (merge_entry (s 5 True) (session_fresh k))" "se_expected_seq (merge_entry (s 5 True) (session_fresh k)) = 5"
    by (simp_all add: s_def merge_entry_def session_fresh_def SessionEntry_empty_def StoreSessionMaximum_def
        entry_fenced_def kSessionEntryFlagFenced_def bit_of_and_1 merge_word_fenced)
  with e' have "entry_fenced e' \<and> 5 \<le> se_expected_seq e'" by (simp add: entry_le_def)
  then show ?thesis
    unfolding Let_def k_def[symmetric] s_def[symmetric] t0[symmetric] using l r e'(1) by blast
qed

text \<open>C25: ORDER=4 stream keys alias across session epochs.  Although each key is a bijective
  mix, the broker id is folded into the session epoch bits, so for every client the stream of
  epoch 1 on broker 1 and the stream of epoch 3 on broker 0 share one key.\<close>

theorem stream_keys_alias_across_epochs:
  "MakeClientBrokerStreamKey c 1 1 = MakeClientBrokerStreamKey c 3 0"
proof -
  let ?w = "push_bit 32 (word_of_nat (u32 c)) :: 64 word"
  have "(?w OR 1) XOR 2 = (?w OR 3)"
    by (rule bit_word_eqI)
      (auto simp: bit_xor_iff bit_or_iff bit_push_bit_iff bit_numeral_rec bit_1_iff split: nat.splits)
  then have "MakeSessionKey c 1 XOR push_bit 1 (word_of_nat (broker16 1)) =
    MakeSessionKey c 3 XOR push_bit 1 (word_of_nat (broker16 0))"
    by (simp add: MakeSessionKey_def broker16_def)
  then show ?thesis by (simp add: stream_key_collision)
qed

end
