(* ===== verification/Dedup.thy ===== *)
theory Dedup
  imports SessionTable
begin

unbundle bit_operations_syntax

text \<open>
  \<open>FastDeduplicator\<close> of \<open>embarlet/sequencer_utils.h\<close>: an open-addressed table of batch ids with
  a ring of insertion order for eviction.  Both arrays are functions from index to id;
  \<open>EMPTY\<close> and \<open>TOMBSTONE\<close> are the two largest 64-bit values.
\<close>

definition DD_TABLE_SIZE :: nat where "DD_TABLE_SIZE = 2 ^ 21"
definition DD_RING_SIZE :: nat where "DD_RING_SIZE = 2 ^ 20"
definition DD_MAX_PROBES :: nat where "DD_MAX_PROBES = 128"
definition DD_EMPTY :: nat where "DD_EMPTY = 0xFFFFFFFFFFFFFFFF"
definition DD_TOMBSTONE :: nat where "DD_TOMBSTONE = 0xFFFFFFFFFFFFFFFE"

record FastDeduplicator =
  dd_table :: "nat \<Rightarrow> nat"
  dd_ring :: "nat \<Rightarrow> nat"
  dd_head :: nat
  dd_count :: nat
  dd_skip :: bool

definition Dedup_init :: FastDeduplicator where
  "Dedup_init = \<lparr>dd_table = (\<lambda>_. DD_EMPTY), dd_ring = (\<lambda>_. DD_EMPTY), dd_head = 0, dd_count = 0, dd_skip = False\<rparr>"

definition set_skip :: "bool \<Rightarrow> FastDeduplicator \<Rightarrow> FastDeduplicator" where
  "set_skip b d = d\<lparr>dd_skip := b\<rparr>"

definition hash64 :: "nat \<Rightarrow> nat" where
  "hash64 n =
     (let x = (word_of_nat n :: 64 word);
          x = x XOR drop_bit 33 x;
          x = x * 0xff51afd7ed558ccd;
          x = x XOR drop_bit 33 x;
          x = x * 0xc4ceb9fe1a85ec53;
          x = x XOR drop_bit 33 x
      in unat x)"

text \<open>The probe loop: \<open>Inl ()\<close> when the id is present, \<open>Inr\<close> the insertion index otherwise
  (\<open>None\<close> when all probes hit other ids).  Masking with \<open>TABLE_SIZE - 1\<close> is \<open>mod\<close>.\<close>

fun dd_probe :: "(nat \<Rightarrow> nat) \<Rightarrow> nat \<Rightarrow> nat \<Rightarrow> nat \<Rightarrow> nat option \<Rightarrow> unit + nat option" where
  "dd_probe tbl batch_id idx 0 insert_at = Inr insert_at"
| "dd_probe tbl batch_id idx (Suc n) insert_at =
     (let entry = tbl idx
      in if entry = batch_id then Inl ()
         else if entry = DD_EMPTY then Inr (case insert_at of None \<Rightarrow> Some idx | Some i \<Rightarrow> Some i)
         else dd_probe tbl batch_id ((idx + 1) mod DD_TABLE_SIZE) n
                (if entry = DD_TOMBSTONE \<and> insert_at = None then Some idx else insert_at))"

fun dd_evict :: "(nat \<Rightarrow> nat) \<Rightarrow> nat \<Rightarrow> nat \<Rightarrow> nat \<Rightarrow> (nat \<Rightarrow> nat)" where
  "dd_evict tbl old_id idx 0 = tbl"
| "dd_evict tbl old_id idx (Suc n) =
     (if tbl idx = old_id then tbl(idx := DD_TOMBSTONE)
      else if tbl idx = DD_EMPTY then tbl
      else dd_evict tbl old_id ((idx + 1) mod DD_TABLE_SIZE) n)"

definition dd_evict_oldest :: "FastDeduplicator \<Rightarrow> FastDeduplicator" where
  "dd_evict_oldest d =
     (if dd_count d \<ge> DD_RING_SIZE then
        (let oldest = (dd_head d + DD_RING_SIZE - dd_count d) mod DD_RING_SIZE;
             old_id = dd_ring d oldest;
             tbl = (if old_id \<noteq> DD_EMPTY \<and> old_id < DD_TOMBSTONE
                    then dd_evict (dd_table d) old_id (hash64 old_id mod DD_TABLE_SIZE) DD_MAX_PROBES
                    else dd_table d)
         in d\<lparr>dd_table := tbl, dd_ring := (dd_ring d)(oldest := DD_EMPTY), dd_count := dd_count d - 1\<rparr>)
      else d)"

definition check_and_insert :: "FastDeduplicator \<Rightarrow> nat \<Rightarrow> bool \<times> FastDeduplicator" where
  "check_and_insert d batch_id =
     (if dd_skip d then (False, d)
      else if batch_id \<ge> DD_TOMBSTONE then (False, d)
      else (case dd_probe (dd_table d) batch_id (hash64 batch_id mod DD_TABLE_SIZE) DD_MAX_PROBES None of
              Inl _ \<Rightarrow> (True, d)
            | Inr None \<Rightarrow> (False, d)
            | Inr (Some insert_at) \<Rightarrow>
                (let d1 = dd_evict_oldest d
                 in (False, d1\<lparr>dd_table := (dd_table d1)(insert_at := batch_id),
                               dd_ring := (dd_ring d1)(dd_head d1 := batch_id),
                               dd_head := (dd_head d1 + 1) mod DD_RING_SIZE,
                               dd_count := dd_count d1 + 1\<rparr>))))"

subsection \<open>No false duplicates\<close>

definition dd_holds :: "nat set \<Rightarrow> FastDeduplicator \<Rightarrow> bool" where
  "dd_holds S d \<longleftrightarrow> (\<forall>i. dd_table d i \<in> S \<union> {DD_EMPTY, DD_TOMBSTONE})"

lemma dd_probe_dup: "dd_probe tbl x idx n ins = Inl u \<Longrightarrow> \<exists>i. tbl i = x"
  by (induction n arbitrary: idx ins) (auto simp: Let_def split: if_splits)

lemma dd_evict_only_tombstones:
  "old \<noteq> DD_EMPTY \<Longrightarrow> dd_evict tbl old idx n i = tbl i \<or> dd_evict tbl old idx n i = DD_TOMBSTONE \<and> tbl i \<noteq> DD_EMPTY"
  by (induction n arbitrary: idx) auto

lemma dd_evict_oldest_table:
  "dd_table (dd_evict_oldest d) i = dd_table d i \<or>
   dd_table (dd_evict_oldest d) i = DD_TOMBSTONE \<and> dd_table d i \<noteq> DD_EMPTY"
  using dd_evict_only_tombstones by (auto simp: dd_evict_oldest_def Let_def)

lemma dd_holds_evict: "dd_holds S d \<Longrightarrow> dd_holds S (dd_evict_oldest d)"
  unfolding dd_holds_def using dd_evict_oldest_table by (metis UnCI insertCI)

lemma dd_holds_check:
  assumes "dd_holds S d" "check_and_insert d x = (b, d')"
  shows "(b \<longrightarrow> x \<in> S) \<and> dd_holds (insert x S) d'"
proof (cases "dd_skip d \<or> x \<ge> DD_TOMBSTONE")
  case True
  then have "b = False \<and> d' = d" using assms(2) by (auto simp: check_and_insert_def split: if_splits)
  then show ?thesis using assms(1) by (auto simp: dd_holds_def)
next
  case False
  then have x: "x \<noteq> DD_EMPTY" "x \<noteq> DD_TOMBSTONE" by (auto simp: DD_EMPTY_def DD_TOMBSTONE_def)
  show ?thesis
  proof (cases "dd_probe (dd_table d) x (hash64 x mod DD_TABLE_SIZE) DD_MAX_PROBES None")
    case (Inl u)
    then obtain i where "dd_table d i = x" using dd_probe_dup by blast
    then have "x \<in> S" using assms(1) x by (auto simp: dd_holds_def dest: spec[of _ i])
    then show ?thesis using assms False Inl by (auto simp: check_and_insert_def dd_holds_def)
  next
    case (Inr ins)
    then show ?thesis
      using assms False dd_holds_evict[OF assms(1)]
      by (cases ins) (auto simp: check_and_insert_def dd_holds_def Let_def; blast)+
  qed
qed

text \<open>The interface: \<open>holds S d\<close> says that \<open>d\<close> stores only ids of \<open>S\<close>.\<close>

locale dedup_filter =
  fixes holds :: "'x set \<Rightarrow> 'd \<Rightarrow> bool"
    and check :: "'d \<Rightarrow> 'x \<Rightarrow> bool \<times> 'd"
  assumes holds_check: "holds S d \<Longrightarrow> check d x = (b, d') \<Longrightarrow> (b \<longrightarrow> x \<in> S) \<and> holds (insert x S) d'"
begin

lemma fresh_passes: "holds S d \<Longrightarrow> x \<notin> S \<Longrightarrow> \<not> fst (check d x) \<and> holds (insert x S) (snd (check d x))"
  using holds_check[of S d x "fst (check d x)" "snd (check d x)"] by auto

lemma fresh_run_passes:
  "holds S d \<Longrightarrow> distinct xs \<Longrightarrow> set xs \<inter> S = {} \<Longrightarrow>
   (\<forall>n < length xs. \<not> fst (check (fold (\<lambda>x d. snd (check d x)) (take n xs) d) (xs ! n)))"
proof (induction xs arbitrary: S d)
  case (Cons x xs)
  have step: "\<not> fst (check d x)" "holds (insert x S) (snd (check d x))"
    using fresh_passes[of S d x] Cons.prems by auto
  have ih: "\<forall>n < length xs. \<not> fst (check (fold (\<lambda>x d. snd (check d x)) (take n xs) (snd (check d x))) (xs ! n))"
    using Cons.IH[OF step(2)] Cons.prems by auto
  show ?case
  proof (intro allI impI)
    fix n assume "n < length (x # xs)"
    then show "\<not> fst (check (fold (\<lambda>x d. snd (check d x)) (take n (x # xs)) d) ((x # xs) ! n))"
      using step ih by (cases n) auto
  qed
qed simp

end

interpretation fd: dedup_filter dd_holds check_and_insert
  using dd_holds_check by unfold_locales

lemma dd_holds_init [simp]: "dd_holds {} Dedup_init"
  by (simp add: dd_holds_def Dedup_init_def)

subsection \<open>A stored id is recognised\<close>

lemma dd_probe_insert_some: "dd_probe tbl x idx n (Some j) = Inr r \<Longrightarrow> r = Some j"
  by (induction n arbitrary: idx) (auto simp: Let_def split: if_splits)

text \<open>A table that agrees with the probed one up to tombstones, with the id written at the
  insertion index, is hit again.\<close>

lemma dd_probe_after_insert:
  assumes "dd_probe tbl x idx n None = Inr (Some j)" "x < DD_TOMBSTONE"
    and "\<And>i. tbl' i = tbl i \<or> tbl' i = DD_TOMBSTONE \<and> tbl i \<noteq> DD_EMPTY"
  shows "dd_probe (tbl'(j := x)) x idx n None = Inl ()"
proof -
  have x: "x \<noteq> DD_EMPTY" "x \<noteq> DD_TOMBSTONE" using assms(2) by (auto simp: DD_EMPTY_def DD_TOMBSTONE_def)
  have et: "DD_EMPTY \<noteq> DD_TOMBSTONE" by (simp add: DD_EMPTY_def DD_TOMBSTONE_def)
  have "dd_probe (tbl'(j := x)) x idx n ins = Inl ()" if "dd_probe tbl x idx n ins0 = Inr (Some j)" "ins0 = None" for ins ins0
    using that
  proof (induction n arbitrary: idx ins ins0)
    case (Suc n)
    consider "tbl idx = DD_EMPTY" | "tbl idx = DD_TOMBSTONE" | "tbl idx \<notin> {DD_EMPTY, DD_TOMBSTONE, x}"
      using Suc.prems by (auto simp: Let_def split: if_splits)
    then show ?case
    proof cases
      case 1
      then have "j = idx" using Suc.prems x by (simp add: Let_def)
      then show ?thesis by (simp add: Let_def)
    next
      case 2
      then have "dd_probe tbl x ((idx + 1) mod DD_TABLE_SIZE) n (Some idx) = Inr (Some j)"
        using Suc.prems x et by (simp add: Let_def)
      then have "j = idx" using dd_probe_insert_some by fastforce
      then show ?thesis by (simp add: Let_def)
    next
      case 3
      then have rec: "dd_probe tbl x ((idx + 1) mod DD_TABLE_SIZE) n None = Inr (Some j)"
        using Suc.prems by (simp add: Let_def)
      show ?thesis
      proof (cases "j = idx")
        case False
        then have "(tbl'(j := x)) idx \<noteq> x" "(tbl'(j := x)) idx \<noteq> DD_EMPTY"
          using assms(3)[of idx] 3 x et by auto
        then show ?thesis using Suc.IH[OF rec refl] by (simp add: Let_def)
      qed (simp add: Let_def)
    qed
  qed simp
  then show ?thesis using assms(1) by blast
qed

lemma dd_skip_evict [simp]: "dd_skip (dd_evict_oldest d) = dd_skip d"
  by (simp add: dd_evict_oldest_def Let_def)

subsection \<open>Histories\<close>

lemma dedup_fresh_passes:
  assumes "x \<notin> set xs"
  shows "\<not> fst (check_and_insert (fold (\<lambda>y d. snd (check_and_insert d y)) xs Dedup_init) x)"
proof -
  have "dd_holds (S \<union> set xs) (fold (\<lambda>y d. snd (check_and_insert d y)) xs d)" if "dd_holds S d" for S d
    using that
  proof (induction xs arbitrary: S d)
    case (Cons y ys)
    have "dd_holds (insert y S) (snd (check_and_insert d y))"
      using dd_holds_check[OF Cons.prems, of y "fst (check_and_insert d y)"] by simp
    from Cons.IH[OF this] show ?case by (simp add: Un_commute)
  qed simp
  from fd.fresh_passes[OF this[OF dd_holds_init], of x] assms show ?thesis by simp
qed

lemma dedup_stored_found:
  assumes "\<not> dd_skip d" "x < DD_TOMBSTONE"
    and "dd_probe (dd_table d) x (hash64 x mod DD_TABLE_SIZE) DD_MAX_PROBES None = Inr (Some j)"
  shows "\<not> fst (check_and_insert d x) \<and> fst (check_and_insert (snd (check_and_insert d x)) x)"
proof -
  have "dd_probe ((dd_table (dd_evict_oldest d))(j := x)) x (hash64 x mod DD_TABLE_SIZE) DD_MAX_PROBES None = Inl ()"
    using dd_probe_after_insert[OF assms(3,2)] dd_evict_oldest_table by blast
  then show ?thesis
    using assms by (simp add: check_and_insert_def Let_def)
qed

lemma dd_probe_empty:
  "x \<noteq> DD_EMPTY \<Longrightarrow> dd_probe (\<lambda>_. DD_EMPTY) x idx DD_MAX_PROBES None = Inr (Some idx)"
proof -
  assume "x \<noteq> DD_EMPTY"
  then have "dd_probe (\<lambda>_. DD_EMPTY) x idx (Suc n) None = Inr (Some idx)" for n by (simp add: Let_def)
  moreover have "DD_MAX_PROBES = Suc 127" by (simp add: DD_MAX_PROBES_def)
  ultimately show ?thesis by metis
qed

subsection \<open>Properties\<close>

text \<open>C26: duplicate suppression never drops a new batch and recognises what it stores.  Starting from an empty
  deduplicator, after any history of checks, an id that was not checked before is reported new; and if a
  valid id finds room in its probe sequence, the next check of the same id reports a duplicate,
  whatever was evicted in between by that insertion.\<close>

theorem dedup_decisions:
  defines "after \<equiv> \<lambda>xs. fold (\<lambda>y d. snd (check_and_insert d y)) xs Dedup_init"
  shows "(x \<notin> set xs \<longrightarrow> \<not> fst (check_and_insert (after xs) x)) \<and>
    (\<not> dd_skip (after xs) \<and> x < DD_TOMBSTONE \<and>
     dd_probe (dd_table (after xs)) x (hash64 x mod DD_TABLE_SIZE) DD_MAX_PROBES None = Inr (Some j) \<longrightarrow>
     fst (check_and_insert (snd (check_and_insert (after xs) x)) x))"
  using dedup_fresh_passes[of x xs] dedup_stored_found[of "after xs" x j] by (simp add: after_def)

theorem dedup_decisions_witness:
  "\<not> fst (check_and_insert Dedup_init 42) \<and> fst (check_and_insert (snd (check_and_insert Dedup_init 42)) 42)"
proof -
  have "dd_probe (dd_table Dedup_init) 42 (hash64 42 mod DD_TABLE_SIZE) DD_MAX_PROBES None = Inr (Some (hash64 42 mod DD_TABLE_SIZE))"
    using dd_probe_empty[of 42] by (simp add: Dedup_init_def) (simp add: DD_EMPTY_def)
  moreover have "\<not> dd_skip Dedup_init" "42 < DD_TOMBSTONE" by (simp_all add: Dedup_init_def DD_TOMBSTONE_def)
  ultimately show ?thesis using dedup_decisions[of 42 "[]" "hash64 42 mod DD_TABLE_SIZE"] by simp
qed

end
