(* ===== verification/RadixSort.thy ===== *)
theory RadixSort
  imports Prelude "HOL-Library.Multiset"
begin

text \<open>
  \<open>RadixSorter\<close> of \<open>embarlet/sequencer_utils.h\<close>: least-significant-digit radix sort of pending
  batches by client id (four 16-bit counting passes between the array and a temporary), and
  insertion sort by batch sequence.  The element type is a parameter with its key function.
  \<open>std::sort\<close>, called on fewer than 4096 elements, does not say how it orders equal keys: it is a
  parameter \<open>stdsort\<close> of the definition.
\<close>

definition kRadixThreshold :: nat where "kRadixThreshold = 4096"
definition kBuckets :: nat where "kBuckets = 2 ^ 16"

definition bucket_of :: "nat \<Rightarrow> nat \<Rightarrow> nat" where
  "bucket_of shift k = (k div 2 ^ shift) mod kBuckets"

fun count_buckets :: "('a \<Rightarrow> nat) \<Rightarrow> 'a list \<Rightarrow> (nat \<Rightarrow> nat) \<Rightarrow> (nat \<Rightarrow> nat)" where
  "count_buckets f [] counts = counts"
| "count_buckets f (x # xs) counts = count_buckets f xs (counts(f x := counts (f x) + 1))"

text \<open>The exclusive prefix sum over the buckets \<open>i, i+1, ...\<close>.\<close>

fun prefix_buckets :: "nat list \<Rightarrow> nat \<Rightarrow> (nat \<Rightarrow> nat) \<Rightarrow> (nat \<Rightarrow> nat)" where
  "prefix_buckets [] tot counts = counts"
| "prefix_buckets (i # js) tot counts =
     (let c = counts i in prefix_buckets js (tot + c) (counts(i := tot)))"

fun scatter :: "('a \<Rightarrow> nat) \<Rightarrow> 'a list \<Rightarrow> 'a list \<Rightarrow> (nat \<Rightarrow> nat) \<Rightarrow> 'a list" where
  "scatter f [] dst counts = dst"
| "scatter f (x # xs) dst counts =
     scatter f xs (dst[counts (f x) := x]) (counts(f x := counts (f x) + 1))"

definition radix_pass :: "('a \<Rightarrow> nat) \<Rightarrow> 'a list \<Rightarrow> 'a list \<Rightarrow> 'a list" where
  "radix_pass f src dst =
     (let counts = count_buckets f src (\<lambda>_. 0);
          counts = prefix_buckets [0..<kBuckets] 0 counts
      in scatter f src dst counts)"

text \<open>The loop over the four passes; \<open>src\<close> and \<open>dst\<close> are swapped after each.\<close>

fun radix_passes :: "('a \<Rightarrow> nat) \<Rightarrow> nat list \<Rightarrow> 'a list \<Rightarrow> 'a list \<Rightarrow> 'a list \<times> 'a list" where
  "radix_passes key [] src dst = (src, dst)"
| "radix_passes key (p # ps) src dst =
     radix_passes key ps (radix_pass (\<lambda>x. bucket_of (p * 16) (key x)) src dst) src"

text \<open>After an even number of swaps the sorted data is back in \<open>arr\<close>.\<close>

definition sort_by_client_id :: "('a list \<Rightarrow> 'a list) \<Rightarrow> ('a \<Rightarrow> nat) \<Rightarrow> 'a list \<Rightarrow> 'a list \<Rightarrow> 'a list" where
  "sort_by_client_id stdsort key temp arr =
     (if length arr \<le> 1 then arr
      else if length arr < kRadixThreshold then stdsort arr
      else fst (radix_passes key [0, 1, 2, 3] arr (take (length arr) (temp @ arr))))"

text \<open>Insertion sort: the element is moved left past the larger ones of the sorted prefix,
  given here in reverse.\<close>

fun insert_back :: "('a \<Rightarrow> nat) \<Rightarrow> 'a \<Rightarrow> 'a list \<Rightarrow> 'a list" where
  "insert_back key x [] = [x]"
| "insert_back key x (y # ys) = (if key y > key x then y # insert_back key x ys else x # y # ys)"

definition sort_by_client_seq :: "('a \<Rightarrow> nat) \<Rightarrow> 'a list \<Rightarrow> 'a list" where
  "sort_by_client_seq key xs = rev (foldl (\<lambda>acc x. insert_back key x acc) [] xs)"

subsection \<open>Canonical form of a stable sort\<close>

definition by_bucket :: "('a \<Rightarrow> nat) \<Rightarrow> nat \<Rightarrow> 'a list \<Rightarrow> 'a list" where
  "by_bucket f K xs = concat (map (\<lambda>b. filter (\<lambda>x. f x = b) xs) [0..<K])"

lemma by_bucket_Suc: "by_bucket f (Suc K) xs = by_bucket f K xs @ filter (\<lambda>x. f x = K) xs"
  by (simp add: by_bucket_def)

lemma filter_by_bucket:
  "filter (\<lambda>x. f x = b) (by_bucket f K xs) = (if b < K then filter (\<lambda>x. f x = b) xs else [])"
proof (induction K)
  case (Suc K)
  have "filter (\<lambda>x. f x = b) (filter (\<lambda>x. f x = K) xs) = (if b = K then filter (\<lambda>x. f x = b) xs else [])"
    by (auto simp: filter_empty_conv)
  then show ?case using Suc by (auto simp: by_bucket_Suc)
qed (simp add: by_bucket_def)

lemma set_by_bucket: "set (by_bucket f K xs) = {x \<in> set xs. f x < K}"
  by (auto simp: by_bucket_def)

lemma sorted_by_bucket: "sorted (map f (by_bucket f K xs))"
proof (induction K)
  case (Suc K)
  have "map f (filter (\<lambda>x. f x = K) xs) = replicate (length (filter (\<lambda>x. f x = K) xs)) K"
    by (induction xs) auto
  then show ?case using Suc by (auto simp: by_bucket_Suc sorted_append set_by_bucket)
qed (simp add: by_bucket_def)

lemma sorted_filter_eq:
  assumes "sorted (map f xs)" "sorted (map f ys)"
    and "\<And>k. filter (\<lambda>x. f x = k) xs = filter (\<lambda>x. f x = (k::nat)) ys"
  shows "xs = ys"
  using assms
proof (induction xs arbitrary: ys)
  case Nil
  then have "filter (\<lambda>x. f x = f (hd ys)) ys = []" by simp
  then show ?case by (cases ys) auto
next
  case (Cons x xs)
  have "x \<in> set (filter (\<lambda>z. f z = f x) ys)"
    unfolding Cons.prems(3)[symmetric] by simp
  then have "x \<in> set ys" by simp
  then obtain y ys' where ys: "ys = y # ys'" by (cases ys) auto
  have "f y = f x"
  proof (rule antisym)
    show "f y \<le> f x" using \<open>x \<in> set ys\<close> Cons.prems(2) ys by auto
    have "y \<in> set (filter (\<lambda>z. f z = f y) (x # xs))"
      unfolding Cons.prems(3) ys by simp
    then have "y \<in> set (x # xs)" by (metis filter_is_subset subsetD)
    then show "f x \<le> f y" using Cons.prems(1) by auto
  qed
  then have "x = y" using Cons.prems(3)[of "f x"] ys by simp
  moreover have "xs = ys'"
  proof (rule Cons.IH)
    show "sorted (map f xs)" "sorted (map f ys')" using Cons.prems(1,2) ys by auto
    show "filter (\<lambda>x. f x = k) xs = filter (\<lambda>x. f x = k) ys'" for k
      using Cons.prems(3)[of k] ys \<open>x = y\<close> by (cases "f x = k") auto
  qed
  ultimately show ?case using ys by simp
qed

lemma by_bucket_sort_key:
  assumes "\<forall>x\<in>set xs. f x < K"
  shows "by_bucket f K xs = sort_key f xs"
proof (rule sorted_filter_eq[of f])
  fix k
  have "filter (\<lambda>x. f x = k) xs = []" if "\<not> k < K"
    using assms that by (auto simp: filter_empty_conv)
  then show "filter (\<lambda>x. f x = k) (by_bucket f K xs) = filter (\<lambda>x. f x = k) (sort_key f xs)"
    by (auto simp: filter_by_bucket sort_key_stable)
qed (simp_all add: sorted_by_bucket)

subsection \<open>A counting pass is a stable sort\<close>

definition bcount :: "('a \<Rightarrow> nat) \<Rightarrow> nat \<Rightarrow> 'a list \<Rightarrow> nat" where
  "bcount f b xs = length (filter (\<lambda>x. f x = b) xs)"

definition bstart :: "('a \<Rightarrow> nat) \<Rightarrow> nat \<Rightarrow> 'a list \<Rightarrow> nat" where
  "bstart f b xs = (\<Sum>c<b. bcount f c xs)"

lemma count_buckets_eq: "count_buckets f xs counts b = counts b + bcount f b xs"
  by (induction xs arbitrary: counts) (auto simp: bcount_def)

lemma prefix_buckets_eq:
  "distinct js \<Longrightarrow> prefix_buckets js tot counts b =
     (if b \<in> set js then tot + sum_list (map counts (takeWhile (\<lambda>j. j \<noteq> b) js)) else counts b)"
proof (induction js arbitrary: tot counts)
  case (Cons i js)
  have m: "map (counts(i := tot)) (takeWhile (\<lambda>j. j \<noteq> b) js) = map counts (takeWhile (\<lambda>j. j \<noteq> b) js)"
    using Cons.prems by (auto dest: set_takeWhileD)
  show ?case
    using Cons by (auto simp: Let_def m simp del: map_eq_conv)
qed simp

lemma takeWhile_upt: "b < K \<Longrightarrow> takeWhile (\<lambda>j. j \<noteq> b) [0..<K] = [0..<b]"
proof -
  assume b: "b < K"
  then have "[0..<K] = [0..<b] @ b # [Suc b..<K]"
    by (metis le0 less_imp_le_nat upt_add_eq_append upt_conv_Cons le_add_diff_inverse)
  moreover have "takeWhile (\<lambda>j. j \<noteq> b) ([0..<b] @ b # [Suc b..<K]) = [0..<b]"
    by (subst takeWhile_append2) auto
  ultimately show ?thesis by simp
qed

lemma prefix_count:
  assumes "b < kBuckets"
  shows "prefix_buckets [0..<kBuckets] 0 (count_buckets f xs (\<lambda>_. 0)) b = bstart f b xs"
proof -
  have "sum_list (map (count_buckets f xs (\<lambda>_. 0)) [0..<b]) = bstart f b xs"
    by (simp add: bstart_def count_buckets_eq interv_sum_list_conv_sum_set_nat atLeast0LessThan)
  then show ?thesis using assms by (simp add: prefix_buckets_eq takeWhile_upt)
qed

lemma length_by_bucket: "length (by_bucket f b xs) = bstart f b xs"
  by (induction b) (simp_all add: by_bucket_Suc bstart_def bcount_def, simp add: by_bucket_def)

lemma by_bucket_prefix: "b \<le> K \<Longrightarrow> \<exists>zs. by_bucket f K xs = by_bucket f b xs @ zs"
  by (induction K) (auto simp: by_bucket_Suc le_Suc_eq)

lemma by_bucket_nth:
  assumes "b < K" "j < bcount f b xs"
  shows "bstart f b xs + j < length (by_bucket f K xs)"
    and "by_bucket f K xs ! (bstart f b xs + j) = filter (\<lambda>x. f x = b) xs ! j"
proof -
  obtain zs where "by_bucket f K xs = by_bucket f (Suc b) xs @ zs"
    using by_bucket_prefix[of "Suc b" K f xs] assms by auto
  then have e: "by_bucket f K xs = by_bucket f b xs @ filter (\<lambda>x. f x = b) xs @ zs"
    by (simp add: by_bucket_Suc)
  show "bstart f b xs + j < length (by_bucket f K xs)"
    using assms(2) by (simp add: e length_by_bucket bcount_def)
  show "by_bucket f K xs ! (bstart f b xs + j) = filter (\<lambda>x. f x = b) xs ! j"
    using assms(2) by (simp add: e length_by_bucket nth_append bcount_def)
qed

text \<open>Scattering the rest of the input, when the prefix \<open>ps\<close> is placed, moves every cursor to
  the next cell of its bucket; cells of \<open>by_bucket\<close> are only ever written with their value.\<close>

lemma scatter_fills:
  assumes "\<forall>x\<in>set (ps @ xs). f x < K" "length dst = length (by_bucket f K (ps @ xs))"
    and "\<And>b. b < K \<Longrightarrow> counts b = bstart f b (ps @ xs) + bcount f b ps"
    and "\<And>b j. b < K \<Longrightarrow> j < bcount f b ps \<Longrightarrow>
           dst ! (bstart f b (ps @ xs) + j) = filter (\<lambda>x. f x = b) (ps @ xs) ! j"
  shows "length (scatter f xs dst counts) = length dst \<and>
         (\<forall>b j. b < K \<longrightarrow> j < bcount f b (ps @ xs) \<longrightarrow>
           scatter f xs dst counts ! (bstart f b (ps @ xs) + j) = filter (\<lambda>x. f x = b) (ps @ xs) ! j)"
  using assms
proof (induction xs arbitrary: ps dst counts)
  case (Cons x xs)
  let ?all = "ps @ x # xs"
  have fx: "f x < K" using Cons.prems(1) by auto
  have cx: "counts (f x) = bstart f (f x) ?all + bcount f (f x) ps" using Cons.prems(3)[OF fx] .
  have lt: "bcount f (f x) ps < bcount f (f x) ?all" by (simp add: bcount_def)
  have inr: "counts (f x) < length dst"
    using by_bucket_nth(1)[OF fx lt] cx Cons.prems(2) by simp
  have val: "x = filter (\<lambda>y. f y = f x) ?all ! bcount f (f x) ps" by (simp add: bcount_def nth_append)
  have other: "bstart f b ?all + j \<noteq> counts (f x)" if "b < K" "j < bcount f b ps" for b j
  proof (cases b "f x" rule: linorder_cases)
    case less
    have "bstart f b ?all + bcount f b ?all \<le> bstart f (f x) ?all"
    proof -
      have "bstart f (Suc b) ?all \<le> bstart f (f x) ?all"
        unfolding bstart_def using less by (intro sum_mono2) auto
      then show ?thesis by (simp add: bstart_def)
    qed
    moreover have "bcount f b ps \<le> bcount f b ?all" by (simp add: bcount_def)
    ultimately show ?thesis using that cx by linarith
  next
    case equal
    then show ?thesis using that cx by simp
  next
    case greater
    have "bstart f (Suc (f x)) ?all \<le> bstart f b ?all"
      unfolding bstart_def using greater by (intro sum_mono2) auto
    then have "bstart f (f x) ?all + bcount f (f x) ?all \<le> bstart f b ?all" by (simp add: bstart_def)
    then show ?thesis using cx lt by linarith
  qed
  have "length (scatter f xs (dst[counts (f x) := x]) (counts(f x := counts (f x) + 1))) = length (dst[counts (f x) := x]) \<and>
    (\<forall>b j. b < K \<longrightarrow> j < bcount f b ((ps @ [x]) @ xs) \<longrightarrow>
       scatter f xs (dst[counts (f x) := x]) (counts(f x := counts (f x) + 1)) ! (bstart f b ((ps @ [x]) @ xs) + j)
         = filter (\<lambda>y. f y = b) ((ps @ [x]) @ xs) ! j)"
  proof (rule Cons.IH)
    show "\<forall>y\<in>set ((ps @ [x]) @ xs). f y < K" "length (dst[counts (f x) := x]) = length (by_bucket f K ((ps @ [x]) @ xs))"
      using Cons.prems(1,2) by auto
    show "(counts(f x := counts (f x) + 1)) b = bstart f b ((ps @ [x]) @ xs) + bcount f b (ps @ [x])" if "b < K" for b
      using Cons.prems(3)[OF that] cx by (simp add: bcount_def)
    show "dst[counts (f x) := x] ! (bstart f b ((ps @ [x]) @ xs) + j) = filter (\<lambda>y. f y = b) ((ps @ [x]) @ xs) ! j"
      if b: "b < K" and j: "j < bcount f b (ps @ [x])" for b j
    proof (cases "j < bcount f b ps")
      case True
      then show ?thesis using Cons.prems(4)[OF b True] other[OF b True] by simp
    next
      case False
      then have "b = f x" "j = bcount f (f x) ps" using j by (auto simp: bcount_def split: if_splits)
      then show ?thesis using cx inr val by simp
    qed
  qed
  then show ?case by simp
qed simp

lemma by_bucket_index:
  "i < length (by_bucket f K xs) \<Longrightarrow> \<exists>b j. b < K \<and> j < bcount f b xs \<and> i = bstart f b xs + j"
proof (induction K)
  case (Suc K)
  show ?case
  proof (cases "i < length (by_bucket f K xs)")
    case True
    then show ?thesis using Suc.IH by (auto intro: less_SucI)
  next
    case False
    then have "i - bstart f K xs < bcount f K xs" "i = bstart f K xs + (i - bstart f K xs)"
      using Suc.prems by (auto simp: by_bucket_Suc length_by_bucket bcount_def)
    then show ?thesis by blast
  qed
qed (simp add: by_bucket_def)

lemma bucket_of_less: "bucket_of s k < kBuckets"
  by (simp add: bucket_of_def kBuckets_def)

lemma length_by_bucket_all: "\<forall>x\<in>set xs. f x < K \<Longrightarrow> length (by_bucket f K xs) = length xs"
  by (simp add: by_bucket_sort_key)

lemma radix_pass_sort:
  assumes f: "\<And>x. f x < kBuckets" and len: "length dst = length src"
  shows "radix_pass f src dst = sort_key f src"
proof -
  define counts where "counts = prefix_buckets [0..<kBuckets] 0 (count_buckets f src (\<lambda>_. 0))"
  let ?r = "scatter f src dst counts" and ?c = "by_bucket f kBuckets src"
  have lc: "length ?c = length src" using f by (simp add: length_by_bucket_all)
  have "length ?r = length dst \<and> (\<forall>b j. b < kBuckets \<longrightarrow> j < bcount f b ([] @ src) \<longrightarrow>
      ?r ! (bstart f b ([] @ src) + j) = filter (\<lambda>x. f x = b) ([] @ src) ! j)"
    by (rule scatter_fills) (use f len lc in \<open>simp_all add: counts_def prefix_count bcount_def\<close>)
  then have r: "length ?r = length src" "\<And>b j. b < kBuckets \<Longrightarrow> j < bcount f b src \<Longrightarrow>
      ?r ! (bstart f b src + j) = filter (\<lambda>x. f x = b) src ! j"
    using len by auto
  have "?r = ?c"
  proof (rule nth_equalityI)
    fix i assume "i < length ?r"
    then obtain b j where "b < kBuckets" "j < bcount f b src" "i = bstart f b src + j"
      using by_bucket_index[of i f kBuckets src] r(1) lc by auto
    then show "?r ! i = ?c ! i" using r(2)[of b j] by_bucket_nth(2)[of b kBuckets j f src] by simp
  qed (simp add: r(1) lc)
  then show ?thesis
    using f by (simp add: radix_pass_def counts_def Let_def by_bucket_sort_key)
qed

subsection \<open>Least-significant-digit composition\<close>

lemma sort_key_two_digits:
  assumes h: "\<And>x. h x = f x * M + g x" and g: "\<And>x. g x < (M::nat)"
  shows "sort_key f (sort_key g xs) = sort_key h xs"
proof (rule sorted_filter_eq[of h])
  let ?r = "sort_key f (sort_key g xs)"
  have "sorted_wrt (\<lambda>x y. h x \<le> h y) ?r"
  proof -
    have "h (?r ! i) \<le> h (?r ! j)" if ij: "i < j" "j < length ?r" for i j
    proof -
      have fle: "f (?r ! i) \<le> f (?r ! j)"
        using sorted_nth_mono[of "map f ?r" i j] ij by simp
      show ?thesis
      proof (cases "f (?r ! i) = f (?r ! j)")
        case False
        then have "f (?r ! i) * M + M \<le> f (?r ! j) * M"
          using fle by (metis Suc_leI le_neq_implies_less mult_Suc mult_le_mono1 add.commute)
        then show ?thesis using g[of "?r ! i"] by (simp add: h)
      next
        case True
        let ?P = "\<lambda>y. f y = f (?r ! j)"
        have "filter ?P ?r = filter ?P (sort_key g xs)" by (simp add: sort_key_stable)
        then have srt: "sorted (map g (filter ?P ?r))" by (simp add: sorted_filter)
        have "\<exists>i' j'. i' < j' \<and> j' < length (filter ?P ?r) \<and> filter ?P ?r ! i' = ?r ! i \<and> filter ?P ?r ! j' = ?r ! j"
        proof -
          have split: "?r = take j ?r @ ?r ! j # drop (Suc j) ?r"
            using ij by (simp add: id_take_nth_drop)
          have "?r ! i \<in> set (take j ?r)" using ij by (metis in_set_conv_nth length_take min.absorb4 nth_take)
          then have "?r ! i \<in> set (filter ?P (take j ?r))" using True by simp
          then obtain i' where i': "i' < length (filter ?P (take j ?r))" "filter ?P (take j ?r) ! i' = ?r ! i"
            unfolding in_set_conv_nth by blast
          have fs: "filter ?P ?r = filter ?P (take j ?r) @ ?r ! j # filter ?P (drop (Suc j) ?r)"
            using split by (metis (mono_tags, lifting) filter.simps(2) filter_append)
          show ?thesis
            by (intro exI[of _ i'] exI[of _ "length (filter ?P (take j ?r))"]) (use i' in \<open>simp add: fs nth_append\<close>)
        qed
        then obtain i' j' where ij': "i' < j'" "j' < length (filter ?P ?r)"
          "filter ?P ?r ! i' = ?r ! i" "filter ?P ?r ! j' = ?r ! j" by blast
        have "map g (filter ?P ?r) ! i' \<le> map g (filter ?P ?r) ! j'"
          using sorted_nth_mono[OF srt, of i' j'] ij'(1,2) by simp
        then have "g (?r ! i) \<le> g (?r ! j)"
          using ij' by (simp del: filter_sort)
        then show ?thesis using True by (simp add: h)
      qed
    qed
    then show ?thesis by (simp add: sorted_wrt_iff_nth_less)
  qed
  then show "sorted (map h ?r)" by (simp add: sorted_map)
  show "filter (\<lambda>x. h x = k) ?r = filter (\<lambda>x. h x = k) (sort_key h xs)" for k
  proof -
    have hk: "h x = k \<longleftrightarrow> f x = k div M \<and> g x = k mod M" for x
    proof
      assume "h x = k"
      then show "f x = k div M \<and> g x = k mod M" using g[of x] by (auto simp: h)
    qed (simp add: h)
    have "filter (\<lambda>x. h x = k) ?r = filter (\<lambda>x. g x = k mod M) (filter (\<lambda>x. f x = k div M) ?r)"
      by (simp add: hk conj_commute)
    also have "\<dots> = filter (\<lambda>x. g x = k mod M) (filter (\<lambda>x. f x = k div M) (sort_key g xs))"
      by (simp only: sort_key_stable[of f "k div M"])
    also have "\<dots> = filter (\<lambda>x. f x = k div M) (filter (\<lambda>x. g x = k mod M) (sort_key g xs))"
      by (simp add: conj_commute)
    also have "\<dots> = filter (\<lambda>x. f x = k div M) (filter (\<lambda>x. g x = k mod M) xs)"
      by (simp only: sort_key_stable[of g "k mod M"])
    also have "\<dots> = filter (\<lambda>x. h x = k) xs"
      by (simp add: hk conj_commute)
    finally show ?thesis by (simp add: sort_key_stable)
  qed
qed (rule sorted_sort_key)

lemma key_four_digits:
  assumes "k < 2 ^ 64"
  shows "k = bucket_of 48 k * 2 ^ 48 + (bucket_of 32 k * 2 ^ 32 + (bucket_of 16 k * 2 ^ 16 + bucket_of 0 k))"
proof -
  let ?B = "65536 :: nat"
  have d: "k div 2 ^ 32 = k div ?B div ?B" "k div 2 ^ 48 = k div ?B div ?B div ?B"
    by (simp_all add: div_mult2_eq[symmetric])
  have top: "k div ?B div ?B div ?B < ?B" using assms by (simp add: div_mult2_eq[symmetric] less_mult_imp_div_less)
  have e: "n = n div ?B * ?B + n mod ?B" for n by simp
  define q1 q2 q3 where "q1 = k div ?B" and "q2 = q1 div ?B" and "q3 = q2 div ?B"
  have "k = q1 * ?B + k mod ?B" "q1 = q2 * ?B + q1 mod ?B" "q2 = q3 * ?B + q2 mod ?B"
    using e[of k] e[of q1] e[of q2] unfolding q1_def q2_def q3_def by blast+
  then have "k = q3 * 281474976710656 + (q2 mod ?B * 4294967296 + (q1 mod ?B * 65536 + k mod ?B))"
    by linarith
  then show ?thesis
    using top d by (simp add: bucket_of_def kBuckets_def q1_def q2_def q3_def)
qed

lemma sort_key_agree:
  assumes "\<forall>x\<in>set xs. f x = (g x :: nat)"
  shows "sort_key f xs = sort_key g xs"
proof (rule sorted_filter_eq[of g])
  have "map g (sort_key f xs) = map f (sort_key f xs)" using assms by (intro map_cong) auto
  then show "sorted (map g (sort_key f xs))" by (metis sorted_sort_key)
  show "filter (\<lambda>x. g x = k) (sort_key f xs) = filter (\<lambda>x. g x = k) (sort_key g xs)" for k
  proof -
    have "filter (\<lambda>x. g x = k) (sort_key f xs) = filter (\<lambda>x. f x = k) (sort_key f xs)"
      using assms by (intro filter_cong) auto
    also have "\<dots> = filter (\<lambda>x. f x = k) xs" by (rule sort_key_stable)
    also have "\<dots> = filter (\<lambda>x. g x = k) xs" using assms by (intro filter_cong) auto
    finally show ?thesis by (simp only: sort_key_stable[of g])
  qed
qed (rule sorted_sort_key)

lemma radix_passes_sort:
  assumes "\<forall>x\<in>set arr. key x < 2 ^ 64" "length tmp = length arr"
  shows "fst (radix_passes key [0, 1, 2, 3] arr tmp) = sort_key key arr"
proof -
  let ?d = "\<lambda>s x. bucket_of s (key x)"
  have p: "radix_pass (?d s) src dst = sort_key (?d s) src" if "length dst = length src" for s src dst
    by (rule radix_pass_sort) (simp_all add: bucket_of_less that)
  have b: "bucket_of s k < 65536" for s k using bucket_of_less[of s k] by (simp add: kBuckets_def)
  have "fst (radix_passes key [0, 1, 2, 3] arr tmp) =
      sort_key (?d 48) (sort_key (?d 32) (sort_key (?d 16) (sort_key (?d 0) arr)))"
    using assms(2) by (simp add: p)
  also have "sort_key (?d 16) (sort_key (?d 0) arr) = sort_key (\<lambda>x. ?d 16 x * 2 ^ 16 + ?d 0 x) arr"
    by (rule sort_key_two_digits[where M = "2 ^ 16"]) (use b in simp_all)
  also have "sort_key (?d 32) (sort_key (\<lambda>x. ?d 16 x * 2 ^ 16 + ?d 0 x) arr) =
      sort_key (\<lambda>x. ?d 32 x * 2 ^ 32 + (?d 16 x * 2 ^ 16 + ?d 0 x)) arr"
  proof (rule sort_key_two_digits[where M = "2 ^ 32"])
    show "?d 16 x * 2 ^ 16 + ?d 0 x < 2 ^ 32" for x using b[of 16 "key x"] b[of 0 "key x"] by simp
  qed simp
  also have "sort_key (?d 48) (sort_key (\<lambda>x. ?d 32 x * 2 ^ 32 + (?d 16 x * 2 ^ 16 + ?d 0 x)) arr) =
      sort_key (\<lambda>x. ?d 48 x * 2 ^ 48 + (?d 32 x * 2 ^ 32 + (?d 16 x * 2 ^ 16 + ?d 0 x))) arr"
  proof (rule sort_key_two_digits[where M = "2 ^ 48"])
    show "?d 32 x * 2 ^ 32 + (?d 16 x * 2 ^ 16 + ?d 0 x) < 2 ^ 48" for x
      using b[of 32 "key x"] b[of 16 "key x"] b[of 0 "key x"] by simp
  qed simp
  also have "\<dots> = sort_key key arr"
    using assms(1) key_four_digits by (intro sort_key_agree) (metis (no_types, lifting))
  finally show ?thesis .
qed

subsection \<open>Insertion sort\<close>

lemma set_insert_back [simp]: "set (insert_back key x ys) = insert x (set ys)"
  by (induction ys) auto

lemma sorted_insert_back:
  "sorted (map key (rev ys)) \<Longrightarrow> sorted (map key (rev (insert_back key x ys)))"
  by (induction ys) (auto simp: sorted_append not_less)

lemma filter_insert_back:
  "sorted (map key (rev ys)) \<Longrightarrow>
   filter (\<lambda>y. key y = k) (rev (insert_back key x ys)) =
   filter (\<lambda>y. key y = k) (rev ys) @ (if key x = k then [x] else [])"
  by (induction ys) (auto simp: sorted_append)

lemma insertion_run:
  "sorted (map key (rev acc)) \<Longrightarrow>
   sorted (map key (rev (foldl (\<lambda>acc x. insert_back key x acc) acc xs))) \<and>
   filter (\<lambda>y. key y = k) (rev (foldl (\<lambda>acc x. insert_back key x acc) acc xs)) =
   filter (\<lambda>y. key y = k) (rev acc) @ filter (\<lambda>y. key y = k) xs"
proof (induction xs arbitrary: acc)
  case (Cons x xs)
  show ?case
    using Cons.IH[OF sorted_insert_back[OF Cons.prems, of x]] filter_insert_back[OF Cons.prems, of k x] by auto
qed simp

lemma insertion_sort_spec:
  "sort_by_client_seq key xs = sort_key key xs"
proof (rule sorted_filter_eq[of key])
  show "sorted (map key (sort_by_client_seq key xs))"
    using insertion_run[of key "[]" xs] by (simp add: sort_by_client_seq_def)
  show "filter (\<lambda>x. key x = k) (sort_by_client_seq key xs) = filter (\<lambda>x. key x = k) (sort_key key xs)" for k
    using insertion_run[of key "[]" xs k] unfolding sort_key_stable by (simp add: sort_by_client_seq_def)
qed (rule sorted_sort_key)

subsection \<open>Properties\<close>

lemma sort_by_client_id_spec:
  assumes "\<forall>x\<in>set arr. key x < 2 ^ 64"
    and "\<forall>xs. mset (stdsort xs) = mset xs \<and> sorted (map key (stdsort xs))"
  shows "mset (sort_by_client_id stdsort key tmp arr) = mset arr \<and>
         sorted (map key (sort_by_client_id stdsort key tmp arr)) \<and>
         (kRadixThreshold \<le> length arr \<longrightarrow> sort_by_client_id stdsort key tmp arr = sort_key key arr)"
proof -
  have "length (take (length arr) (tmp @ arr)) = length arr" by simp
  from radix_passes_sort[OF assms(1) this]
  have radix: "fst (radix_passes key [0, 1, 2, 3] arr (take (length arr) (tmp @ arr))) = sort_key key arr" by simp
  have short: "sorted (map key arr) \<and> \<not> kRadixThreshold \<le> length arr" if "length arr \<le> 1"
    using that by (cases arr; cases "tl arr") (auto simp: kRadixThreshold_def)
  show ?thesis
    using assms(2) radix short by (simp add: sort_by_client_id_def)
qed

text \<open>C27: on every input size \<open>sort_by_client_id\<close> permutes the batches into ascending client id
  order, provided \<open>std::sort\<close> does, and on the inputs that take the radix branch it is the stable
  sort by the 64-bit client id, which keeps the arrival order of each client's batches.
  \<open>sort_by_client_seq\<close> is the stable sort by its key on every input.\<close>

theorem radix_sort_stable:
  assumes "\<forall>x\<in>set arr. key x < 2 ^ 64"
    and "\<forall>xs. mset (stdsort xs) = mset xs \<and> sorted (map key (stdsort xs))"
  shows "mset (sort_by_client_id stdsort key tmp arr) = mset arr \<and>
         sorted (map key (sort_by_client_id stdsort key tmp arr)) \<and>
         (kRadixThreshold \<le> length arr \<longrightarrow> sort_by_client_id stdsort key tmp arr = sort_key key arr) \<and>
         sort_by_client_seq key arr = sort_key key arr"
  using sort_by_client_id_spec[OF assms, of tmp] insertion_sort_spec[of key arr] by blast

lemma radix_sort_stable_witness:
  "sort_by_client_id (sort_key fst) fst [] (map (\<lambda>i. (i mod 3, i)) [0..<5000]) =
     sort_key fst (map (\<lambda>i. (i mod 3, i)) [0..<5000])"
proof -
  have "\<forall>x\<in>set (map (\<lambda>i. (i mod 3, i)) [0..<5000]). fst x < 2 ^ 64"
    by (auto intro: order.strict_trans[OF mod_less_divisor])
  moreover have "\<forall>xs. mset (sort_key fst xs) = mset xs \<and> sorted (map fst (sort_key fst (xs :: (nat \<times> nat) list)))" by simp
  ultimately show ?thesis
    using radix_sort_stable[of "map (\<lambda>i. (i mod 3, i)) [0..<5000]" fst "sort_key fst" "[]"]
    by (simp only: length_map length_upt kRadixThreshold_def) simp
qed

end
