(* ===== verification/Level5State.thy ===== *)
theory Level5State
  imports ClientState Dedup RadixSort
begin

unbundle bit_operations_syntax

text \<open>
  The state the ORDER=5 sequencer works on: ring slots (\<open>BatchHeader\<close>, GOI and completion
  vector entries of \<open>cxl_manager/cxl_datastructure.h\<close>), pending and held batches and the shard
  state of \<open>embarlet/topic.h\<close>, and the part of \<open>Topic\<close> that classification and commit read
  and write.  A \<open>BatchHeader*\<close> is an address (\<open>nat option\<close>, \<open>None\<close> the null pointer) into the
  header memory \<open>tp_headers\<close>.  Hash maps and hash sets are ordered maps iterated in key
  order.  \<open>SteadyNowNs\<close> reads the next value of the clock \<open>tp_now\<close>.
\<close>

definition NUM_MAX_BROKERS :: int where "NUM_MAX_BROKERS = 32"

definition valid_broker :: "int \<Rightarrow> bool" where
  "valid_broker b \<longleftrightarrow> 0 \<le> b \<and> b < NUM_MAX_BROKERS"

definition broker_ids :: "int list" where
  "broker_ids = map int [0..<nat NUM_MAX_BROKERS]"

lemma broker_ids_distinct: "distinct broker_ids"
  by (simp add: broker_ids_def distinct_map inj_on_def)

lemma set_broker_ids: "b \<in> set broker_ids \<longleftrightarrow> valid_broker b"
proof
  assume "valid_broker b"
  then have "b = int (nat b)" "nat b < nat NUM_MAX_BROKERS" by (auto simp: valid_broker_def NUM_MAX_BROKERS_def)
  then show "b \<in> set broker_ids" unfolding broker_ids_def by (metis atLeastLessThan_iff image_eqI le0 list.set_map set_upt)
qed (auto simp: broker_ids_def valid_broker_def NUM_MAX_BROKERS_def)

definition SIZE_MAX :: nat where "SIZE_MAX = UINT64_MAX"

definition sizeof_BatchHeader :: nat where "sizeof_BatchHeader = 128"

definition kBatchHeaderFlagClaimed :: "32 word" where "kBatchHeaderFlagClaimed = 1"
definition kBatchHeaderFlagValid :: "32 word" where "kBatchHeaderFlagValid = 2"
definition kBatchHeaderFlagRetired :: "32 word" where "kBatchHeaderFlagRetired = 4"
definition kBatchHeaderPublishUncommitted :: nat where "kBatchHeaderPublishUncommitted = UINT64_MAX"

record BatchHeader =
  bh_batch_seq :: nat
  bh_original_client_batch_seq :: nat
  bh_client_id :: nat
  bh_num_msg :: nat
  bh_batch_complete :: nat
  bh_broker_id :: nat
  bh_ordered :: nat
  bh_flags :: "32 word"
  bh_epoch_created :: nat
  bh_session_epoch :: nat
  bh_session_epoch32 :: nat
  bh_batch_id :: nat
  bh_pbr_absolute_index :: nat
  bh_total_size :: nat
  bh_start_logical_offset :: nat
  bh_log_idx :: nat
  bh_total_order :: nat
  bh_batch_off_to_export :: nat
  bh_publish_commit :: nat

definition BatchHeader_zero :: BatchHeader where
  "BatchHeader_zero = \<lparr>bh_batch_seq = 0, bh_original_client_batch_seq = 0, bh_client_id = 0, bh_num_msg = 0,
     bh_batch_complete = 0, bh_broker_id = 0, bh_ordered = 0, bh_flags = 0, bh_epoch_created = 0,
     bh_session_epoch = 0, bh_session_epoch32 = 0, bh_batch_id = 0, bh_pbr_absolute_index = 0,
     bh_total_size = 0, bh_start_logical_offset = 0, bh_log_idx = 0, bh_total_order = 0,
     bh_batch_off_to_export = 0, bh_publish_commit = 0\<rparr>"

definition BatchHeaderPublishCommitted :: "BatchHeader \<Rightarrow> bool" where
  "BatchHeaderPublishCommitted h \<longleftrightarrow>
     bh_publish_commit h \<noteq> kBatchHeaderPublishUncommitted \<and> bh_publish_commit h = bh_pbr_absolute_index h"

definition BatchHeaderClaimOwnedBy :: "BatchHeader \<Rightarrow> BatchHeader \<Rightarrow> bool" where
  "BatchHeaderClaimOwnedBy slot expected \<longleftrightarrow>
     bh_pbr_absolute_index slot = bh_pbr_absolute_index expected \<and>
     bh_batch_id slot = bh_batch_id expected \<and>
     bh_flags slot AND (kBatchHeaderFlagClaimed OR kBatchHeaderFlagValid OR kBatchHeaderFlagRetired)
       = kBatchHeaderFlagClaimed \<and>
     bh_publish_commit slot = kBatchHeaderPublishUncommitted \<and> bh_batch_complete slot = 0"

definition ClearOrder5PublishState :: "BatchHeader \<Rightarrow> BatchHeader" where
  "ClearOrder5PublishState h =
     h\<lparr>bh_publish_commit := kBatchHeaderPublishUncommitted, bh_batch_complete := 0,
       bh_flags := kBatchHeaderFlagRetired\<rparr>"

record HoldBatchMetadata =
  hm_log_idx :: nat
  hm_total_size :: nat
  hm_batch_id :: nat
  hm_batch_seq :: nat
  hm_session_epoch :: nat
  hm_pbr_absolute_index :: nat
  hm_client_id :: nat
  hm_epoch_created :: nat
  hm_broker_id :: int
  hm_num_msg :: nat
  hm_start_logical_offset :: nat
  hm_slot_offset :: nat

definition HoldBatchMetadata_init :: HoldBatchMetadata where
  "HoldBatchMetadata_init = \<lparr>hm_log_idx = 0, hm_total_size = 0, hm_batch_id = 0, hm_batch_seq = 0,
     hm_session_epoch = 0, hm_pbr_absolute_index = 0, hm_client_id = 0, hm_epoch_created = 0,
     hm_broker_id = 0, hm_num_msg = 0, hm_start_logical_offset = 0, hm_slot_offset = 0\<rparr>"

record PendingBatch5 =
  pb_hdr :: "nat option"
  pb_broker_id :: int
  pb_num_msg :: nat
  pb_client_id :: nat
  pb_batch_seq :: nat
  pb_session_epoch :: nat
  pb_slot_offset :: nat
  pb_epoch_created :: nat
  pb_skipped :: bool
  pb_is_held_marker :: bool
  pb_from_hold :: bool
  pb_hold_meta :: HoldBatchMetadata
  pb_cached_log_idx :: nat
  pb_cached_total_size :: nat
  pb_cached_batch_id :: nat
  pb_cached_pbr_absolute_index :: nat
  pb_cached_start_logical_offset :: nat

definition PendingBatch5_init :: PendingBatch5 where
  "PendingBatch5_init = \<lparr>pb_hdr = None, pb_broker_id = 0, pb_num_msg = 0, pb_client_id = 0,
     pb_batch_seq = 0, pb_session_epoch = 0, pb_slot_offset = 0, pb_epoch_created = 0,
     pb_skipped = False, pb_is_held_marker = False, pb_from_hold = False,
     pb_hold_meta = HoldBatchMetadata_init, pb_cached_log_idx = 0, pb_cached_total_size = 0,
     pb_cached_batch_id = 0, pb_cached_pbr_absolute_index = 0, pb_cached_start_logical_offset = 0\<rparr>"

record HoldEntry5 =
  he_batch :: PendingBatch5
  he_meta :: HoldBatchMetadata
  he_hold_start_ns :: nat

record ClientPressureStats =
  cp_hold_inserts :: nat
  cp_expiries :: nat
  cp_forced_skips :: nat
  cp_late_drops :: nat
  cp_max_held_depth :: nat

definition ClientPressureStats_init :: ClientPressureStats where
  "ClientPressureStats_init = \<lparr>cp_hold_inserts = 0, cp_expiries = 0, cp_forced_skips = 0,
     cp_late_drops = 0, cp_max_held_depth = 0\<rparr>"

text \<open>The synchronisation fields of \<open>Level5ShardState\<close> (mutex, condition variable, work flags)
  have no counterpart: a shard is processed by one thread at a time.\<close>

record Level5ShardState =
  sh_client_state :: "(64 word, OptimizedClientState) omap"
  sh_emitted :: "(64 word, ClientEmitTracker) omap"
  sh_hold :: "(64 word, (nat, HoldEntry5) omap) omap"
  sh_hold_size :: nat
  sh_held_keys :: "(64 word, unit) omap"
  sh_pressure :: "(nat, ClientPressureStats) omap"
  sh_expired_keys :: "(64 word \<times> nat) list"
  sh_deferred :: "PendingBatch5 list"
  sh_dedup :: FastDeduplicator
  sh_cv_logical_cum :: "(int, nat) omap"
  sh_cv_logical_pbr :: "(int, nat) omap"
  sh_backpressured :: "Order5SlotIdentity list"

definition Level5ShardState_init :: Level5ShardState where
  "Level5ShardState_init = \<lparr>sh_client_state = [], sh_emitted = [], sh_hold = [], sh_hold_size = 0,
     sh_held_keys = [], sh_pressure = [], sh_expired_keys = [], sh_deferred = [], sh_dedup = Dedup_init,
     sh_cv_logical_cum = [], sh_cv_logical_pbr = [], sh_backpressured = []\<rparr>"

definition kHoldBufferMaxEntries :: nat where "kHoldBufferMaxEntries = 100000"
definition kClientTtlEpochs :: nat where "kClientTtlEpochs = 1000000"
definition kClientGcEpochInterval :: nat where "kClientGcEpochInterval = 1024"
definition kDeferredL5MaxEntries :: nat where "kDeferredL5MaxEntries = kHoldBufferMaxEntries * 2"

record SessionFenceNotification =
  sf_client_id :: nat
  sf_session_epoch :: nat
  sf_committed_batch_seq :: nat
  sf_has_committed_prefix :: bool
  sf_committed_msg_hwm :: nat
  sf_control_epoch :: nat
  sf_reason :: int

record GOIEntry =
  ge_global_seq :: nat
  ge_batch_id :: nat
  ge_total_order :: nat
  ge_broker_id :: nat
  ge_epoch_sequenced :: nat
  ge_blog_offset :: nat
  ge_payload_size :: nat
  ge_message_count :: nat
  ge_num_replicated :: nat
  ge_client_id :: nat
  ge_client_seq :: nat
  ge_pbr_index :: nat
  ge_cumulative_message_count :: nat
  ge_session_epoch :: nat

record CompletionVectorEntry =
  cv_completed_pbr_head :: nat
  cv_sequencer_logical_offset :: nat
  cv_completed_logical_offset :: nat

text \<open>The sequencer's fields of one broker's \<open>offset_entry\<close>.\<close>

record offset_entry =
  oe_batch_headers_offset :: nat
  oe_ordered :: nat
  oe_ordered_offset :: nat
  oe_consumed_through :: nat

record Topic =
  tp_order :: int
  tp_replication_factor :: int
  tp_session_lease_ns :: nat
  tp_bypass_session_fifo :: bool
  tp_BATCHHEADERS_SIZE :: nat
  tp_now :: "nat \<Rightarrow> nat"
  tp_ticks :: nat
  tp_capacity_exhausted :: bool
  tp_stop_threads :: bool
  tp_recovery_complete :: bool
  tp_recovered_next_expected :: "(64 word, nat) omap"
  tp_recovered_msg_counts :: "(nat, nat) omap"
  tp_recovered_global_seq :: nat
  tp_session_table :: "SessionTable option"
  tp_headers :: "nat \<Rightarrow> BatchHeader"
  tp_offsets :: "int \<Rightarrow> offset_entry"
  tp_cv :: "int \<Rightarrow> CompletionVectorEntry"
  tp_goi :: "nat \<Rightarrow> GOIEntry"
  tp_committed_seq :: nat
  tp_global_batch_seq :: nat
  tp_global_seq :: nat
  tp_export_cursor :: "int \<Rightarrow> nat option"
  tp_export_sequence :: "int \<Rightarrow> nat"
  tp_current_epoch_for_hold :: nat
  tp_total_hold_size :: nat
  tp_force_expire_hold_until_ns :: nat
  tp_force_expire_rearm_cooldown_until_ns :: nat
  tp_cached_epoch :: nat
  tp_control_epoch :: nat
  tp_last_control_epoch_refresh_ns :: nat
  tp_per_client_ordered :: "(nat, nat) omap"
  tp_per_client_ordered_epoch :: "(nat, nat) omap"
  tp_pending_session_fences :: "(nat, SessionFenceNotification) omap"
  tp_fifo_violations :: nat
  tp_hold_timeout_skips :: nat
  tp_spatial_guard_rejects :: nat
  tp_ack_order_violations :: nat
  tp_completed_ranges :: "(nat \<times> nat) list"

definition SteadyNowNs :: "Topic \<Rightarrow> nat \<times> Topic" where
  "SteadyNowNs t = (tp_now t (tp_ticks t), t\<lparr>tp_ticks := tp_ticks t + 1\<rparr>)"

text \<open>\<open>map[key]\<close> of the C++ containers: the bound value, or a default one.\<close>

definition om_get :: "'v \<Rightarrow> ('k, 'v) omap \<Rightarrow> 'k \<Rightarrow> 'v" where
  "om_get d m k = (case om_find m k of None \<Rightarrow> d | Some v \<Rightarrow> v)"

lemma om_get_put [simp]: "om_get d (om_put k v m) k' = (if k' = k then v else om_get d m k')"
  by (simp add: om_get_def)

lemma om_get_erase [simp]: "om_get d (om_erase k m) k' = (if k' = k then d else om_get d m k')"
  by (simp add: om_get_def)

definition om_add :: "'k::linorder \<Rightarrow> nat \<Rightarrow> ('k, nat) omap \<Rightarrow> ('k, nat) omap" where
  "om_add k n m = om_put k (u64 (om_get 0 m k + n)) m"

lemma om_get_add [simp]: "om_get 0 (om_add k n m) k' = (if k' = k then u64 (om_get 0 m k + n) else om_get 0 m k')"
  by (simp add: om_add_def)

lemma om_get_Cons: "om_get 0 ((k, v) # m) c = (if c = k then v else om_get 0 m c)"
  by (simp add: om_get_def)

lemma om_get_absent: "k \<notin> om_keys m \<Longrightarrow> om_get d m k = d"
  by (simp add: om_get_def om_find_None_iff[THEN iffD2])

lemma fold_om_add:
  fixes d m :: "('k::linorder, nat) omap"
  assumes "om_ok d" "\<forall>c. om_get 0 m c + om_get 0 d c \<le> UINT64_MAX"
  shows "om_get 0 (fold (\<lambda>(c, n). om_add c n) d m) c = om_get 0 m c + om_get 0 d c"
  using assms
proof (induction d arbitrary: m)
  case Nil
  then show ?case by (simp add: om_get_def)
next
  case (Cons p d)
  obtain k v where p: "p = (k, v)" by (cases p)
  have k0: "om_get 0 d k = 0" using Cons.prems(1) p by (intro om_get_absent) auto
  have "om_get 0 m k + v \<le> UINT64_MAX" using Cons.prems(2)[rule_format, of k] p by (simp add: om_get_Cons)
  then have g: "om_get 0 (om_add k v m) x = om_get 0 m x + (if x = k then v else 0)" for x by simp
  have "\<forall>c. om_get 0 (om_add k v m) c + om_get 0 d c \<le> UINT64_MAX"
    using Cons.prems(2) k0 p unfolding g by (auto simp: om_get_Cons split: if_splits)
  from Cons.IH[OF _ this] Cons.prems(1) p k0 show ?case unfolding g by (simp add: om_get_Cons)
qed

lemma om_ok_add [simp]: "om_ok m \<Longrightarrow> om_ok (om_add k n m)"
  by (simp add: om_add_def)

definition UsesTrueClientChainOrdering :: "int \<Rightarrow> bool" where
  "UsesTrueClientChainOrdering order = (order = 5)"

definition StopForCapacityExhaustion :: "Topic \<Rightarrow> Topic" where
  "StopForCapacityExhaustion t = t\<lparr>tp_capacity_exhausted := True, tp_stop_threads := True\<rparr>"

text \<open>The cached control epoch is refreshed from the control block at most once per millisecond.\<close>

definition CurrentControlEpoch :: "Topic \<Rightarrow> nat \<times> Topic" where
  "CurrentControlEpoch t =
     (case SteadyNowNs t of (now_ns, t1) \<Rightarrow>
        if tp_cached_epoch t1 \<noteq> 0 \<and> sub64 now_ns (tp_last_control_epoch_refresh_ns t1) < 1000000
        then (tp_cached_epoch t1, t1)
        else (tp_control_epoch t1,
              t1\<lparr>tp_last_control_epoch_refresh_ns := now_ns, tp_cached_epoch := tp_control_epoch t1\<rparr>))"

definition GetClientOrdered :: "Topic \<Rightarrow> nat \<Rightarrow> nat" where
  "GetClientOrdered t cid = (case om_find (tp_per_client_ordered t) cid of Some v \<Rightarrow> v | None \<Rightarrow> 0)"

definition PublishSessionFenceNotification :: "SessionFenceNotification \<Rightarrow> Topic \<Rightarrow> Topic" where
  "PublishSessionFenceNotification note t =
     t\<lparr>tp_pending_session_fences := om_put (sf_client_id note) note (tp_pending_session_fences t)\<rparr>"

definition TakeSessionFenceNotification :: "nat \<Rightarrow> Topic \<Rightarrow> SessionFenceNotification option \<times> Topic" where
  "TakeSessionFenceNotification cid t =
     (case om_find (tp_pending_session_fences t) cid of
        None \<Rightarrow> (None, t)
      | Some note \<Rightarrow> (Some note, t\<lparr>tp_pending_session_fences := om_erase cid (tp_pending_session_fences t)\<rparr>))"

text \<open>The invalidation of a slot whose batch has left the ring (\<open>InvalidateOrder5HeldSlot\<close>).\<close>

definition InvalidateOrder5HeldSlot :: "nat option \<Rightarrow> Topic \<Rightarrow> Topic" where
  "InvalidateOrder5HeldSlot hdr t =
     (case hdr of None \<Rightarrow> t
      | Some a \<Rightarrow> t\<lparr>tp_headers := (tp_headers t)(a := ClearOrder5PublishState (tp_headers t a))\<rparr>)"

definition RetireOrder5HeldSlotAndAdvance :: "nat option \<Rightarrow> int \<Rightarrow> nat \<Rightarrow> Topic \<Rightarrow> Topic" where
  "RetireOrder5HeldSlotAndAdvance hdr b slot_offset t =
     (if tp_capacity_exhausted t then t
      else let t1 = InvalidateOrder5HeldSlot hdr t; size = tp_BATCHHEADERS_SIZE t
           in if \<not> valid_broker b then t1
              else if slot_offset \<ge> size \<or> slot_offset mod sizeof_BatchHeader \<noteq> 0 then t1
              else let consumed = oe_consumed_through (tp_offsets t1 b);
                       consumed = (if consumed = size then 0 else consumed)
                   in if consumed = slot_offset
                      then let nxt = slot_offset + sizeof_BatchHeader;
                               nxt = (if nxt \<ge> size then size else nxt)
                           in t1\<lparr>tp_offsets := (tp_offsets t1)(b := (tp_offsets t1 b)\<lparr>oe_consumed_through := nxt\<rparr>)\<rparr>
                      else t1)"

end
