(* ===== verification/Level5Classify.thy ===== *)
theory Level5Classify
  imports Level5State "HOL-Library.Product_Lexorder"
begin

text \<open>
  Classification of one pending batch: the lambdas of \<open>Topic::ProcessLevel5BatchesShard\<close>
  (\<open>embarlet/topic_order5_sessions.cc\<close>), from pressure statistics to \<open>classify_one\<close>.  The
  context \<open>L5\<close> holds what the lambdas capture by reference: the shard, the topic, the
  output vector \<open>ready\<close> and the per-client ACK credit of the call.  Log lines and the trace
  recorder are left out.
\<close>

record L5 =
  lx_sh :: Level5ShardState
  lx_tp :: Topic
  lx_ready :: "PendingBatch5 list"
  lx_delta :: "(nat, nat) omap"

definition upd_sh :: "(Level5ShardState \<Rightarrow> Level5ShardState) \<Rightarrow> L5 \<Rightarrow> L5" where
  "upd_sh f c = c\<lparr>lx_sh := f (lx_sh c)\<rparr>"

definition upd_tp :: "(Topic \<Rightarrow> Topic) \<Rightarrow> L5 \<Rightarrow> L5" where
  "upd_tp f c = c\<lparr>lx_tp := f (lx_tp c)\<rparr>"

definition push_ready :: "PendingBatch5 \<Rightarrow> L5 \<Rightarrow> L5" where
  "push_ready p c = c\<lparr>lx_ready := lx_ready c @ [p]\<rparr>"

definition true_client_chain :: "L5 \<Rightarrow> bool" where
  "true_client_chain c = UsesTrueClientChainOrdering (tp_order (lx_tp c))"

definition get_state :: "64 word \<Rightarrow> L5 \<Rightarrow> OptimizedClientState" where
  "get_state k c = om_get ClientState_init (sh_client_state (lx_sh c)) k"

definition put_state :: "64 word \<Rightarrow> OptimizedClientState \<Rightarrow> L5 \<Rightarrow> L5" where
  "put_state k st = upd_sh (\<lambda>sh. sh\<lparr>sh_client_state := om_put k st (sh_client_state sh)\<rparr>)"

definition get_emitted :: "64 word \<Rightarrow> L5 \<Rightarrow> ClientEmitTracker" where
  "get_emitted k c = om_get EmitTracker_init (sh_emitted (lx_sh c)) k"

definition put_emitted :: "64 word \<Rightarrow> ClientEmitTracker \<Rightarrow> L5 \<Rightarrow> L5" where
  "put_emitted k t = upd_sh (\<lambda>sh. sh\<lparr>sh_emitted := om_put k t (sh_emitted sh)\<rparr>)"

subsection \<open>Pressure statistics and ACK accumulation\<close>

definition upd_pressure :: "nat \<Rightarrow> (ClientPressureStats \<Rightarrow> ClientPressureStats) \<Rightarrow> L5 \<Rightarrow> L5" where
  "upd_pressure cid f c =
     (if \<not> true_client_chain c then c
      else upd_sh (\<lambda>sh. sh\<lparr>sh_pressure := om_put cid (f (om_get ClientPressureStats_init (sh_pressure sh) cid)) (sh_pressure sh)\<rparr>) c)"

definition record_hold_insert :: "nat \<Rightarrow> (nat, HoldEntry5) omap \<Rightarrow> L5 \<Rightarrow> L5" where
  "record_hold_insert cid hold_map =
     upd_pressure cid (\<lambda>s. s\<lparr>cp_hold_inserts := u64 (cp_hold_inserts s + 1),
                             cp_max_held_depth := max (cp_max_held_depth s) (length hold_map)\<rparr>)"

definition record_expiry :: "nat \<Rightarrow> L5 \<Rightarrow> L5" where
  "record_expiry cid = upd_pressure cid (\<lambda>s. s\<lparr>cp_expiries := u64 (cp_expiries s + 1)\<rparr>)"

definition record_forced_skip :: "nat \<Rightarrow> L5 \<Rightarrow> L5" where
  "record_forced_skip cid = upd_pressure cid (\<lambda>s. s\<lparr>cp_forced_skips := u64 (cp_forced_skips s + 1)\<rparr>)"

definition record_late_drop :: "nat \<Rightarrow> L5 \<Rightarrow> L5" where
  "record_late_drop cid = upd_pressure cid (\<lambda>s. s\<lparr>cp_late_drops := u64 (cp_late_drops s + 1)\<rparr>)"

definition accumulate_logical_only :: "int \<Rightarrow> nat \<Rightarrow> nat \<Rightarrow> nat \<Rightarrow> L5 \<Rightarrow> L5" where
  "accumulate_logical_only b start_logical_offset num_msg pbr_index c =
     (if \<not> true_client_chain c then c
      else if \<not> valid_broker b then c
      else let cumulative = u64 (start_logical_offset + num_msg);
               encoded = u64 (pbr_index + 1)
           in upd_sh (\<lambda>sh. sh\<lparr>sh_cv_logical_cum := om_put b (max (om_get 0 (sh_cv_logical_cum sh) b) cumulative) (sh_cv_logical_cum sh),
                              sh_cv_logical_pbr := om_put b (max (om_get 0 (sh_cv_logical_pbr sh) b) encoded) (sh_cv_logical_pbr sh)\<rparr>) c)"

definition CheckAndInsertBatchId :: "nat \<Rightarrow> L5 \<Rightarrow> bool \<times> L5" where
  "CheckAndInsertBatchId batch_id c =
     (case check_and_insert (sh_dedup (lx_sh c)) batch_id of
        (dup, d) \<Rightarrow> (dup, upd_sh (\<lambda>sh. sh\<lparr>sh_dedup := d\<rparr>) c))"

definition terminalize_already_emitted ::
  "nat \<Rightarrow> int \<Rightarrow> nat \<Rightarrow> nat \<Rightarrow> nat \<Rightarrow> nat \<Rightarrow> L5 \<Rightarrow> L5" where
  "terminalize_already_emitted cid b start_logical_offset num_msg batch_id pbr_index c =
     (if \<not> true_client_chain c then c
      else snd (CheckAndInsertBatchId batch_id
             (record_late_drop cid (accumulate_logical_only b start_logical_offset num_msg pbr_index c))))"

subsection \<open>Fencing a session\<close>

text \<open>Slots of a purged session are retired per broker in ring order from the consumed-through
  offset, as it stands when the purge starts.\<close>

definition retire_key :: "Topic \<Rightarrow> int \<times> nat \<times> nat option \<Rightarrow> int \<times> nat" where
  "retire_key t r =
     (case r of (b, slot, hdr) \<Rightarrow>
        if \<not> valid_broker b then (b, slot)
        else let size = tp_BATCHHEADERS_SIZE t;
                 start = oe_consumed_through (tp_offsets t b);
                 start = (if start = size then 0 else start)
             in (b, (slot + size - start) mod size))"

definition retire_list :: "Topic \<Rightarrow> (nat, HoldEntry5) omap \<Rightarrow> (int \<times> nat \<times> nat option) list" where
  "retire_list t held =
     sort_key (retire_key t)
       (map (\<lambda>(s, he). (hm_broker_id (he_meta he), hm_slot_offset (he_meta he), pb_hdr (he_batch he))) held)"

definition purge_fenced_session :: "64 word \<Rightarrow> L5 \<Rightarrow> L5" where
  "purge_fenced_session key c =
     (let c1 = (case om_find (sh_hold (lx_sh c)) key of
                  None \<Rightarrow> c
                | Some held \<Rightarrow>
                    let n = length held;
                        c' = upd_tp (fold (\<lambda>(b, slot, hdr). RetireOrder5HeldSlotAndAdvance hdr b slot)
                                       (retire_list (lx_tp c) held)) c
                    in upd_tp (\<lambda>t. t\<lparr>tp_total_hold_size := sub64 (tp_total_hold_size t) n\<rparr>)
                         (upd_sh (\<lambda>sh. sh\<lparr>sh_hold_size := sub64 (sh_hold_size sh) n,
                                          sh_hold := om_erase key (sh_hold sh)\<rparr>) c'))
      in upd_sh (\<lambda>sh. sh\<lparr>sh_held_keys := om_erase key (sh_held_keys sh),
                         sh_emitted := om_erase key (sh_emitted sh),
                         sh_deferred := filter (\<lambda>p. MakeSessionKey (pb_client_id p) (pb_session_epoch p) \<noteq> key)
                                          (sh_deferred sh)\<rparr>) c1)"

definition client_of_key :: "64 word \<Rightarrow> nat" where
  "client_of_key key = unat (drop_bit 32 key)"

text \<open>The notification and the disarming of the force-expire window, on the first fence.\<close>

definition notify_fence :: "64 word \<Rightarrow> OptimizedClientState \<Rightarrow> nat \<Rightarrow> Topic \<Rightarrow> Topic" where
  "notify_fence key st committed_expected t =
     (let cid = client_of_key key; msg_hwm = GetClientOrdered t cid;
          (control, t1) = CurrentControlEpoch t;
          note = \<lparr>sf_client_id = cid, sf_session_epoch = session_epoch st,
                  sf_committed_batch_seq = committed_hwm st,
                  sf_has_committed_prefix = (committed_expected > 0),
                  sf_committed_msg_hwm = msg_hwm, sf_control_epoch = control, sf_reason = 0\<rparr>;
          (now, t2) = SteadyNowNs (PublishSessionFenceNotification note t1)
      in t2\<lparr>tp_force_expire_hold_until_ns := 0,
            tp_force_expire_rearm_cooldown_until_ns := u64 (now + tp_session_lease_ns t2)\<rparr>)"

definition record_fence :: "64 word \<Rightarrow> L5 \<Rightarrow> L5" where
  "record_fence key c =
     (let st = get_state key c
      in if \<not> true_client_chain c then c
         else if \<not> CanFenceSessionEpoch (session_epoch st) then c
         else (case FindOrCreateSessionEntry (tp_session_table (lx_tp c)) key of
                 (Some i, Some tbl) \<Rightarrow>
                   let c1 = upd_tp (\<lambda>t. t\<lparr>tp_session_table := Some tbl\<rparr>) c;
                       committed_expected = se_expected_seq (tbl i);
                       first_fence = (\<not> fenced st);
                       st1 = (fence st)\<lparr>committed_hwm := se_committed_hwm (tbl i)\<rparr>;
                       c2 = put_state key st1 c1;
                       snap = \<lparr>sp_session_epoch = session_epoch st1, sp_expected_seq = committed_expected,
                               sp_committed_hwm = committed_hwm st1, sp_highest_sequenced = highest_sequenced st1,
                               sp_fenced = True\<rparr>
                   in (case PublishSessionEntry (Some tbl) key snap of
                         (False, tbl') \<Rightarrow> upd_tp (\<lambda>t. StopForCapacityExhaustion (t\<lparr>tp_session_table := tbl'\<rparr>)) c2
                       | (True, tbl') \<Rightarrow>
                           let c3 = upd_tp (\<lambda>t. t\<lparr>tp_session_table := tbl'\<rparr>) c2;
                               c4 = (if first_fence then upd_tp (notify_fence key st1 committed_expected) c3 else c3)
                           in purge_fenced_session key c4)
               | (_, table') \<Rightarrow> upd_tp (\<lambda>t. StopForCapacityExhaustion (t\<lparr>tp_session_table := table'\<rparr>)) c))"

subsection \<open>The classifier\<close>

definition hold_meta_of :: "PendingBatch5 \<Rightarrow> HoldBatchMetadata" where
  "hold_meta_of p =
     \<lparr>hm_log_idx = pb_cached_log_idx p, hm_total_size = pb_cached_total_size p,
      hm_batch_id = pb_cached_batch_id p, hm_batch_seq = pb_batch_seq p,
      hm_session_epoch = pb_session_epoch p, hm_pbr_absolute_index = pb_cached_pbr_absolute_index p,
      hm_client_id = pb_client_id p, hm_epoch_created = pb_epoch_created p,
      hm_broker_id = pb_broker_id p, hm_num_msg = pb_num_msg p,
      hm_start_logical_offset = pb_cached_start_logical_offset p, hm_slot_offset = pb_slot_offset p\<rparr>"

definition held_marker :: "PendingBatch5 \<Rightarrow> PendingBatch5" where
  "held_marker p = PendingBatch5_init\<lparr>pb_broker_id := pb_broker_id p, pb_slot_offset := pb_slot_offset p,
     pb_is_held_marker := True, pb_hdr := None, pb_num_msg := 0,
     pb_cached_pbr_absolute_index := pb_cached_pbr_absolute_index p\<rparr>"

text \<open>Sequence above the frontier: hold the batch, or defer it when the hold buffer is full,
  or report back-pressure for its slot when the deferred list is full as well.\<close>

definition classify_ahead :: "64 word \<Rightarrow> bool \<Rightarrow> PendingBatch5 \<Rightarrow> L5 \<Rightarrow> L5" where
  "classify_ahead key tcc p c =
     (let seq = pb_batch_seq p;
          c1 = (if tcc then (case SteadyNowNs (lx_tp c) of
                  (now, t) \<Rightarrow> put_state key (note_gap (get_state key c) now) (upd_tp (\<lambda>_. t) c))
                else c)
      in if sh_hold_size (lx_sh c1) \<ge> kHoldBufferMaxEntries then
           if length (sh_deferred (lx_sh c1)) < kDeferredL5MaxEntries
           then upd_sh (\<lambda>sh. sh\<lparr>sh_deferred := sh_deferred sh @ [p]\<rparr>) c1
           else let blocked = \<lparr>os_broker_id = pb_broker_id p, os_slot_offset = pb_slot_offset p,
                               os_pbr_index = pb_cached_pbr_absolute_index p\<rparr>
                in if list_ex (\<lambda>s. Order5SlotMatches s (os_broker_id blocked) (os_slot_offset blocked) (os_pbr_index blocked))
                        (sh_backpressured (lx_sh c1))
                   then c1
                   else upd_sh (\<lambda>sh. sh\<lparr>sh_backpressured := sh_backpressured sh @ [blocked]\<rparr>) c1
         else let stream_map = om_get [] (sh_hold (lx_sh c1)) key;
                  c2 = upd_sh (\<lambda>sh. sh\<lparr>sh_hold := om_put key stream_map (sh_hold sh)\<rparr>) c1
              in if om_find stream_map seq \<noteq> None then c2
                 else case SteadyNowNs (lx_tp c2) of (now, t) \<Rightarrow>
                   let he = \<lparr>he_batch = p, he_meta = hold_meta_of p, he_hold_start_ns = now\<rparr>;
                       stream_map' = om_put seq he stream_map;
                       c3 = upd_sh (\<lambda>sh. sh\<lparr>sh_hold := om_put key stream_map' (sh_hold sh)\<rparr>) (upd_tp (\<lambda>_. t) c2);
                       c4 = (if tcc then record_hold_insert (pb_client_id p) stream_map' c3 else c3);
                       c5 = upd_sh (\<lambda>sh. sh\<lparr>sh_hold_size := u64 (sh_hold_size sh + 1),
                                            sh_held_keys := om_put key () (sh_held_keys sh)\<rparr>) c4;
                       c6 = upd_tp (\<lambda>t. t\<lparr>tp_total_hold_size := u64 (tp_total_hold_size t + 1)\<rparr>) c5
                   in push_ready (held_marker p) c6)"

definition count_fifo_violation :: "L5 \<Rightarrow> L5" where
  "count_fifo_violation = upd_tp (\<lambda>t. t\<lparr>tp_fifo_violations := u64 (tp_fifo_violations t + 1)\<rparr>)"

definition terminalize_pending :: "PendingBatch5 \<Rightarrow> L5 \<Rightarrow> L5" where
  "terminalize_pending p =
     terminalize_already_emitted (pb_client_id p) (pb_broker_id p) (pb_cached_start_logical_offset p)
       (pb_num_msg p) (pb_cached_batch_id p) (pb_cached_pbr_absolute_index p)"

text \<open>Emit \<open>p\<close> unless its batch id was seen: the tail shared by the in-order branch and the
  ablation branch.\<close>

definition emit_if_new :: "64 word \<Rightarrow> PendingBatch5 \<Rightarrow> L5 \<Rightarrow> L5" where
  "emit_if_new key p c =
     (case CheckAndInsertBatchId (pb_cached_batch_id p) c of
        (dup, c1) \<Rightarrow> if dup then c1
                     else push_ready p (put_emitted key (MarkEmitted (get_emitted key c1) (pb_batch_seq p)) c1))"

definition classify_one :: "64 word \<Rightarrow> bool \<Rightarrow> PendingBatch5 \<Rightarrow> L5 \<Rightarrow> L5" where
  "classify_one key tcc p c =
     (let seq = pb_batch_seq p; state = get_state key c; emitted = get_emitted key c;
          bump = (\<lambda>st. if seq \<ge> next_expected st then set_next_expected st (u64 (seq + 1)) else st)
      in if tcc \<and> fenced state then
           record_late_drop (pb_client_id p)
             (accumulate_logical_only (pb_broker_id p) (pb_cached_start_logical_offset p) (pb_num_msg p)
                (pb_cached_pbr_absolute_index p) c)
         else if is_duplicate state seq \<and> IsEmitted emitted seq then terminalize_pending p c
         else if IsEmitted emitted seq then
           (let c1 = put_state key (bump (mark_sequenced state seq)) c
            in if tcc then terminalize_pending p c1
               else case CheckAndInsertBatchId (pb_cached_batch_id p) c1 of
                 (dup, c2) \<Rightarrow> if dup then c2
                   else count_fifo_violation (put_emitted key (MarkEmitted (get_emitted key c2) seq) (push_ready p c2)))
         else if tp_bypass_session_fifo (lx_tp c) then
           emit_if_new key p (put_state key (bump (mark_sequenced state seq)) c)
         else if seq = next_expected state then
           emit_if_new key p (put_state key (advance_next_expected (mark_sequenced state seq)) c)
         else if seq < next_expected state then
           (case CheckAndInsertBatchId (pb_cached_batch_id p) (put_state key (mark_sequenced state seq) c) of
              (dup, c1) \<Rightarrow>
                if dup then c1
                else if tcc then
                  (let c2 = record_late_drop (pb_client_id p)
                              (accumulate_logical_only (pb_broker_id p) (pb_cached_start_logical_offset p)
                                 (pb_num_msg p) (pb_cached_pbr_absolute_index p) c1);
                       cid = u32 (pb_client_id p)
                   in c2\<lparr>lx_delta := om_put cid (u64 (om_get 0 (lx_delta c2) cid + pb_num_msg p)) (lx_delta c2)\<rparr>)
                else put_emitted key (MarkEmitted (get_emitted key c1) seq) (push_ready p (count_fifo_violation c1)))
         else classify_ahead key tcc p c)"

end
