(* ===== verification/Level5Shard.thy ===== *)
theory Level5Shard
  imports Level5Classify
begin

unbundle bit_operations_syntax

text \<open>
  One pass of the ORDER=5 classifier over a shard: \<open>Topic::ProcessLevel5BatchesShard\<close> and
  \<open>Topic::ProcessLevel5Batches\<close> (\<open>embarlet/topic_order5_sessions.cc\<close>), with the seeding of a
  session's frontier from the recovered and the durable state
  (\<open>ReconstructClientStateFromSessionEntry\<close>, \<open>embarlet/topic_order5_recovery.cc\<close>).
  Shards of one call are processed in index order; the sort calls of the
  classifier, whose order of equal keys C++ leaves open, keep the input order of equal keys.  The fault-injection hooks are compiled out.
\<close>

subsection \<open>Seeding a session frontier\<close>

definition ApplyRecoveredSequencer5State :: "Topic \<Rightarrow> 64 word \<Rightarrow> OptimizedClientState \<Rightarrow> OptimizedClientState" where
  "ApplyRecoveredSequencer5State t key st =
     (if \<not> tp_recovery_complete t then st
      else case om_find (tp_recovered_next_expected t) key of
             None \<Rightarrow> st
           | Some n \<Rightarrow>
               let st1 = (if n > next_expected st then set_next_expected st n else st)
               in if n > 0 then st1\<lparr>committed_hwm := max (committed_hwm st1) (n - 1)\<rparr> else st1)"

definition merge_durable_entry :: "SessionEntry \<Rightarrow> OptimizedClientState \<Rightarrow> OptimizedClientState" where
  "merge_durable_entry e st =
     (let st1 = st\<lparr>session_epoch := max (session_epoch st) (unat (drop_bit 32 (se_state_word e)))\<rparr>;
          st2 = (if se_expected_seq e > next_expected st1
                 then set_next_expected st1 (se_expected_seq e) else st1);
          st3 = st2\<lparr>committed_hwm := max (committed_hwm st2) (se_committed_hwm e),
                    highest_sequenced := max (highest_sequenced st2) (se_highest_sequenced e)\<rparr>
      in if se_state_word e AND 0xFFFFFFFF AND kSessionEntryFlagFenced \<noteq> 0 then st3\<lparr>fenced := True\<rparr> else st3)"

definition ReconstructClientStateFromSessionEntry ::
  "Topic \<Rightarrow> 64 word \<Rightarrow> OptimizedClientState \<Rightarrow> OptimizedClientState" where
  "ReconstructClientStateFromSessionEntry t key st0 =
     (let st = ApplyRecoveredSequencer5State t key st0
      in case session_lookup (tp_session_table t) key of
           None \<Rightarrow> st
         | Some e \<Rightarrow>
             if se_state_word e AND 0xFFFFFFFF AND kSessionEntryFlagActive = 0 then st
             else ApplyRecoveredSequencer5State t key (merge_durable_entry e st))"

text \<open>The preparation every stream gets before its batches are classified: stream key \<open>key\<close>,
  session key \<open>skey\<close> (the same for true client chains).\<close>

definition prepared_state :: "64 word \<Rightarrow> 64 word \<Rightarrow> nat \<Rightarrow> L5 \<Rightarrow> OptimizedClientState" where
  "prepared_state key skey epoch c =
     (let em = get_emitted key c;
          st = (get_state key c)\<lparr>session_epoch := epoch, last_epoch := tp_current_epoch_for_hold (lx_tp c)\<rparr>;
          st = ReconstructClientStateFromSessionEntry (lx_tp c) skey st;
          st = (if next_expected st = 0 \<and> contiguous_max em \<noteq> UINT64_MAX
                then (set_next_expected st (u64 (contiguous_max em + 1)))\<lparr>highest_sequenced := contiguous_max em\<rparr>
                else st)
      in if next_expected st = 0 \<and> highest_sequenced st = 0 \<and> contiguous_max em = UINT64_MAX
         then set_next_expected st 0 else st)"

definition prepare_stream :: "64 word \<Rightarrow> 64 word \<Rightarrow> nat \<Rightarrow> L5 \<Rightarrow> L5" where
  "prepare_stream key skey epoch c =
     put_emitted key (get_emitted key c) (put_state key (prepared_state key skey epoch c) c)"

subsection \<open>Skip markers\<close>

definition process_skip :: "PendingBatch5 \<Rightarrow> L5 \<Rightarrow> L5" where
  "process_skip p c =
     (if pb_client_id p = SIZE_MAX then push_ready p c
      else let key = MakeSessionKey (pb_client_id p) (pb_session_epoch p);
               st = (get_state key c)\<lparr>session_epoch := pb_session_epoch p,
                                       last_epoch := tp_current_epoch_for_hold (lx_tp c)\<rparr>;
               st = ReconstructClientStateFromSessionEntry (lx_tp c) key st;
               c1 = put_state key st c
           in push_ready p
             (if true_client_chain c \<and> CanFenceSessionEpoch (session_epoch st)
              then record_forced_skip (pb_client_id p) (record_fence key c1)
              else let st1 = mark_sequenced st (pb_batch_seq p)
                   in if pb_batch_seq p \<ge> next_expected st1
                      then record_forced_skip (pb_client_id p)
                             (put_state key (set_next_expected st1 (u64 (pb_batch_seq p + 1))) c1)
                      else put_state key st1 c1))"

subsection \<open>Grouping\<close>

function group_runs :: "('a \<Rightarrow> 'b) \<Rightarrow> 'a list \<Rightarrow> 'a list list" where
  "group_runs f [] = []"
| "group_runs f (x # xs) =
     (x # takeWhile (\<lambda>y. f y = f x) xs) # group_runs f (dropWhile (\<lambda>y. f y = f x) xs)"
  by pat_completeness auto
termination
  by (relation "measure (\<lambda>(f, xs). length xs)") (auto simp: le_imp_less_Suc length_dropWhile_le)

definition session_of :: "PendingBatch5 \<Rightarrow> nat \<times> nat" where
  "session_of p = (pb_client_id p, pb_session_epoch p)"

text \<open>Classify one run of batches of a stream.\<close>

definition classify_stream :: "64 word \<Rightarrow> 64 word \<Rightarrow> nat \<Rightarrow> PendingBatch5 list \<Rightarrow> L5 \<Rightarrow> L5" where
  "classify_stream key skey epoch ps c =
     (let tcc = true_client_chain c in fold (classify_one key tcc) ps (prepare_stream key skey epoch c))"

text \<open>A group of the general path: one session of a true client chain, or the per-broker streams
  of a legacy session.\<close>

definition classify_group :: "PendingBatch5 list \<Rightarrow> L5 \<Rightarrow> L5" where
  "classify_group g c =
     (if g = [] then c
      else let cid = pb_client_id (hd g); ep = pb_session_epoch (hd g)
           in if true_client_chain c
              then classify_stream (MakeSessionKey cid ep) (MakeSessionKey cid ep) ep g c
              else fold (\<lambda>s. classify_stream
                           (MakeClientBrokerStreamKey cid (pb_session_epoch (hd s)) (pb_broker_id (hd s)))
                           (MakeSessionKey cid (pb_session_epoch (hd s))) (pb_session_epoch (hd s)) s)
                     (group_runs (\<lambda>p. (pb_broker_id p, pb_session_epoch p))
                        (sort_key (\<lambda>p. (pb_broker_id p, pb_session_epoch p, pb_batch_seq p)) g)) c)"

text \<open>The fast path: all batches of one session and nothing held or deferred.  Legacy streams
  are collected per stream key.\<close>

definition fast_path_applies :: "PendingBatch5 list \<Rightarrow> L5 \<Rightarrow> bool" where
  "fast_path_applies level5 c \<longleftrightarrow>
     sh_hold_size (lx_sh c) = 0 \<and> sh_deferred (lx_sh c) = [] \<and> level5 \<noteq> [] \<and>
     list_all (\<lambda>p. session_of p = session_of (hd level5)) level5"

fun collect_streams :: "nat \<Rightarrow> PendingBatch5 list \<Rightarrow> (64 word, PendingBatch5 list) omap
    \<Rightarrow> (64 word, PendingBatch5 list) omap" where
  "collect_streams cid [] m = m"
| "collect_streams cid (p # ps) m =
     (let k = MakeClientBrokerStreamKey cid (pb_session_epoch p) (pb_broker_id p)
      in collect_streams cid ps (om_put k (om_get [] m k @ [p]) m))"

definition fast_path :: "PendingBatch5 list \<Rightarrow> L5 \<Rightarrow> L5" where
  "fast_path level5 c =
     (let cid = pb_client_id (hd level5); ep = pb_session_epoch (hd level5)
      in if true_client_chain c
         then classify_stream (MakeSessionKey cid ep) (MakeSessionKey cid ep) ep (sort_key pb_batch_seq level5) c
         else fold (\<lambda>(key, vec). classify_stream key (MakeSessionKey cid (pb_session_epoch (hd vec)))
                      (pb_session_epoch (hd vec)) (sort_key pb_batch_seq vec))
                (collect_streams cid level5 []) c)"

definition general_path :: "PendingBatch5 list \<Rightarrow> L5 \<Rightarrow> L5" where
  "general_path level5 c =
     (let sorted_l5 = (if true_client_chain c
                       then sort_key (\<lambda>p. (pb_client_id p, pb_session_epoch p, pb_batch_seq p)) level5
                       else sort_by_client_id (sort_key pb_client_id) pb_client_id [] level5)
      in fold classify_group (group_runs session_of sorted_l5) c)"

subsection \<open>Draining the hold buffer\<close>

definition held_emission :: "HoldEntry5 \<Rightarrow> PendingBatch5" where
  "held_emission he = (he_batch he)\<lparr>pb_from_hold := True, pb_hold_meta := he_meta he\<rparr>"

definition terminalize_held :: "HoldEntry5 \<Rightarrow> L5 \<Rightarrow> L5" where
  "terminalize_held he =
     (let m = he_meta he in terminalize_already_emitted (hm_client_id m) (hm_broker_id m)
        (hm_start_logical_offset m) (hm_num_msg m) (hm_batch_id m) (hm_pbr_absolute_index m))"

definition retire_held :: "HoldEntry5 \<Rightarrow> L5 \<Rightarrow> L5" where
  "retire_held he =
     upd_tp (RetireOrder5HeldSlotAndAdvance (pb_hdr (he_batch he)) (hm_broker_id (he_meta he)) (hm_slot_offset (he_meta he)))"

definition drop_hold_count :: "L5 \<Rightarrow> L5" where
  "drop_hold_count c =
     upd_tp (\<lambda>t. t\<lparr>tp_total_hold_size := sub64 (tp_total_hold_size t) 1\<rparr>)
       (upd_sh (\<lambda>sh. sh\<lparr>sh_hold_size := sub64 (sh_hold_size sh) 1\<rparr>) c)"

text \<open>The body of the drain loop for one held entry; \<open>second\<close> selects the second drain, which
  always terminalizes an entry that was already emitted.\<close>

definition drain_entry :: "bool \<Rightarrow> 64 word \<Rightarrow> HoldEntry5 \<Rightarrow> L5 \<Rightarrow> L5" where
  "drain_entry second key he c =
     (let seq = pb_batch_seq (he_batch he); st = get_state key c;
          c1 = put_state key (advance_next_expected (mark_sequenced st seq)) c
      in if IsEmitted (get_emitted key c) seq then
           drop_hold_count
             (if second \<or> true_client_chain c then retire_held he (terminalize_held he c1)
              else case CheckAndInsertBatchId (hm_batch_id (he_meta he)) c1 of
                (dup, c2) \<Rightarrow> if dup then retire_held he c2
                  else count_fifo_violation (put_emitted key (MarkEmitted (get_emitted key c2) seq)
                         (push_ready (held_emission he) c2)))
         else drop_hold_count
             (case CheckAndInsertBatchId (hm_batch_id (he_meta he)) c1 of
                (dup, c2) \<Rightarrow> if dup then c2
                  else push_ready (held_emission he) (put_emitted key (MarkEmitted (get_emitted key c2) seq) c2)))"

function drain_loop :: "bool \<Rightarrow> 64 word \<Rightarrow> (nat, HoldEntry5) omap \<Rightarrow> L5 \<Rightarrow> (nat, HoldEntry5) omap \<times> L5" where
  "drain_loop second key cmap c =
     (case om_find cmap (next_expected (get_state key c)) of
        None \<Rightarrow> (cmap, c)
      | Some he \<Rightarrow> drain_loop second key (om_erase (next_expected (get_state key c)) cmap) (drain_entry second key he c))"
  by pat_completeness auto
termination
  by (relation "measure (\<lambda>(s, k, cmap, c). length cmap)") (auto simp: length_om_erase_less)

declare drain_loop.simps [simp del]

definition drain_key :: "bool \<Rightarrow> 64 word \<Rightarrow> L5 \<Rightarrow> L5" where
  "drain_key second key c =
     (case om_find (sh_hold (lx_sh c)) key of
        None \<Rightarrow> upd_sh (\<lambda>sh. sh\<lparr>sh_held_keys := om_erase key (sh_held_keys sh)\<rparr>) c
      | Some cmap0 \<Rightarrow>
          let c1 = put_emitted key (get_emitted key c)
                     (put_state key ((get_state key c)\<lparr>last_epoch := tp_current_epoch_for_hold (lx_tp c)\<rparr>) c)
          in case drain_loop second key cmap0 c1 of
               (cmap, c2) \<Rightarrow>
                 if cmap = []
                 then upd_sh (\<lambda>sh. sh\<lparr>sh_hold := om_erase key (sh_hold sh), sh_held_keys := om_erase key (sh_held_keys sh)\<rparr>) c2
                 else upd_sh (\<lambda>sh. sh\<lparr>sh_hold := om_put key cmap (sh_hold sh)\<rparr>) c2)"

definition drain_all :: "bool \<Rightarrow> L5 \<Rightarrow> L5" where
  "drain_all second c = fold (drain_key second) (map fst (sh_held_keys (lx_sh c))) c"

definition first_drain :: "L5 \<Rightarrow> L5" where
  "first_drain = drain_all False"

definition second_drain :: "L5 \<Rightarrow> L5" where
  "second_drain = drain_all True"

subsection \<open>Lease expiry\<close>

definition add_expired :: "64 word \<Rightarrow> nat \<Rightarrow> L5 \<Rightarrow> L5" where
  "add_expired key missing = upd_sh (\<lambda>sh. sh\<lparr>sh_expired_keys := sh_expired_keys sh @ [(key, missing)]\<rparr>)"

definition sweep_key :: "nat \<Rightarrow> nat \<Rightarrow> 64 word \<Rightarrow> L5 \<Rightarrow> L5" where
  "sweep_key now_ns lease_ns key c =
     (case om_find (sh_hold (lx_sh c)) key of
        None \<Rightarrow> c
      | Some cmap \<Rightarrow>
          if cmap = [] then c
          else let st = get_state key c; c1 = put_state key st c
               in if \<not> CanFenceSessionEpoch (session_epoch st) then c1
                  else if fenced st then add_expired key (next_expected st) c1
                  else if om_find cmap (next_expected st) \<noteq> None then put_state key (st\<lparr>gap_since_ns := 0\<rparr>) c1
                  else if ShouldClearSessionGapFromHeldMax (next_expected st) (fst (last cmap))
                  then put_state key (st\<lparr>gap_since_ns := 0\<rparr>) c1
                  else let st1 = note_gap st now_ns; c2 = put_state key st1 c1
                       in if ShouldFenceSessionGap st1 now_ns lease_ns then add_expired key (next_expected st1) c2 else c2)"

definition expire_key :: "64 word \<times> nat \<Rightarrow> L5 \<Rightarrow> L5" where
  "expire_key km c =
     (let key = fst km;
          c1 = put_state key ((get_state key c)\<lparr>last_epoch := tp_current_epoch_for_hold (lx_tp c)\<rparr>) c;
          c2 = upd_tp (\<lambda>t. t\<lparr>tp_hold_timeout_skips := u64 (tp_hold_timeout_skips t + 1)\<rparr>) c1
      in record_fence key (record_expiry (client_of_key key) c2))"

definition expiry_sweep :: "L5 \<Rightarrow> L5" where
  "expiry_sweep c0 =
     (case SteadyNowNs (lx_tp c0) of (now_ns, t) \<Rightarrow>
        let c = upd_sh (\<lambda>sh. sh\<lparr>sh_expired_keys := []\<rparr>) (upd_tp (\<lambda>_. t) c0);
            force = (now_ns < tp_force_expire_hold_until_ns t);
            lease = EffectiveOrder5SessionFenceLeaseNs (tp_session_lease_ns t) force;
            c1 = fold (sweep_key now_ns lease) (map fst (sh_held_keys (lx_sh c))) c
        in fold expire_key (sh_expired_keys (lx_sh c1)) c1)"

subsection \<open>ACK credit and garbage collection\<close>

definition credit_terminalized :: "L5 \<Rightarrow> L5" where
  "credit_terminalized c =
     upd_tp (\<lambda>t. fold (\<lambda>(cid, cnt) t.
                 t\<lparr>tp_per_client_ordered := om_put cid (u64 (om_get 0 (tp_per_client_ordered t) cid + cnt)) (tp_per_client_ordered t),
                   tp_per_client_ordered_epoch := om_put cid (tp_cached_epoch t) (tp_per_client_ordered_epoch t)\<rparr>)
               (lx_delta c) t) c"

definition gc_evictable :: "Level5ShardState \<Rightarrow> nat \<Rightarrow> 64 word \<times> OptimizedClientState \<Rightarrow> bool" where
  "gc_evictable sh epoch kv \<longleftrightarrow>
     om_get [] (sh_hold sh) (fst kv) = [] \<and> om_find (sh_held_keys sh) (fst kv) = None \<and>
     sh_deferred sh = [] \<and>
     epoch > last_epoch (snd kv) \<and> epoch - last_epoch (snd kv) > kClientTtlEpochs"

definition gc_evict :: "64 word \<Rightarrow> L5 \<Rightarrow> L5" where
  "gc_evict key c =
     (let n = (case om_find (sh_hold (lx_sh c)) key of None \<Rightarrow> 0 | Some held \<Rightarrow> length held)
      in upd_tp (\<lambda>t. t\<lparr>tp_total_hold_size := sub64 (tp_total_hold_size t) n\<rparr>)
           (upd_sh (\<lambda>sh. sh\<lparr>sh_hold_size := sub64 (sh_hold_size sh) n,
                            sh_hold := om_erase key (sh_hold sh),
                            sh_held_keys := om_erase key (sh_held_keys sh),
                            sh_client_state := om_erase key (sh_client_state sh),
                            sh_emitted := om_erase key (sh_emitted sh)\<rparr>) c))"

definition ClientGc :: "L5 \<Rightarrow> L5" where
  "ClientGc c =
     (let epoch = tp_current_epoch_for_hold (lx_tp c)
      in if epoch mod kClientGcEpochInterval \<noteq> 0 then c
         else fold gc_evict (map fst (filter (gc_evictable (lx_sh c) epoch) (sh_client_state (lx_sh c)))) c)"

subsection \<open>The shard pass\<close>

definition clear_backpressured :: "PendingBatch5 list \<Rightarrow> L5 \<Rightarrow> L5" where
  "clear_backpressured level5 =
     upd_sh (\<lambda>sh. sh\<lparr>sh_backpressured := filter (\<lambda>s. \<not> list_ex (\<lambda>p.
        Order5SlotMatches s (pb_broker_id p) (pb_slot_offset p) (pb_cached_pbr_absolute_index p)) level5)
        (sh_backpressured sh)\<rparr>)"

definition begin_shard_pass :: "PendingBatch5 list \<Rightarrow> L5 \<Rightarrow> PendingBatch5 list \<times> L5" where
  "begin_shard_pass level5 c =
     (let l5 = level5 @ sh_deferred (lx_sh c);
          c1 = upd_sh (\<lambda>sh. sh\<lparr>sh_deferred := []\<rparr>) c;
          c2 = clear_backpressured l5 c1
      in (l5, upd_sh (\<lambda>sh. sh\<lparr>sh_cv_logical_cum := [], sh_cv_logical_pbr := []\<rparr>) c2))"

definition ProcessLevel5BatchesShard ::
  "Level5ShardState \<Rightarrow> Topic \<Rightarrow> PendingBatch5 list \<Rightarrow> PendingBatch5 list \<Rightarrow> L5" where
  "ProcessLevel5BatchesShard sh t level5 ready =
     (let (l5, c) = begin_shard_pass level5 \<lparr>lx_sh = sh, lx_tp = t, lx_ready = ready, lx_delta = []\<rparr>;
          c1 = fold process_skip (filter pb_skipped l5) c;
          rest = filter (\<lambda>p. \<not> pb_skipped p) l5
      in if fast_path_applies rest c1 then ClientGc (fast_path rest c1)
         else let c2 = general_path rest c1;
                  c3 = first_drain c2;
                  c4 = expiry_sweep c3;
                  c5 = second_drain c4
              in if tp_capacity_exhausted (lx_tp c5) then c5
                 else ClientGc (credit_terminalized c5))"

text \<open>Several shards: batches are partitioned by \<open>client_id % num_shards\<close> and the ready batches of the
  shards are collected in shard order.  The workers run in parallel in the code; the model takes the schedule in which each
  shard finishes and is collected before the next one starts.  The shard that stops the topic for capacity
  has its \<open>stop\<close> flag set when the collecting loop reaches it, so the loop returns there and keeps what the shards before it gave.\<close>

fun process_shards :: "nat \<Rightarrow> nat \<Rightarrow> PendingBatch5 list \<Rightarrow> Level5ShardState list \<Rightarrow> Topic
    \<Rightarrow> Level5ShardState list \<times> Topic \<times> PendingBatch5 list" where
  "process_shards n i level5 [] t = ([], t, [])"
| "process_shards n i level5 (sh # shs) t =
     (let r = ProcessLevel5BatchesShard sh t (filter (\<lambda>p. pb_client_id p mod n = i) level5) [];
          (shs', t', ready') = process_shards n (i + 1) level5 shs (lx_tp r)
      in (lx_sh r # shs', t', if tp_capacity_exhausted (lx_tp r) then [] else lx_ready r @ ready'))"

text \<open>The call aborts (\<open>None\<close>) when the shards were not initialised or recovery has not completed.\<close>

definition ProcessLevel5Batches :: "Level5ShardState list \<Rightarrow> Topic \<Rightarrow> PendingBatch5 list \<Rightarrow> PendingBatch5 list
    \<Rightarrow> (Level5ShardState list \<times> Topic \<times> PendingBatch5 list) option" where
  "ProcessLevel5Batches shards t level5 ready =
     (if tp_capacity_exhausted t then Some (shards, t, ready)
      else if \<not> tp_recovery_complete t then None
      else case shards of
        [] \<Rightarrow> None
      | [sh] \<Rightarrow> (let r = ProcessLevel5BatchesShard sh t level5 ready in Some ([lx_sh r], lx_tp r, lx_ready r))
      | _ \<Rightarrow> (case process_shards (length shards) 0 level5 shards t of
                (shards', t', ready') \<Rightarrow> Some (shards', t', ready @ ready')))"

text \<open>\<open>EMBAR_LEVEL5_SHARDS\<close> (read with \<open>atoi\<close>) selects the number of shards, 32 at most; a second
  call returns at once.\<close>

definition InitLevel5Shards :: "int option \<Rightarrow> bool \<times> Level5ShardState list \<Rightarrow> bool \<times> Level5ShardState list" where
  "InitLevel5Shards env s =
     (if fst s then s
      else let shard_count = (case env of Some parsed \<Rightarrow> if parsed > 0 then nat parsed else 1 | None \<Rightarrow> 1);
               shard_count = (if shard_count > 32 then 32 else shard_count)
           in (True, replicate shard_count Level5ShardState_init))"

end
