(* ===== verification/Level5Fifo.thy ===== *)
theory Level5Fifo
  imports Level5Shard
begin

text \<open>
  Per-session ordering of the ORDER=5 classifier: every operation of a shard pass extends the
  output with batches of each session in strictly ascending sequence, above the session's
  frontier at entry and below its frontier at exit.  \<open>step_ok\<close> is closed under composition, so
  the pass is handled operation by operation.
\<close>

definition key_of :: "PendingBatch5 \<Rightarrow> 64 word" where
  "key_of p = MakeSessionKey (pb_client_id p) (pb_session_epoch p)"

definition is_emission :: "64 word \<Rightarrow> PendingBatch5 \<Rightarrow> bool" where
  "is_emission k p \<longleftrightarrow> \<not> pb_skipped p \<and> \<not> pb_is_held_marker p \<and> key_of p = k"

definition emits :: "64 word \<Rightarrow> PendingBatch5 list \<Rightarrow> nat list" where
  "emits k ps = map pb_batch_seq (filter (is_emission k) ps)"

definition good_batch :: "PendingBatch5 \<Rightarrow> bool" where
  "good_batch p \<longleftrightarrow> \<not> pb_skipped p \<and> \<not> pb_is_held_marker p \<and> pb_batch_seq p < UINT64_MAX"

definition held_ok :: "64 word \<Rightarrow> (nat, HoldEntry5) omap \<Rightarrow> bool" where
  "held_ok k cmap \<longleftrightarrow> (\<forall>(s, he)\<in>set cmap. pb_batch_seq (he_batch he) = s \<and> good_batch (he_batch he) \<and>
                          key_of (he_batch he) = k \<and> he_meta he = hold_meta_of (he_batch he))"

definition inv5 :: "L5 \<Rightarrow> bool" where
  "inv5 c \<longleftrightarrow> true_client_chain c \<and> \<not> tp_bypass_session_fifo (lx_tp c) \<and>
     (\<forall>k. tracker_ok (get_emitted k c)) \<and>
     (\<forall>k s. IsEmitted (get_emitted k c) s \<longrightarrow> s < next_expected (get_state k c)) \<and>
     (\<forall>k cmap. om_find (sh_hold (lx_sh c)) k = Some cmap \<longrightarrow> held_ok k cmap) \<and>
     list_all good_batch (sh_deferred (lx_sh c))"

definition frontier :: "64 word \<Rightarrow> L5 \<Rightarrow> nat" where
  "frontier k c = next_expected (get_state k c)"

definition adv :: "64 word \<Rightarrow> L5 \<Rightarrow> L5 \<Rightarrow> bool" where
  "adv k c c' \<longleftrightarrow> (\<exists>new. lx_ready c' = lx_ready c @ new \<and> sorted_wrt (<) (emits k new) \<and>
      (\<forall>s\<in>set (emits k new). frontier k c \<le> s \<and> s < frontier k c') \<and> frontier k c \<le> frontier k c')"

definition step_ok :: "L5 \<Rightarrow> L5 \<Rightarrow> bool" where
  "step_ok c c' \<longleftrightarrow> (inv5 c \<longrightarrow> inv5 c' \<and> (\<forall>k. adv k c c'))"

subsection \<open>Composition\<close>

lemma emits_Nil [simp]: "emits k [] = []"
  by (simp add: emits_def)

lemma emits_append [simp]: "emits k (xs @ ys) = emits k xs @ emits k ys"
  by (simp add: emits_def)

lemma adv_refl: "adv k c c"
  by (auto simp: adv_def intro: exI[of _ "[]"])

lemma adv_trans:
  assumes "adv k a b" "adv k b c"
  shows "adv k a c"
proof -
  obtain x where x: "lx_ready b = lx_ready a @ x" "sorted_wrt (<) (emits k x)"
      "\<forall>s\<in>set (emits k x). frontier k a \<le> s \<and> s < frontier k b" "frontier k a \<le> frontier k b"
    using assms(1) by (auto simp: adv_def)
  obtain y where y: "lx_ready c = lx_ready b @ y" "sorted_wrt (<) (emits k y)"
      "\<forall>s\<in>set (emits k y). frontier k b \<le> s \<and> s < frontier k c" "frontier k b \<le> frontier k c"
    using assms(2) by (auto simp: adv_def)
  have "lx_ready c = lx_ready a @ (x @ y)" using x y by simp
  moreover have "sorted_wrt (<) (emits k (x @ y))"
    using x y by (fastforce simp: sorted_wrt_append)
  moreover have "\<forall>s\<in>set (emits k (x @ y)). frontier k a \<le> s \<and> s < frontier k c"
    using x y by fastforce
  ultimately show ?thesis
    using x(4) y(4) unfolding adv_def by (intro exI[of _ "x @ y"]) auto
qed

lemma step_ok_refl [intro]: "step_ok c c"
  by (simp add: step_ok_def adv_refl)

lemma step_ok_trans: "step_ok a b \<Longrightarrow> step_ok b c \<Longrightarrow> step_ok a c"
  by (auto simp: step_ok_def intro: adv_trans)

lemma step_ok_fold:
  "(\<And>x c. x \<in> set xs \<Longrightarrow> step_ok c (f x c)) \<Longrightarrow> step_ok c (fold f xs c)"
proof (induction xs arbitrary: c)
  case (Cons x xs)
  have "step_ok c (f x c)" using Cons.prems by simp
  moreover have "step_ok (f x c) (fold f xs (f x c))" using Cons.prems by (intro Cons.IH) auto
  ultimately show ?case by (auto intro: step_ok_trans)
qed auto

subsection \<open>Accessors\<close>

lemma lx_upd [simp]:
  "lx_sh (upd_sh f c) = f (lx_sh c)" "lx_tp (upd_sh f c) = lx_tp c"
  "lx_ready (upd_sh f c) = lx_ready c" "lx_delta (upd_sh f c) = lx_delta c"
  "lx_sh (upd_tp g c) = lx_sh c" "lx_tp (upd_tp g c) = g (lx_tp c)"
  "lx_ready (upd_tp g c) = lx_ready c" "lx_delta (upd_tp g c) = lx_delta c"
  "lx_sh (push_ready p c) = lx_sh c" "lx_tp (push_ready p c) = lx_tp c"
  "lx_ready (push_ready p c) = lx_ready c @ [p]" "lx_delta (push_ready p c) = lx_delta c"
  by (simp_all add: upd_sh_def upd_tp_def push_ready_def)

lemma get_put_state [simp]:
  "get_state k (put_state k' st c) = (if k = k' then st else get_state k c)"
  "get_emitted k (put_state k' st c) = get_emitted k c"
  "get_state k (put_emitted k' em c) = get_state k c"
  "get_emitted k (put_emitted k' em c) = (if k = k' then em else get_emitted k c)"
  by (simp_all add: get_state_def put_state_def get_emitted_def put_emitted_def)

lemma lx_put [simp]:
  "lx_tp (put_state k st c) = lx_tp c" "lx_ready (put_state k st c) = lx_ready c"
  "lx_tp (put_emitted k em c) = lx_tp c" "lx_ready (put_emitted k em c) = lx_ready c"
  "sh_hold (lx_sh (put_state k st c)) = sh_hold (lx_sh c)"
  "sh_hold (lx_sh (put_emitted k em c)) = sh_hold (lx_sh c)"
  "sh_deferred (lx_sh (put_state k st c)) = sh_deferred (lx_sh c)"
  "sh_deferred (lx_sh (put_emitted k em c)) = sh_deferred (lx_sh c)"
  "sh_held_keys (lx_sh (put_state k st c)) = sh_held_keys (lx_sh c)"
  "sh_held_keys (lx_sh (put_emitted k em c)) = sh_held_keys (lx_sh c)"
  "sh_hold_size (lx_sh (put_state k st c)) = sh_hold_size (lx_sh c)"
  "sh_hold_size (lx_sh (put_emitted k em c)) = sh_hold_size (lx_sh c)"
  by (simp_all add: put_state_def put_emitted_def)

lemma get_push [simp]:
  "get_state k (push_ready p c) = get_state k c" "get_emitted k (push_ready p c) = get_emitted k c"
  "get_state k (upd_tp f c) = get_state k c" "get_emitted k (upd_tp f c) = get_emitted k c"
  by (simp_all add: get_state_def get_emitted_def)

lemma frontier_simps_L5 [simp]:
  "frontier k (put_state k' st c) = (if k = k' then next_expected st else frontier k c)"
  "frontier k (put_emitted k' em c) = frontier k c"
  "frontier k (push_ready p c) = frontier k c" "frontier k (upd_tp f c) = frontier k c"
  by (simp_all add: frontier_def)

text \<open>Operations that leave the frontiers, trackers, held and deferred batches and the output
  alone.\<close>

definition quiet :: "L5 \<Rightarrow> L5 \<Rightarrow> bool" where
  "quiet c c' \<longleftrightarrow> lx_ready c' = lx_ready c \<and> true_client_chain c' = true_client_chain c \<and>
     tp_bypass_session_fifo (lx_tp c') = tp_bypass_session_fifo (lx_tp c) \<and>
     (\<forall>k. get_state k c' = get_state k c \<and> get_emitted k c' = get_emitted k c) \<and>
     sh_hold (lx_sh c') = sh_hold (lx_sh c) \<and> sh_deferred (lx_sh c') = sh_deferred (lx_sh c)"

lemma quiet_refl [simp]: "quiet c c"
  by (simp add: quiet_def)

lemma quiet_trans: "quiet a b \<Longrightarrow> quiet b c \<Longrightarrow> quiet a c"
  by (simp add: quiet_def)

lemma quiet_step: "quiet c c' \<Longrightarrow> step_ok c c'"
  by (auto simp: quiet_def step_ok_def inv5_def adv_def frontier_def)

lemma quiet_upd_sh:
  "sh_client_state (f (lx_sh c)) = sh_client_state (lx_sh c) \<Longrightarrow> sh_emitted (f (lx_sh c)) = sh_emitted (lx_sh c) \<Longrightarrow>
   sh_hold (f (lx_sh c)) = sh_hold (lx_sh c) \<Longrightarrow> sh_deferred (f (lx_sh c)) = sh_deferred (lx_sh c) \<Longrightarrow>
   quiet c (upd_sh f c)"
  by (simp add: quiet_def get_state_def get_emitted_def true_client_chain_def)

lemma quiet_upd_tp:
  "tp_order (f (lx_tp c)) = tp_order (lx_tp c) \<Longrightarrow>
   tp_bypass_session_fifo (f (lx_tp c)) = tp_bypass_session_fifo (lx_tp c) \<Longrightarrow> quiet c (upd_tp f c)"
  by (simp add: quiet_def true_client_chain_def)

lemma quiet_pressure [simp]:
  "quiet c (upd_pressure cid f c)"
  by (auto simp: upd_pressure_def intro!: quiet_upd_sh)

lemma quiet_record [simp]:
  "quiet c (record_hold_insert cid m c)" "quiet c (record_expiry cid c)"
  "quiet c (record_forced_skip cid c)" "quiet c (record_late_drop cid c)"
  by (simp_all add: record_hold_insert_def record_expiry_def record_forced_skip_def record_late_drop_def)

lemma quiet_accumulate [simp]: "quiet c (accumulate_logical_only b s n i c)"
  by (auto simp: accumulate_logical_only_def Let_def intro!: quiet_upd_sh)

lemma quiet_check [simp]: "quiet c (snd (CheckAndInsertBatchId i c))"
  by (auto simp: CheckAndInsertBatchId_def intro!: quiet_upd_sh split: prod.splits)

lemma quiet_terminalize [simp]: "quiet c (terminalize_already_emitted cid b s n i pi c)"
  unfolding terminalize_already_emitted_def
  using quiet_trans[OF quiet_trans[OF quiet_accumulate quiet_record(4)] quiet_check] by simp

lemma quiet_fifo [simp]: "quiet c (count_fifo_violation c)"
  by (simp add: count_fifo_violation_def quiet_upd_tp)

lemma quiet_pending [simp]: "quiet c (terminalize_pending p c)" "quiet c (terminalize_held he c)"
  by (simp_all add: terminalize_pending_def terminalize_held_def Let_def)

lemma quiet_SteadyNow: "SteadyNowNs (lx_tp c) = (n, t) \<Longrightarrow> quiet c (upd_tp (\<lambda>_. t) c)"
  by (auto simp: SteadyNowNs_def intro!: quiet_upd_tp)

lemma Retire_frame [simp]:
  "tp_order (RetireOrder5HeldSlotAndAdvance h b s t) = tp_order t"
  "tp_bypass_session_fifo (RetireOrder5HeldSlotAndAdvance h b s t) = tp_bypass_session_fifo t"
  by (auto simp: RetireOrder5HeldSlotAndAdvance_def InvalidateOrder5HeldSlot_def Let_def split: option.splits)

lemma quiet_retire [simp]: "quiet c (retire_held he c)"
  by (simp add: retire_held_def quiet_upd_tp)

lemma quiet_drop_hold_count [simp]: "quiet c (drop_hold_count c)"
  unfolding drop_hold_count_def
  by (rule quiet_trans[OF quiet_upd_sh quiet_upd_tp]) simp_all

subsection \<open>Elementary steps\<close>

text \<open>Raising a frontier keeps the invariant and emits nothing.\<close>

lemma step_put_state:
  assumes "frontier k c \<le> next_expected st"
  shows "step_ok c (put_state k st c)"
proof -
  have "inv5 (put_state k st c)" if "inv5 c"
    using that assms by (fastforce simp: inv5_def frontier_def true_client_chain_def)
  moreover have "adv k' c (put_state k st c)" for k'
    using assms by (auto simp: adv_def)
  ultimately show ?thesis by (simp add: step_ok_def)
qed

lemma step_push_silent:
  assumes "pb_skipped p \<or> pb_is_held_marker p"
  shows "step_ok c (push_ready p c)"
  using assms by (auto simp: step_ok_def inv5_def adv_def true_client_chain_def emits_def is_emission_def
      intro!: exI[of _ "[p]"])

text \<open>Emitting the batch at the frontier.\<close>

lemma emit_at_frontier:
  assumes inv: "inv5 c" and good: "good_batch p" "key_of p = k" "pb_batch_seq p = frontier k c"
    and st: "next_expected st = u64 (frontier k c + 1)"
    and q: "quiet (put_state k st c) c1"
    and c': "c' = push_ready p' (put_emitted k (MarkEmitted (get_emitted k c1) (pb_batch_seq p)) c1)"
    and p': "key_of p' = k" "pb_batch_seq p' = pb_batch_seq p" "pb_skipped p' = pb_skipped p"
      "pb_is_held_marker p' = pb_is_held_marker p"
  shows "inv5 c' \<and> (\<forall>k'. adv k' c c')"
proof -
  let ?n = "frontier k c"
  have n: "?n < UINT64_MAX" using good by (simp add: good_batch_def)
  then have st': "next_expected st = ?n + 1" using st by (simp add: u64_Suc_id[unfolded Suc_eq_plus1[symmetric]])
  have Q: "lx_ready c1 = lx_ready c" "\<And>k'. get_state k' c1 = get_state k' (put_state k st c)"
    "\<And>k'. get_emitted k' c1 = get_emitted k' c" "sh_hold (lx_sh c1) = sh_hold (lx_sh c)"
    "sh_deferred (lx_sh c1) = sh_deferred (lx_sh c)" "true_client_chain c1 = true_client_chain c"
    "tp_bypass_session_fifo (lx_tp c1) = tp_bypass_session_fifo (lx_tp c)"
    using q by (auto simp: quiet_def true_client_chain_def)
  have tok: "tracker_ok (get_emitted k c)" using inv by (simp add: inv5_def)
  note me = MarkEmitted_exact[OF tok n]
  have fr: "frontier k' c' = (if k' = k then ?n + 1 else frontier k' c)" for k'
    by (simp add: c' frontier_def Q(2) st')
  have "inv5 c'"
    unfolding inv5_def
  proof (intro conjI allI impI)
    show "true_client_chain c'" "\<not> tp_bypass_session_fifo (lx_tp c')"
      using inv Q by (simp_all add: c' inv5_def true_client_chain_def)
    show "tracker_ok (get_emitted k' c')" for k'
      using inv me(1) Q(3) good(3) by (simp add: c' inv5_def)
    show "s < next_expected (get_state k' c')" if "IsEmitted (get_emitted k' c') s" for k' s
      using that inv me(2)[of s] Q good(3) fr[of k']
      by (auto simp: c' inv5_def frontier_def split: if_splits intro: less_SucI)
    show "held_ok k' cmap" if "om_find (sh_hold (lx_sh c')) k' = Some cmap" for k' cmap
      using that inv Q(4) by (simp add: c' inv5_def)
    show "list_all good_batch (sh_deferred (lx_sh c'))"
      using inv Q(5) by (simp add: c' inv5_def)
  qed
  moreover have "adv k' c c'" for k'
    unfolding adv_def
  proof (intro exI[of _ "[p']"] conjI)
    show "lx_ready c' = lx_ready c @ [p']" using Q(1) by (simp add: c')
    show "frontier k' c \<le> frontier k' c'" using fr[of k'] by simp
    show "sorted_wrt (<) (emits k' [p'])" by (simp add: emits_def)
    show "\<forall>s\<in>set (emits k' [p']). frontier k' c \<le> s \<and> s < frontier k' c'"
      using good(3) p' fr[of k'] by (auto simp: emits_def is_emission_def)
  qed
  ultimately show ?thesis by blast
qed

lemma emit_if_new_step:
  assumes good: "good_batch p" "key_of p = k" "pb_batch_seq p = frontier k c"
    and st: "next_expected st = u64 (frontier k c + 1)"
  shows "step_ok c (emit_if_new k p (put_state k st c))"
proof -
  obtain dup c1 where ck: "CheckAndInsertBatchId (pb_cached_batch_id p) (put_state k st c) = (dup, c1)"
    by (cases "CheckAndInsertBatchId (pb_cached_batch_id p) (put_state k st c)")
  have q: "quiet (put_state k st c) c1"
    using quiet_check[of "put_state k st c" "pb_cached_batch_id p"] ck by simp
  show ?thesis
  proof (cases dup)
    case True
    have "frontier k c \<le> next_expected st"
      using good st by (simp add: good_batch_def u64_Suc_id[unfolded Suc_eq_plus1[symmetric]])
    then show ?thesis
      using step_ok_trans[OF step_put_state quiet_step[OF q]] True ck by (simp add: emit_if_new_def)
  next
    case False
    then show ?thesis
      using emit_at_frontier[OF _ good st q, of _ p] good ck
      by (auto simp: step_ok_def emit_if_new_def)
  qed
qed

lemma key_of_marker [simp]: "pb_is_held_marker (held_marker p)"
  by (simp add: held_marker_def)

text \<open>Changing only the held batches of one key, to well-formed ones.\<close>

lemma step_set_hold:
  assumes "held_ok k cmap" "\<And>sh. sh_hold (f sh) = om_put k cmap (sh_hold sh)"
    "\<And>sh. sh_client_state (f sh) = sh_client_state sh" "\<And>sh. sh_emitted (f sh) = sh_emitted sh"
    "\<And>sh. sh_deferred (f sh) = sh_deferred sh"
  shows "step_ok c (upd_sh f c)"
  using assms by (auto simp: step_ok_def inv5_def adv_def true_client_chain_def get_state_def get_emitted_def
      frontier_def split: if_splits intro!: exI[of _ "[]"])

lemma inv5_held: "inv5 c \<Longrightarrow> held_ok k (om_get [] (sh_hold (lx_sh c)) k)"
  by (cases "om_find (sh_hold (lx_sh c)) k") (auto simp: inv5_def om_get_def held_ok_def)

lemma set_om_put: "set (om_put k v m) \<subseteq> insert (k, v) (set m)"
  by (induction k v m rule: om_put.induct) auto

lemma held_ok_put:
  "held_ok k m \<Longrightarrow> good_batch p \<Longrightarrow> key_of p = k \<Longrightarrow>
   held_ok k (om_put (pb_batch_seq p) \<lparr>he_batch = p, he_meta = hold_meta_of p, he_hold_start_ns = t\<rparr> m)"
  using set_om_put[of "pb_batch_seq p"] by (fastforce simp: held_ok_def)

lemma step_defer:
  assumes "good_batch p"
  shows "step_ok c (upd_sh (\<lambda>sh. sh\<lparr>sh_deferred := sh_deferred sh @ [p]\<rparr>) c)"
  using assms by (auto simp: step_ok_def inv5_def adv_def true_client_chain_def get_state_def get_emitted_def
      frontier_def intro!: exI[of _ "[]"])

lemma step_if_inv: "(inv5 c \<Longrightarrow> step_ok c c') \<Longrightarrow> step_ok c c'"
  by (auto simp: step_ok_def)

lemma classify_ahead_step:
  assumes good: "good_batch p" "key_of p = k"
  shows "step_ok c (classify_ahead k tcc p c)"
proof -
  define c1 where "c1 = (if tcc then (case SteadyNowNs (lx_tp c) of
                  (now, t) \<Rightarrow> put_state k (note_gap (get_state k c) now) (upd_tp (\<lambda>_. t) c)) else c)"
  have s1: "step_ok c c1"
  proof (cases "SteadyNowNs (lx_tp c)")
    case (Pair now t)
    have "step_ok (upd_tp (\<lambda>_. t) c) (put_state k (note_gap (get_state k c) now) (upd_tp (\<lambda>_. t) c))"
      by (rule step_put_state) (simp add: frontier_def)
    with quiet_step[OF quiet_SteadyNow[OF Pair]] have
      "step_ok c (put_state k (note_gap (get_state k c) now) (upd_tp (\<lambda>_. t) c))" by (rule step_ok_trans)
    then show ?thesis using Pair by (simp add: c1_def step_ok_refl)
  qed
  let ?m = "om_get [] (sh_hold (lx_sh c1)) k"
  define c2 where "c2 = upd_sh (\<lambda>sh. sh\<lparr>sh_hold := om_put k ?m (sh_hold sh)\<rparr>) c1"
  have s2: "step_ok c1 c2"
    by (rule step_if_inv) (auto simp: c2_def intro!: step_set_hold inv5_held)
  obtain now t where nt: "SteadyNowNs (lx_tp c2) = (now, t)" by (cases "SteadyNowNs (lx_tp c2)")
  define m' where "m' = om_put (pb_batch_seq p) \<lparr>he_batch = p, he_meta = hold_meta_of p, he_hold_start_ns = now\<rparr> ?m"
  define c3 where "c3 = upd_sh (\<lambda>sh. sh\<lparr>sh_hold := om_put k m' (sh_hold sh)\<rparr>) (upd_tp (\<lambda>_. t) c2)"
  have s3: "step_ok c2 c3"
  proof (rule step_if_inv)
    assume i: "inv5 c2"
    have "held_ok k ?m" using inv5_held[OF i, of k] by (simp add: c2_def)
    then have "held_ok k m'" unfolding m'_def using good by (rule held_ok_put)
    then have "step_ok (upd_tp (\<lambda>_. t) c2) c3" unfolding c3_def by (intro step_set_hold) auto
    with quiet_step[OF quiet_SteadyNow[OF nt]] show "step_ok c2 c3" by (rule step_ok_trans)
  qed
  define c4 where "c4 = (if tcc then record_hold_insert (pb_client_id p) m' c3 else c3)"
  have s4: "step_ok c3 c4" by (auto simp: c4_def intro: quiet_step)
  define c6 where "c6 = upd_tp (\<lambda>t. t\<lparr>tp_total_hold_size := u64 (tp_total_hold_size t + 1)\<rparr>)
     (upd_sh (\<lambda>sh. sh\<lparr>sh_hold_size := u64 (sh_hold_size sh + 1), sh_held_keys := om_put k () (sh_held_keys sh)\<rparr>) c4)"
  have s6: "step_ok c4 c6"
    unfolding c6_def by (rule quiet_step) (rule quiet_trans[OF quiet_upd_sh quiet_upd_tp]; simp)
  have s7: "step_ok c6 (push_ready (held_marker p) c6)" by (rule step_push_silent) simp
  note full = step_ok_trans[OF s1 step_ok_trans[OF s2 step_ok_trans[OF s3 step_ok_trans[OF s4 step_ok_trans[OF s6 s7]]]]]
  have bp: "step_ok c1 (upd_sh (\<lambda>sh. sh\<lparr>sh_backpressured := sh_backpressured sh @ [x]\<rparr>) c1)" for x
    by (rule quiet_step, rule quiet_upd_sh) simp_all
  show ?thesis
    using full step_ok_trans[OF s1 s2] step_ok_trans[OF s1 step_defer[OF good(1)]] step_ok_trans[OF s1 bp] s1
    unfolding classify_ahead_def Let_def c1_def[symmetric] c2_def[symmetric] nt prod.case
      m'_def[symmetric] c3_def[symmetric] c4_def[symmetric] c6_def[symmetric]
    by (simp only: split: if_splits) blast
qed

lemma quiet_delta [simp]: "quiet c (c\<lparr>lx_delta := d\<rparr>)"
  by (simp add: quiet_def get_state_def get_emitted_def true_client_chain_def)

lemma classify_one_step:
  assumes good: "good_batch p" "key_of p = k"
  shows "step_ok c (classify_one k True p c)"
proof (rule step_if_inv)
  assume inv: "inv5 c"
  let ?seq = "pb_batch_seq p" and ?st = "get_state k c" and ?em = "get_emitted k c"
  let ?acc = "\<lambda>c. record_late_drop (pb_client_id p) (accumulate_logical_only (pb_broker_id p)
      (pb_cached_start_logical_offset p) (pb_num_msg p) (pb_cached_pbr_absolute_index p) c)"
  have acc: "quiet c (?acc c)" for c by (rule quiet_trans[OF quiet_accumulate quiet_record(4)])
  have byp: "\<not> tp_bypass_session_fifo (lx_tp c)" using inv by (simp add: inv5_def)
  have seq: "u64 (Suc ?seq) = Suc ?seq" using good by (simp add: good_batch_def u64_Suc_id[unfolded Suc_eq_plus1[symmetric]])
  have keep: "step_ok c (put_state k st c)" if "next_expected st \<ge> next_expected ?st" for st
    by (rule step_put_state) (simp add: frontier_def that)
  consider (fen) "fenced ?st" | (dup) "\<not> fenced ?st" "is_duplicate ?st ?seq" "IsEmitted ?em ?seq"
    | (em) "\<not> fenced ?st" "\<not> is_duplicate ?st ?seq" "IsEmitted ?em ?seq"
    | (eq) "\<not> fenced ?st" "\<not> IsEmitted ?em ?seq" "?seq = next_expected ?st"
    | (lt) "\<not> fenced ?st" "\<not> IsEmitted ?em ?seq" "?seq < next_expected ?st"
    | (gt) "\<not> fenced ?st" "\<not> IsEmitted ?em ?seq" "next_expected ?st < ?seq" by linarith
  then show "step_ok c (classify_one k True p c)"
  proof cases
    case fen
    then show ?thesis using quiet_step[OF acc] by (simp add: classify_one_def Let_def)
  next
    case dup
    then show ?thesis by (simp add: classify_one_def Let_def quiet_step)
  next
    case em
    let ?st' = "if ?seq \<ge> next_expected (mark_sequenced ?st ?seq)
       then set_next_expected (mark_sequenced ?st ?seq) (u64 (?seq + 1)) else mark_sequenced ?st ?seq"
    have "step_ok c (terminalize_pending p (put_state k ?st' c))"
      by (rule step_ok_trans[OF keep[of ?st'] quiet_step[OF quiet_pending(1)]]) (simp add: seq)
    then show ?thesis using em by (simp add: classify_one_def Let_def)
  next
    case eq
    then show ?thesis
      using emit_if_new_step[OF good, of c "advance_next_expected (mark_sequenced ?st ?seq)"] byp
      by (simp add: classify_one_def Let_def frontier_def)
  next
    case lt
    obtain d c1 where ck: "CheckAndInsertBatchId (pb_cached_batch_id p) (put_state k (mark_sequenced ?st ?seq) c) = (d, c1)"
      by (cases "CheckAndInsertBatchId (pb_cached_batch_id p) (put_state k (mark_sequenced ?st ?seq) c)")
    have s1: "step_ok c c1"
      using step_ok_trans[OF keep[of "mark_sequenced ?st ?seq"] quiet_step[OF quiet_check[of "put_state k (mark_sequenced ?st ?seq) c" "pb_cached_batch_id p"]]] ck
      by simp
    have "step_ok c ((?acc c1)\<lparr>lx_delta := x\<rparr>)" for x
      by (rule step_ok_trans[OF s1 quiet_step]) (rule quiet_trans[OF acc quiet_delta])
    then show ?thesis using lt byp ck s1 by (simp add: classify_one_def Let_def)
  next
    case gt
    then show ?thesis using classify_ahead_step[OF good, of c True] byp by (simp add: classify_one_def Let_def)
  qed
qed

lemma Apply_raises: "next_expected st \<le> next_expected (ApplyRecoveredSequencer5State t k st)"
  by (auto simp: ApplyRecoveredSequencer5State_def Let_def split: option.splits)

lemma merge_durable_raises: "next_expected st \<le> next_expected (merge_durable_entry e st)"
  by (simp add: merge_durable_entry_def Let_def)

lemma Reconstruct_raises: "next_expected st \<le> next_expected (ReconstructClientStateFromSessionEntry t k st)"
proof -
  have "next_expected st \<le> next_expected (ApplyRecoveredSequencer5State t k
      (merge_durable_entry e (ApplyRecoveredSequencer5State t k st)))" for e
    by (rule order_trans[OF Apply_raises order_trans[OF merge_durable_raises Apply_raises]])
  then show ?thesis
    using Apply_raises by (auto simp: ReconstructClientStateFromSessionEntry_def Let_def split: option.splits)
qed

lemma prepared_state_raises: "frontier k c \<le> next_expected (prepared_state k sk ep c)"
  using Reconstruct_raises[of "(get_state k c)\<lparr>session_epoch := ep, last_epoch := tp_current_epoch_for_hold (lx_tp c)\<rparr>" "lx_tp c" sk]
  by (auto simp: frontier_def prepared_state_def Let_def)

lemma quiet_put_same [simp]: "quiet c (put_emitted k (get_emitted k c) c)" "quiet c (put_state k (get_state k c) c)"
  by (simp_all add: quiet_def true_client_chain_def)

lemma prepare_stream_step: "step_ok c (prepare_stream k sk ep c)"
  unfolding prepare_stream_def
  using step_ok_trans[OF step_put_state[OF prepared_state_raises] quiet_step[OF quiet_put_same(1)]] by simp

subsection \<open>Fencing\<close>

lemma fold_retire_frame:
  "tp_order (fold (\<lambda>(b, slot, hdr). RetireOrder5HeldSlotAndAdvance hdr b slot) rs t) = tp_order t"
  "tp_bypass_session_fifo (fold (\<lambda>(b, slot, hdr). RetireOrder5HeldSlotAndAdvance hdr b slot) rs t) = tp_bypass_session_fifo t"
  by (induction rs arbitrary: t) auto

lemma step_purge: "step_ok c (purge_fenced_session k c)"
proof -
  have "step_ok c c'" if r: "lx_ready c' = lx_ready c" "sh_client_state (lx_sh c') = sh_client_state (lx_sh c)"
      "sh_emitted (lx_sh c') = om_erase k (sh_emitted (lx_sh c))"
      "sh_hold (lx_sh c') = om_erase k (sh_hold (lx_sh c))"
      "set (sh_deferred (lx_sh c')) \<subseteq> set (sh_deferred (lx_sh c))"
      "tp_order (lx_tp c') = tp_order (lx_tp c)" "tp_bypass_session_fifo (lx_tp c') = tp_bypass_session_fifo (lx_tp c)" for c'
  proof -
    have em: "get_emitted k' c' = (if k' = k then EmitTracker_init else get_emitted k' c)" for k'
      using r by (simp add: get_emitted_def)
    have st: "get_state k' c' = get_state k' c" for k' using r by (simp add: get_state_def)
    show ?thesis
      using r em st by (auto simp: step_ok_def inv5_def adv_def frontier_def true_client_chain_def list_all_iff split: if_splits)
  qed
  note gen = this
  show ?thesis
    by (rule gen) (auto simp: purge_fenced_session_def Let_def fold_retire_frame om_find_None_iff split: option.splits)
qed

lemma notify_fence_frame [simp]:
  "tp_order (notify_fence k st ce t) = tp_order t"
  "tp_bypass_session_fifo (notify_fence k st ce t) = tp_bypass_session_fifo t"
  by (auto simp: notify_fence_def CurrentControlEpoch_def SteadyNowNs_def PublishSessionFenceNotification_def
      Let_def split: prod.splits)

lemma quiet_stop: "quiet c (upd_tp (\<lambda>t. StopForCapacityExhaustion (t\<lparr>tp_session_table := x\<rparr>)) c)"
  by (rule quiet_upd_tp) (simp_all add: StopForCapacityExhaustion_def)

lemma quiet_set_table: "quiet c (upd_tp (\<lambda>t. t\<lparr>tp_session_table := x\<rparr>) c)"
  by (rule quiet_upd_tp) simp_all

lemma record_fence_step: "step_ok c (record_fence k c)"
proof -
  let ?st = "get_state k c"
  show ?thesis
  proof (cases "true_client_chain c \<and> CanFenceSessionEpoch (session_epoch ?st)")
    case False
    then show ?thesis by (auto simp: record_fence_def Let_def)
  next
    case True
    obtain r table' where f: "FindOrCreateSessionEntry (tp_session_table (lx_tp c)) k = (r, table')"
      by (cases "FindOrCreateSessionEntry (tp_session_table (lx_tp c)) k")
    show ?thesis
    proof (cases "\<exists>i tbl. r = Some i \<and> table' = Some tbl")
      case False
      then have "record_fence k c = upd_tp (\<lambda>t. StopForCapacityExhaustion (t\<lparr>tp_session_table := table'\<rparr>)) c"
        using True f by (cases r; cases table') (auto simp: record_fence_def Let_def)
      then show ?thesis using quiet_step[OF quiet_stop] by simp
    next
      case some: True
      then obtain i tbl where r: "r = Some i" "table' = Some tbl" by blast
      define st1 where "st1 = (fence ?st)\<lparr>committed_hwm := se_committed_hwm (tbl i)\<rparr>"
      define c2 where "c2 = put_state k st1 (upd_tp (\<lambda>t. t\<lparr>tp_session_table := Some tbl\<rparr>) c)"
      have s2: "step_ok c c2"
        unfolding c2_def by (rule step_ok_trans[OF quiet_step[OF quiet_set_table] step_put_state])
          (simp add: st1_def frontier_def)
      define snap where "snap = \<lparr>sp_session_epoch = session_epoch st1, sp_expected_seq = se_expected_seq (tbl i),
          sp_committed_hwm = committed_hwm st1, sp_highest_sequenced = highest_sequenced st1, sp_fenced = True\<rparr>"
      obtain ok tbl' where p: "PublishSessionEntry (Some tbl) k snap = (ok, tbl')"
        by (cases "PublishSessionEntry (Some tbl) k snap")
      define c4 where "c4 = (if \<not> fenced ?st then upd_tp (notify_fence k st1 (se_expected_seq (tbl i)))
          (upd_tp (\<lambda>t. t\<lparr>tp_session_table := tbl'\<rparr>) c2) else upd_tp (\<lambda>t. t\<lparr>tp_session_table := tbl'\<rparr>) c2)"
      have "step_ok c2 c4"
        unfolding c4_def
        using step_ok_trans[OF quiet_step[OF quiet_set_table] quiet_step[OF quiet_upd_tp]] quiet_step[OF quiet_set_table]
        by simp
      then have s4: "step_ok c (purge_fenced_session k c4)"
        using s2 step_purge by (blast intro: step_ok_trans)
      have s5: "step_ok c (upd_tp (\<lambda>t. StopForCapacityExhaustion (t\<lparr>tp_session_table := tbl'\<rparr>)) c2)"
        by (rule step_ok_trans[OF s2 quiet_step[OF quiet_stop]])
      have "record_fence k c = (if ok then purge_fenced_session k c4
          else upd_tp (\<lambda>t. StopForCapacityExhaustion (t\<lparr>tp_session_table := tbl'\<rparr>)) c2)"
        using True f r p
        by (simp add: record_fence_def Let_def c4_def c2_def st1_def snap_def split: bool.splits)
      then show ?thesis using s4 s5 by simp
    qed
  qed
qed


subsection \<open>Skip markers, streams and groups\<close>

lemma process_skip_step:
  assumes sk: "pb_skipped p" and seq: "pb_batch_seq p < UINT64_MAX"
  shows "step_ok c (process_skip p c)"
proof -
  define k where "k = MakeSessionKey (pb_client_id p) (pb_session_epoch p)"
  define st where "st = ReconstructClientStateFromSessionEntry (lx_tp c) k
      ((get_state k c)\<lparr>session_epoch := pb_session_epoch p, last_epoch := tp_current_epoch_for_hold (lx_tp c)\<rparr>)"
  let ?s = "pb_batch_seq p" and ?c1 = "put_state k st c" and ?st1 = "mark_sequenced st (pb_batch_seq p)"
  have st: "frontier k c \<le> next_expected st"
    using Reconstruct_raises[of "(get_state k c)\<lparr>session_epoch := pb_session_epoch p, last_epoch := tp_current_epoch_for_hold (lx_tp c)\<rparr>"]
    by (simp add: st_def frontier_def)
  have push: "step_ok c (push_ready p c')" if "step_ok c c'" for c'
    by (rule step_ok_trans[OF that step_push_silent]) (simp add: sk)
  have s1: "step_ok c ?c1" by (rule step_put_state[OF st])
  have s2: "step_ok c (record_forced_skip (pb_client_id p) (record_fence k ?c1))"
    by (rule step_ok_trans[OF s1 step_ok_trans[OF record_fence_step quiet_step[OF quiet_record(3)]]])
  have s3: "step_ok c (put_state k ?st1 ?c1)"
    by (rule step_ok_trans[OF s1 step_put_state]) simp
  have s4: "step_ok c (record_forced_skip (pb_client_id p) (put_state k (set_next_expected ?st1 (u64 (?s + 1))) ?c1))"
    if "?s \<ge> next_expected ?st1"
  proof (rule step_ok_trans[OF step_ok_trans[OF s1 step_put_state] quiet_step])
    show "frontier k ?c1 \<le> next_expected (set_next_expected ?st1 (u64 (?s + 1)))"
      using that seq by (simp add: u64_Suc_id[unfolded Suc_eq_plus1[symmetric]])
  qed simp
  show ?thesis
    using push[OF s2] push[OF s3] push[OF s4] push[OF step_ok_refl]
    unfolding process_skip_def Let_def k_def[symmetric] st_def[symmetric] by auto
qed

lemma true_client_chain_of_inv: "inv5 c \<Longrightarrow> true_client_chain c"
  by (simp add: inv5_def)

lemma classify_stream_step:
  assumes "\<forall>p\<in>set ps. good_batch p \<and> key_of p = k"
  shows "step_ok c (classify_stream k sk ep ps c)"
proof (rule step_if_inv)
  assume i: "inv5 c"
  have "step_ok (prepare_stream k sk ep c) (fold (classify_one k True) ps (prepare_stream k sk ep c))"
    using assms by (intro step_ok_fold classify_one_step) auto
  then have "step_ok c (fold (classify_one k True) ps (prepare_stream k sk ep c))"
    by (rule step_ok_trans[OF prepare_stream_step])
  then show "step_ok c (classify_stream k sk ep ps c)"
    using true_client_chain_of_inv[OF i] by (simp add: classify_stream_def Let_def)
qed

lemma group_runs_spec:
  "g \<in> set (group_runs f xs) \<Longrightarrow> g \<noteq> [] \<and> set g \<subseteq> set xs \<and> (\<forall>y\<in>set g. f y = f (hd g))"
proof (induction f xs rule: group_runs.induct)
  case (2 f x xs)
  note IH = "2.IH"
  let ?t = "takeWhile (\<lambda>y. f y = f x) xs" and ?d = "dropWhile (\<lambda>y. f y = f x) xs"
  have t: "set ?t \<subseteq> set xs" "\<forall>y\<in>set ?t. f y = f x" by (auto dest: set_takeWhileD)
  have d: "set ?d \<subseteq> set xs" by (auto dest: set_dropWhileD)
  from 2(2) consider "g = x # ?t" | "g \<in> set (group_runs f ?d)"
    unfolding group_runs.simps list.set by blast
  then show ?case
  proof cases
    case 1
    then show ?thesis unfolding 1 list.sel list.set using t by blast
  next
    case 2
    from IH[OF 2] show ?thesis unfolding list.set using d by blast
  qed
qed simp

lemma concat_group_runs: "concat (group_runs f xs) = xs"
  by (induction f xs rule: group_runs.induct) simp_all

lemma key_of_session: "session_of p = session_of q \<Longrightarrow> key_of p = MakeSessionKey (pb_client_id q) (pb_session_epoch q)"
  by (simp add: session_of_def key_of_def)

lemma classify_session_step:
  assumes "\<And>p. p \<in> set ps \<Longrightarrow> good_batch p \<and> session_of p = session_of q"
  shows "step_ok c (classify_stream (MakeSessionKey (pb_client_id q) (pb_session_epoch q)) sk ep ps c)"
  by (rule classify_stream_step) (use assms key_of_session in blast)

lemma classify_group_step:
  assumes "\<And>p. p \<in> set g \<Longrightarrow> good_batch p \<and> session_of p = session_of (hd g)"
  shows "step_ok c (classify_group g c)"
proof (rule step_if_inv)
  assume "inv5 c"
  note t = true_client_chain_of_inv[OF this]
  show "step_ok c (classify_group g c)"
  proof (cases "g = []")
    case True
    then show ?thesis by (simp add: classify_group_def step_ok_refl)
  next
    case False
    show ?thesis
      unfolding classify_group_def Let_def if_P[OF t] if_not_P[OF False]
      by (rule classify_session_step[of g "hd g", OF assms])
  qed
qed

lemma fast_path_step:
  assumes "list_all good_batch l5" "fast_path_applies l5 c'"
  shows "step_ok c (fast_path l5 c)"
proof (rule step_if_inv)
  assume "inv5 c"
  have "good_batch p \<and> session_of p = session_of (hd l5)" if "p \<in> set (sort_key pb_batch_seq l5)" for p
    using assms that unfolding fast_path_applies_def list_all_iff set_sort by blast
  from classify_session_step[OF this] show "step_ok c (fast_path l5 c)"
    unfolding fast_path_def Let_def if_P[OF true_client_chain_of_inv[OF \<open>inv5 c\<close>]] .
qed

lemma general_path_step:
  assumes "list_all good_batch l5"
  shows "step_ok c (general_path l5 c)"
proof (rule step_if_inv)
  assume i: "inv5 c"
  let ?l = "sort_key (\<lambda>p. (pb_client_id p, pb_session_epoch p, pb_batch_seq p)) l5"
  have "step_ok c (fold classify_group (group_runs session_of ?l) c)"
  proof (intro step_ok_fold classify_group_step)
    fix g p assume g: "g \<in> set (group_runs session_of ?l)" "p \<in> set g"
    note r = group_runs_spec[OF g(1)]
    then have "p \<in> set l5" using g(2) by (metis set_sort subsetD)
    then show "good_batch p \<and> session_of p = session_of (hd g)"
      using r g(2) assms unfolding list_all_iff by blast
  qed
  then show "step_ok c (general_path l5 c)"
    using true_client_chain_of_inv[OF i] by (simp add: general_path_def)
qed

subsection \<open>Drains\<close>

lemma held_emission_simps [simp]:
  "key_of (held_emission he) = key_of (he_batch he)" "pb_batch_seq (held_emission he) = pb_batch_seq (he_batch he)"
  "pb_skipped (held_emission he) = pb_skipped (he_batch he)"
  "pb_is_held_marker (held_emission he) = pb_is_held_marker (he_batch he)"
  by (simp_all add: held_emission_def key_of_def)

lemma drain_entry_step:
  assumes good: "good_batch (he_batch he)" "key_of (he_batch he) = k" "pb_batch_seq (he_batch he) = frontier k c"
  shows "step_ok c (drain_entry second k he c)"
proof (rule step_if_inv)
  assume inv: "inv5 c"
  let ?s = "pb_batch_seq (he_batch he)"
  let ?st = "advance_next_expected (mark_sequenced (get_state k c) ?s)"
  let ?c1 = "put_state k ?st c"
  have st: "next_expected ?st = u64 (frontier k c + 1)" by (simp add: frontier_def)
  have "frontier k c \<le> next_expected ?st"
    unfolding st using good by (simp add: good_batch_def u64_Suc_id[unfolded Suc_eq_plus1[symmetric]])
  then have s1: "step_ok c ?c1" by (rule step_put_state)
  obtain dup c2 where ck: "CheckAndInsertBatchId (hm_batch_id (he_meta he)) ?c1 = (dup, c2)"
    by (cases "CheckAndInsertBatchId (hm_batch_id (he_meta he)) ?c1")
  have q: "quiet ?c1 c2" using quiet_check[of ?c1 "hm_batch_id (he_meta he)"] ck by simp
  have d: "step_ok c (drop_hold_count c')" if "step_ok c c'" for c'
    by (rule step_ok_trans[OF that quiet_step[OF quiet_drop_hold_count]])
  have s2: "step_ok c (retire_held he (terminalize_held he ?c1))"
    by (rule step_ok_trans[OF s1 quiet_step[OF quiet_trans[OF quiet_pending(2) quiet_retire]]])
  have s3: "step_ok c (push_ready (held_emission he) (put_emitted k (MarkEmitted (get_emitted k c2) ?s) c2))"
    using emit_at_frontier[OF _ good st q refl, of "held_emission he"] good by (auto simp: step_ok_def)
  show "step_ok c (drain_entry second k he c)"
    using d[OF s2] d[OF s3] d[OF step_ok_trans[OF s1 quiet_step[OF q]]] ck true_client_chain_of_inv[OF inv]
    by (simp add: drain_entry_def Let_def)
qed

lemma held_ok_find: "held_ok k m \<Longrightarrow> om_find m s = Some he \<Longrightarrow>
  pb_batch_seq (he_batch he) = s \<and> good_batch (he_batch he) \<and> key_of (he_batch he) = k"
  by (auto simp: held_ok_def dest!: om_find_Some_set)

lemma set_om_erase: "set (om_erase k m) \<subseteq> set m"
  by (auto simp: om_erase_def)

lemma held_ok_erase: "held_ok k m \<Longrightarrow> held_ok k (om_erase s m)"
  using set_om_erase[of s m] by (auto simp: held_ok_def)

lemma drain_loop_step:
  "held_ok k m \<Longrightarrow> drain_loop second k m c = (m', c') \<Longrightarrow> held_ok k m' \<and> step_ok c c'"
proof (induction second k m c rule: drain_loop.induct)
  case (1 second k m c)
  show ?case
  proof (cases "om_find m (next_expected (get_state k c))")
    case None
    then show ?thesis using 1(2,3) drain_loop.simps[of second k m c] by auto
  next
    case (Some he)
    note h = held_ok_find[OF 1(2) Some]
    have "drain_loop second k (om_erase (next_expected (get_state k c)) m) (drain_entry second k he c) = (m', c')"
      using 1(3) Some drain_loop.simps[of second k m c] by simp
    from 1(1)[OF Some held_ok_erase[OF 1(2)] this]
    have "held_ok k m'" "step_ok (drain_entry second k he c) c'" by auto
    moreover have "step_ok c (drain_entry second k he c)"
      using h by (intro drain_entry_step) (auto simp: frontier_def)
    ultimately show ?thesis by (blast intro: step_ok_trans)
  qed
qed

lemma step_erase_hold:
  "step_ok c (upd_sh (\<lambda>sh. sh\<lparr>sh_hold := om_erase k (sh_hold sh), sh_held_keys := om_erase k (sh_held_keys sh)\<rparr>) c)"
  by (auto simp: step_ok_def inv5_def adv_def true_client_chain_def get_state_def get_emitted_def
      frontier_def split: if_splits intro!: exI[of _ "[]"])

lemma drain_key_step: "step_ok c (drain_key second k c)"
proof (rule step_if_inv)
  assume inv: "inv5 c"
  show "step_ok c (drain_key second k c)"
  proof (cases "om_find (sh_hold (lx_sh c)) k")
    case None
    then show ?thesis by (simp add: drain_key_def quiet_step quiet_upd_sh)
  next
    case (Some m)
    have ok: "held_ok k m" using inv Some by (simp add: inv5_def)
    define c1 where "c1 = put_emitted k (get_emitted k c)
       (put_state k ((get_state k c)\<lparr>last_epoch := tp_current_epoch_for_hold (lx_tp c)\<rparr>) c)"
    have s1: "step_ok c c1"
      unfolding c1_def
      using step_ok_trans[OF step_put_state quiet_step[OF quiet_put_same(1)],
          of k c "(get_state k c)\<lparr>last_epoch := tp_current_epoch_for_hold (lx_tp c)\<rparr>" k]
      by (simp add: frontier_def)
    obtain m' c2 where dl: "drain_loop second k m c1 = (m', c2)" by (cases "drain_loop second k m c1")
    from drain_loop_step[OF ok dl] have m': "held_ok k m'" and s2: "step_ok c1 c2" by auto
    have "step_ok c2 (upd_sh (\<lambda>sh. sh\<lparr>sh_hold := om_put k m' (sh_hold sh)\<rparr>) c2)"
      using m' by (intro step_set_hold) auto
    then have "step_ok c (upd_sh (\<lambda>sh. sh\<lparr>sh_hold := om_put k m' (sh_hold sh)\<rparr>) c2)"
      by (rule step_ok_trans[OF step_ok_trans[OF s1 s2]])
    then show ?thesis
      using step_ok_trans[OF step_ok_trans[OF s1 s2] step_erase_hold[of c2 k]] Some dl
      by (simp add: drain_key_def Let_def c1_def[symmetric])
  qed
qed

lemma drain_all_step: "step_ok c (drain_all second c)"
  unfolding drain_all_def by (intro step_ok_fold drain_key_step)

lemma drains_step: "step_ok c (first_drain c)" "step_ok c (second_drain c)"
  by (simp_all add: first_drain_def second_drain_def drain_all_step)

subsection \<open>Expiry\<close>

lemma add_expired_quiet: "quiet c (add_expired k m c)"
  unfolding add_expired_def by (rule quiet_upd_sh) simp_all

lemma sweep_key_step: "step_ok c (sweep_key now lease k c)"
proof -
  let ?st = "get_state k c"
  have put: "step_ok c (put_state k st (put_state k ?st c))" if "next_expected st = next_expected ?st" for st
    by (rule step_ok_trans[OF quiet_step[OF quiet_put_same(2)] step_put_state]) (simp add: that)
  have s1: "step_ok c (put_state k ?st c)" by (rule quiet_step[OF quiet_put_same(2)])
  have add: "step_ok c (add_expired k m c')" if "step_ok c c'" for c' m
    by (rule step_ok_trans[OF that quiet_step[OF add_expired_quiet]])
  show ?thesis
    using s1 add[OF s1] put[of "?st\<lparr>gap_since_ns := 0\<rparr>"] put[of "note_gap ?st now"] add[OF put[of "note_gap ?st now"]]
    by (auto simp: sweep_key_def Let_def split: option.splits)
qed

lemma expire_key_step: "step_ok c (expire_key km c)"
proof -
  let ?st = "(get_state (fst km) c)\<lparr>last_epoch := tp_current_epoch_for_hold (lx_tp c)\<rparr>"
  let ?c1 = "put_state (fst km) ?st c"
  let ?c2 = "upd_tp (\<lambda>t. t\<lparr>tp_hold_timeout_skips := u64 (tp_hold_timeout_skips t + 1)\<rparr>) ?c1"
  have "step_ok c ?c1" by (rule step_put_state) (simp add: frontier_def)
  moreover have "step_ok ?c1 ?c2" by (rule quiet_step, rule quiet_upd_tp) simp_all
  moreover have "step_ok ?c2 (record_expiry (client_of_key (fst km)) ?c2)" by (rule quiet_step) simp
  ultimately show ?thesis
    unfolding expire_key_def Let_def using record_fence_step by (blast intro: step_ok_trans)
qed

lemma expiry_sweep_step: "step_ok c (expiry_sweep c)"
proof -
  obtain now t where nt: "SteadyNowNs (lx_tp c) = (now, t)" by (cases "SteadyNowNs (lx_tp c)")
  let ?c1 = "upd_sh (\<lambda>sh. sh\<lparr>sh_expired_keys := []\<rparr>) (upd_tp (\<lambda>_. t) c)"
  have "quiet (upd_tp (\<lambda>_. t) c) ?c1" by (rule quiet_upd_sh) simp_all
  then have s1: "step_ok c ?c1" by (rule quiet_step[OF quiet_trans[OF quiet_SteadyNow[OF nt]]])
  have "step_ok c (fold expire_key es (fold (sweep_key now l) ks ?c1))" for es l ks
    by (rule step_ok_trans[OF s1 step_ok_trans[OF step_ok_fold step_ok_fold]]) (rule sweep_key_step expire_key_step)+
  then show ?thesis unfolding expiry_sweep_def nt Let_def prod.case .
qed

lemma fold_frame: "(\<And>x t. h (f x t) = h t) \<Longrightarrow> h (fold f xs t) = h t"
  by (induction xs arbitrary: t) simp_all

lemma quiet_credit: "quiet c (credit_terminalized c)"
  unfolding credit_terminalized_def
  by (rule quiet_upd_tp; rule fold_frame) (simp_all split: prod.splits)

subsection \<open>The pass\<close>

text \<open>The part of the invariant that is about the shard alone, and what a pass needs of its
  inputs.\<close>

definition shard_ok :: "Level5ShardState \<Rightarrow> bool" where
  "shard_ok sh \<longleftrightarrow>
     (\<forall>k. tracker_ok (om_get EmitTracker_init (sh_emitted sh) k)) \<and>
     (\<forall>k s. IsEmitted (om_get EmitTracker_init (sh_emitted sh) k) s \<longrightarrow>
            s < next_expected (om_get ClientState_init (sh_client_state sh) k)) \<and>
     (\<forall>k cmap. om_find (sh_hold sh) k = Some cmap \<longrightarrow> held_ok k cmap) \<and>
     list_all good_batch (sh_deferred sh)"

definition chain_topic :: "Topic \<Rightarrow> bool" where
  "chain_topic t \<longleftrightarrow> UsesTrueClientChainOrdering (tp_order t) \<and> \<not> tp_bypass_session_fifo t"

definition input_ok :: "PendingBatch5 \<Rightarrow> bool" where
  "input_ok p \<longleftrightarrow> \<not> pb_is_held_marker p \<and> pb_batch_seq p < UINT64_MAX"

definition shard_frontier :: "64 word \<Rightarrow> Level5ShardState \<Rightarrow> nat" where
  "shard_frontier k sh = next_expected (om_get ClientState_init (sh_client_state sh) k)"

lemma inv5_shard: "inv5 c \<longleftrightarrow> chain_topic (lx_tp c) \<and> shard_ok (lx_sh c)"
  by (auto simp: inv5_def chain_topic_def shard_ok_def true_client_chain_def get_emitted_def get_state_def)

lemma frontier_shard: "frontier k c = shard_frontier k (lx_sh c)"
  by (simp add: frontier_def shard_frontier_def get_state_def)

text \<open>The pass up to the garbage collection of idle sessions.\<close>

definition pass_before_gc :: "PendingBatch5 list \<Rightarrow> L5 \<Rightarrow> L5" where
  "pass_before_gc level5 c0 =
     (let (l5, c) = begin_shard_pass level5 c0;
          c1 = fold process_skip (filter pb_skipped l5) c;
          rest = filter (\<lambda>p. \<not> pb_skipped p) l5
      in if fast_path_applies rest c1 then fast_path rest c1
         else let c5 = second_drain (expiry_sweep (first_drain (general_path rest c1)))
              in if tp_capacity_exhausted (lx_tp c5) then c5 else credit_terminalized c5)"

lemma pass_gc_cases:
  fixes sh t l5 r
  defines "x \<equiv> pass_before_gc l5 \<lparr>lx_sh = sh, lx_tp = t, lx_ready = r, lx_delta = []\<rparr>"
  shows "ProcessLevel5BatchesShard sh t l5 r = x \<or> ProcessLevel5BatchesShard sh t l5 r = ClientGc x"
  unfolding ProcessLevel5BatchesShard_def pass_before_gc_def Let_def x_def
  by (cases "begin_shard_pass l5 \<lparr>lx_sh = sh, lx_tp = t, lx_ready = r, lx_delta = []\<rparr>") simp

lemma begin_step:
  assumes "begin_shard_pass l5 c = (l5', c')"
  shows "step_ok c c'" "l5' = l5 @ sh_deferred (lx_sh c)"
  using assms by (auto simp: begin_shard_pass_def clear_backpressured_def Let_def step_ok_def inv5_def adv_def
      true_client_chain_def get_state_def get_emitted_def frontier_def intro!: exI[of _ "[]"])

lemma pass_before_gc_step:
  assumes "list_all input_ok l5"
  shows "step_ok c0 (pass_before_gc l5 c0)"
proof (rule step_if_inv)
  assume inv: "inv5 c0"
  obtain l c where b: "begin_shard_pass l5 c0 = (l, c)" by (cases "begin_shard_pass l5 c0")
  note bs = begin_step[OF b]
  have "list_all good_batch (sh_deferred (lx_sh c0))" using inv by (simp add: inv5_def)
  then have inp: "list_all input_ok l" using assms bs(2) by (auto simp: list_all_iff input_ok_def good_batch_def)
  define c1 where "c1 = fold process_skip (filter pb_skipped l) c"
  define rest where "rest = filter (\<lambda>p. \<not> pb_skipped p) l"
  have "step_ok c c1"
    unfolding c1_def using inp by (intro step_ok_fold process_skip_step) (auto simp: list_all_iff input_ok_def)
  then have s1: "step_ok c0 c1" by (rule step_ok_trans[OF bs(1)])
  have g: "list_all good_batch rest"
    using inp by (auto simp: rest_def list_all_iff input_ok_def good_batch_def)
  define c5 where "c5 = second_drain (expiry_sweep (first_drain (general_path rest c1)))"
  have s5: "step_ok c0 c5"
    unfolding c5_def
    by (rule step_ok_trans[OF s1 step_ok_trans[OF general_path_step[OF g] step_ok_trans[OF drains_step(1)
          step_ok_trans[OF expiry_sweep_step drains_step(2)]]]])
  have eq: "pass_before_gc l5 c0 = (if fast_path_applies rest c1 then fast_path rest c1
      else if tp_capacity_exhausted (lx_tp c5) then c5 else credit_terminalized c5)"
    by (simp add: pass_before_gc_def b c1_def rest_def c5_def Let_def)
  show "step_ok c0 (pass_before_gc l5 c0)"
    unfolding eq
    using s5 step_ok_trans[OF s5 quiet_step[OF quiet_credit]] step_ok_trans[OF s1 fast_path_step[OF g]] by auto
qed

end
