(* ===== verification/Level5Sample.thy ===== *)
theory Level5Sample
  imports Level5State SessionTable
begin

text \<open>An ORDER=5 topic with an empty log, a one-second lease and a clock that ticks in
  microseconds, and batches of a session 1 of client 7 on broker 0.\<close>

definition sample_topic :: Topic where
  "sample_topic = \<lparr>tp_order = 5, tp_replication_factor = 1, tp_session_lease_ns = 1000000000,
     tp_bypass_session_fifo = False, tp_BATCHHEADERS_SIZE = 1280, tp_now = (\<lambda>i. 1000 * (i + 1)), tp_ticks = 0,
     tp_capacity_exhausted = False, tp_stop_threads = False, tp_recovery_complete = True,
     tp_recovered_next_expected = [], tp_recovered_msg_counts = [], tp_recovered_global_seq = 0,
     tp_session_table = Some (\<lambda>_. SessionEntry_empty), tp_headers = (\<lambda>_. BatchHeader_zero),
     tp_offsets = (\<lambda>_. \<lparr>oe_batch_headers_offset = 0, oe_ordered = 0, oe_ordered_offset = 0, oe_consumed_through = 1280\<rparr>),
     tp_cv = (\<lambda>_. \<lparr>cv_completed_pbr_head = UINT64_MAX, cv_sequencer_logical_offset = 0, cv_completed_logical_offset = 0\<rparr>),
     tp_goi = (\<lambda>_. \<lparr>ge_global_seq = 0, ge_batch_id = 0, ge_total_order = 0, ge_broker_id = 0, ge_epoch_sequenced = 0,
       ge_blog_offset = 0, ge_payload_size = 0, ge_message_count = 0, ge_num_replicated = 0, ge_client_id = 0,
       ge_client_seq = 0, ge_pbr_index = 0, ge_cumulative_message_count = 0, ge_session_epoch = 0\<rparr>), tp_committed_seq = UINT64_MAX, tp_global_batch_seq = 0, tp_global_seq = 0,
     tp_export_cursor = (\<lambda>_. None), tp_export_sequence = (\<lambda>_. 0), tp_current_epoch_for_hold = 1,
     tp_total_hold_size = 0, tp_force_expire_hold_until_ns = 0, tp_force_expire_rearm_cooldown_until_ns = 0,
     tp_cached_epoch = 1, tp_control_epoch = 1, tp_last_control_epoch_refresh_ns = 0,
     tp_per_client_ordered = [], tp_per_client_ordered_epoch = [], tp_pending_session_fences = [],
     tp_fifo_violations = 0, tp_hold_timeout_skips = 0, tp_spatial_guard_rejects = 0,
     tp_ack_order_violations = 0, tp_completed_ranges = []\<rparr>"

definition sample_batch :: "nat \<Rightarrow> PendingBatch5" where
  "sample_batch n = PendingBatch5_init\<lparr>pb_client_id := 7, pb_session_epoch := 1, pb_batch_seq := n, pb_num_msg := 10,
     pb_slot_offset := 128 * n, pb_cached_batch_id := 100 + n, pb_cached_pbr_absolute_index := n,
     pb_cached_start_logical_offset := 10 * n\<rparr>"

end
