(* ===== verification/Level5Props.thy ===== *)
theory Level5Props
  imports Level5Fifo Level5Sample
begin

text \<open>
  Properties of the ORDER=5 classifier over whole passes and sequences of passes of a shard:
  per-session FIFO emission without repetition, silence of fenced sessions, and the ACK credit of
  terminalized batches.
\<close>

subsection \<open>Garbage collection\<close>

lemma gc_evict_frame [simp]:
  "lx_ready (gc_evict k c) = lx_ready c" "sh_deferred (lx_sh (gc_evict k c)) = sh_deferred (lx_sh c)"
  "tp_order (lx_tp (gc_evict k c)) = tp_order (lx_tp c)"
  "tp_bypass_session_fifo (lx_tp (gc_evict k c)) = tp_bypass_session_fifo (lx_tp c)"
  "sh_client_state (lx_sh (gc_evict k c)) = om_erase k (sh_client_state (lx_sh c))"
  "sh_emitted (lx_sh (gc_evict k c)) = om_erase k (sh_emitted (lx_sh c))"
  "sh_hold (lx_sh (gc_evict k c)) = om_erase k (sh_hold (lx_sh c))"
  by (simp_all add: gc_evict_def Let_def)

lemma shard_ok_gc_evict:
  assumes "shard_ok (lx_sh c)"
  shows "shard_ok (lx_sh (gc_evict k c))"
proof -
  have "tracker_ok EmitTracker_init" "\<not> IsEmitted EmitTracker_init s" for s
    using assms by (auto simp: EmitTracker_init_def tracker_ok_def IsEmitted_def)
  then show ?thesis
    using assms unfolding shard_ok_def gc_evict_frame om_get_erase om_find_erase
    by (auto split: if_splits)
qed

lemma fold_gc_evict:
  "shard_ok (lx_sh c) \<Longrightarrow> shard_ok (lx_sh (fold gc_evict ks c))"
  "lx_ready (fold gc_evict ks c) = lx_ready c"
  "om_find (sh_client_state (lx_sh (fold gc_evict ks c))) k =
     (if k \<in> set ks then None else om_find (sh_client_state (lx_sh c)) k)"
  by (induction ks arbitrary: c) (auto simp: shard_ok_gc_evict)

lemma ClientGc_frame:
  "shard_ok (lx_sh c) \<Longrightarrow> shard_ok (lx_sh (ClientGc c))" "lx_ready (ClientGc c) = lx_ready c"
  by (simp_all add: ClientGc_def Let_def fold_gc_evict)

lemma ClientGc_kept:
  assumes "om_find (sh_client_state (lx_sh (ClientGc c))) k \<noteq> None"
  shows "shard_frontier k (lx_sh (ClientGc c)) = shard_frontier k (lx_sh c)"
  using assms by (auto simp: ClientGc_def Let_def shard_frontier_def om_get_def fold_gc_evict split: if_splits)

subsection \<open>One pass\<close>

lemma pass_emits:
  fixes r :: "PendingBatch5 list"
  assumes "shard_ok sh" "chain_topic t" "list_all input_ok l5"
  defines "c \<equiv> ProcessLevel5BatchesShard sh t l5 r"
  obtains new where "lx_ready c = r @ new" "sorted_wrt (<) (emits k new)"
    "\<forall>s\<in>set (emits k new). shard_frontier k sh \<le> s"
    "shard_ok (lx_sh c)"
    "om_find (sh_client_state (lx_sh c)) k \<noteq> None \<Longrightarrow>
       (\<forall>s\<in>set (emits k new). s < shard_frontier k (lx_sh c)) \<and> shard_frontier k sh \<le> shard_frontier k (lx_sh c)"
proof -
  let ?c0 = "\<lparr>lx_sh = sh, lx_tp = t, lx_ready = r, lx_delta = []\<rparr>"
  define x where "x = pass_before_gc l5 ?c0"
  have "inv5 ?c0" using assms by (simp add: inv5_shard)
  then have "inv5 x" and adv: "adv k ?c0 x"
    using pass_before_gc_step[OF assms(3), of ?c0] by (auto simp: step_ok_def x_def)
  obtain new where n: "lx_ready x = r @ new" "sorted_wrt (<) (emits k new)"
    "\<forall>s\<in>set (emits k new). shard_frontier k sh \<le> s \<and> s < shard_frontier k (lx_sh x)"
    "shard_frontier k sh \<le> shard_frontier k (lx_sh x)"
    using adv by (auto simp: adv_def frontier_shard)
  have okx: "shard_ok (lx_sh x)" using \<open>inv5 x\<close> by (simp add: inv5_shard)
  have cx: "c = x \<or> c = ClientGc x" unfolding c_def x_def by (rule pass_gc_cases)
  show thesis
  proof (rule that[of new])
    show "lx_ready c = r @ new" using cx n(1) ClientGc_frame(2)[of x] by metis
    show "shard_ok (lx_sh c)" using cx okx ClientGc_frame(1)[of x] by metis
    show "(\<forall>s\<in>set (emits k new). s < shard_frontier k (lx_sh c)) \<and> shard_frontier k sh \<le> shard_frontier k (lx_sh c)"
      if "om_find (sh_client_state (lx_sh c)) k \<noteq> None"
    proof -
      have "shard_frontier k (lx_sh c) = shard_frontier k (lx_sh x)" using cx that ClientGc_kept[of x k] by metis
      then show ?thesis using n(3,4) by simp
    qed
    show "sorted_wrt (<) (emits k new)" by (rule n(2))
    show "\<forall>s\<in>set (emits k new). shard_frontier k sh \<le> s" using n(3) by blast
  qed
qed

subsection \<open>Sequences of passes\<close>

text \<open>A run: the topic state and the batches each pass starts from; the shard is threaded
  through.  \<open>run_ok\<close> says that the topic orders true client chains, that sequences are below the
  sentinel, and that the session under consideration is not garbage collected.\<close>

primrec shard_run :: "Level5ShardState \<Rightarrow> (Topic \<times> PendingBatch5 list) list \<Rightarrow> PendingBatch5 list" where
  "shard_run sh [] = []"
| "shard_run sh (x # xs) =
     (let c = ProcessLevel5BatchesShard sh (fst x) (snd x) [] in lx_ready c @ shard_run (lx_sh c) xs)"

primrec run_ok :: "64 word \<Rightarrow> Level5ShardState \<Rightarrow> (Topic \<times> PendingBatch5 list) list \<Rightarrow> bool" where
  "run_ok k sh [] \<longleftrightarrow> True"
| "run_ok k sh (x # xs) \<longleftrightarrow>
     (let c = ProcessLevel5BatchesShard sh (fst x) (snd x) []
      in chain_topic (fst x) \<and> list_all input_ok (snd x) \<and>
         (om_find (sh_client_state (lx_sh c)) k \<noteq> None \<or> emits k (lx_ready c) = [] \<and> shard_frontier k sh = 0) \<and>
         run_ok k (lx_sh c) xs)"

lemma shard_run_ascending:
  "shard_ok sh \<Longrightarrow> run_ok k sh xs \<Longrightarrow>
   sorted_wrt (<) (emits k (shard_run sh xs)) \<and> (\<forall>s\<in>set (emits k (shard_run sh xs)). shard_frontier k sh \<le> s)"
proof (induction xs arbitrary: sh)
  case (Cons x xs)
  define c where "c = ProcessLevel5BatchesShard sh (fst x) (snd x) []"
  have pre: "chain_topic (fst x)" "list_all input_ok (snd x)" "run_ok k (lx_sh c) xs"
    and kept: "om_find (sh_client_state (lx_sh c)) k \<noteq> None \<or> emits k (lx_ready c) = [] \<and> shard_frontier k sh = 0"
    using Cons.prems(2) by (simp_all add: c_def Let_def)
  obtain new where n: "lx_ready c = [] @ new" "sorted_wrt (<) (emits k new)"
    "\<forall>s\<in>set (emits k new). shard_frontier k sh \<le> s" "shard_ok (lx_sh c)"
    "om_find (sh_client_state (lx_sh c)) k \<noteq> None \<Longrightarrow>
       (\<forall>s\<in>set (emits k new). s < shard_frontier k (lx_sh c)) \<and> shard_frontier k sh \<le> shard_frontier k (lx_sh c)"
    using pass_emits[OF Cons.prems(1) pre(1,2), of "[]" k] unfolding c_def[symmetric] by metis
  note ih = Cons.IH[OF n(4) pre(3)]
  have run: "shard_run sh (x # xs) = new @ shard_run (lx_sh c) xs" using n(1) by (simp add: c_def Let_def)
  from kept show ?case
  proof
    assume "om_find (sh_client_state (lx_sh c)) k \<noteq> None"
    from n(5)[OF this] show ?thesis
      unfolding run using n(2,3) ih by (fastforce simp: sorted_wrt_append)
  next
    assume "emits k (lx_ready c) = [] \<and> shard_frontier k sh = 0"
    then show ?thesis unfolding run using n(1) ih by simp
  qed
qed simp

lemma shard_ok_init: "shard_ok Level5ShardState_init"
  by (simp add: shard_ok_def Level5ShardState_init_def om_get_def EmitTracker_init_def tracker_ok_def IsEmitted_def)

subsection \<open>Evaluation\<close>

lemma dd_probe_num:
  "dd_probe tbl b idx (numeral n) None =
     (if tbl idx = b then Inl () else if tbl idx = DD_EMPTY then Inr (Some idx)
      else dd_probe tbl b ((idx + 1) mod DD_TABLE_SIZE) (pred_numeral n) (if tbl idx = DD_TOMBSTONE then Some idx else None))"
  by (simp add: numeral_eq_Suc Let_def)

lemma empty_lookup: "session_lookup (Some (\<lambda>_. SessionEntry_empty)) k = None"
proof -
  have "find_probe (\<lambda>_. SessionEntry_empty) kMaxSessions k s p n = None" if "k \<noteq> 0" for s p n
    using that by (cases n) (auto simp: SessionEntry_empty_def Let_def)
  then show ?thesis by (simp add: session_lookup_def FindSessionEntry_def)
qed

text \<open>The equations that evaluate a pass on a concrete input.\<close>

lemmas eval5 =
  UINT64_MAX_def UINT32_MAX_def u64_def u32_def sub64_def om_find_def om_erase_def kClientWindowSize_def
  ClientState_init_def is_duplicate_def mark_sequenced_def advance_next_expected_def set_next_expected_def
  note_gap_def fence_def HasCommittedPrefix_def CanFenceSessionEpoch_def ShouldFenceSessionGap_def
  kForceExpireShortLeaseNs_def EffectiveOrder5SessionFenceLeaseNs_def ShouldClearSessionGapFromHeldMax_def
  Order5SlotMatches_def RecoveredNextExpected_def ReconnectAnswerHwm2_def ReconnectAnswerHwm_def
  ShouldTerminalFenceAckRelay_def ShouldWithholdAckRelay_def ShouldRejectOrder5SpatialGuard_def
  EmitTracker_init_def IsEmitted_def MarkEmitted_def MakeSessionKey_def SessionKeyFor_def Mix64_def
  broker16_def MakeClientBrokerStreamKey_def kSessionEntryFlagFenced_def kSessionEntryFlagActive_def
  kMaxSessions_def session_start_def FindOrClaimSession_def SessionClaimNeedsFlush_def no_interference_def
  FindOrCreateSessionEntry_def TryAdmitSession_def StoreSessionMaximum_def MergeSessionStateWord_def
  MergeSessionState_def merge_entry_def PublishSessionEntry_def entry_fenced_def entry_active_def
  probe_dist_def session_fresh_def DD_TABLE_SIZE_def DD_RING_SIZE_def DD_MAX_PROBES_def DD_EMPTY_def
  DD_TOMBSTONE_def Dedup_init_def set_skip_def hash64_def dd_evict_oldest_def check_and_insert_def
  NUM_MAX_BROKERS_def valid_broker_def SIZE_MAX_def sizeof_BatchHeader_def kBatchHeaderFlagClaimed_def
  kBatchHeaderFlagValid_def kBatchHeaderFlagRetired_def kBatchHeaderPublishUncommitted_def
  BatchHeader_zero_def BatchHeaderPublishCommitted_def BatchHeaderClaimOwnedBy_def
  ClearOrder5PublishState_def HoldBatchMetadata_init_def PendingBatch5_init_def ClientPressureStats_init_def
  Level5ShardState_init_def kHoldBufferMaxEntries_def kClientTtlEpochs_def kClientGcEpochInterval_def
  kDeferredL5MaxEntries_def SteadyNowNs_def om_get_def UsesTrueClientChainOrdering_def
  StopForCapacityExhaustion_def CurrentControlEpoch_def GetClientOrdered_def
  PublishSessionFenceNotification_def TakeSessionFenceNotification_def InvalidateOrder5HeldSlot_def
  RetireOrder5HeldSlotAndAdvance_def sample_topic_def sample_batch_def upd_sh_def upd_tp_def push_ready_def
  true_client_chain_def get_state_def put_state_def get_emitted_def put_emitted_def upd_pressure_def
  record_hold_insert_def record_expiry_def record_forced_skip_def record_late_drop_def
  accumulate_logical_only_def CheckAndInsertBatchId_def terminalize_already_emitted_def retire_key_def
  retire_list_def purge_fenced_session_def client_of_key_def notify_fence_def record_fence_def
  hold_meta_of_def held_marker_def classify_ahead_def count_fifo_violation_def terminalize_pending_def
  emit_if_new_def classify_one_def ApplyRecoveredSequencer5State_def merge_durable_entry_def
  ReconstructClientStateFromSessionEntry_def prepared_state_def prepare_stream_def process_skip_def
  session_of_def classify_stream_def classify_group_def fast_path_applies_def fast_path_def general_path_def
  held_emission_def terminalize_held_def retire_held_def drop_hold_count_def drain_entry_def drain_key_def
  drain_all_def first_drain_def second_drain_def add_expired_def sweep_key_def expire_key_def expiry_sweep_def credit_terminalized_def
  gc_evictable_def gc_evict_def ClientGc_def clear_backpressured_def begin_shard_pass_def
  ProcessLevel5BatchesShard_def ProcessLevel5Batches_def InitLevel5Shards_def key_of_def chain_topic_def
  input_ok_def shard_frontier_def
  dd_probe_num empty_lookup slide_window.simps drain_loop.simps

subsection \<open>Per-session FIFO\<close>

text \<open>C3: Per-session FIFO without repetition.  Over any sequence of passes of a shard, whatever
  the topic state and the batches (out of order, duplicated, skip markers, batches held, deferred
  or expired in between), the batches of one session that reach the commit stage have strictly
  increasing client sequence numbers, starting at or above the session's frontier, as long as the
  session is not garbage collected.\<close>

theorem session_emission_is_fifo:
  assumes "shard_ok sh" "run_ok k sh xs"
  shows "sorted_wrt (<) (emits k (shard_run sh xs)) \<and>
         (\<forall>s\<in>set (emits k (shard_run sh xs)). shard_frontier k sh \<le> s)"
  by (rule shard_run_ascending[OF assms])

definition sample_run :: "(Topic \<times> PendingBatch5 list) list" where
  "sample_run = [(sample_topic, [sample_batch 1]), (sample_topic, [sample_batch 0])]"

theorem session_emission_is_fifo_witness:
  "shard_ok Level5ShardState_init \<and> run_ok (MakeSessionKey 7 1) Level5ShardState_init sample_run \<and>
   emits (MakeSessionKey 7 1) (shard_run Level5ShardState_init sample_run) = [0, 1] \<and>
   sorted_wrt (<) (emits (MakeSessionKey 7 1) (shard_run Level5ShardState_init sample_run))"
proof -
  have r: "run_ok (MakeSessionKey 7 1) Level5ShardState_init sample_run"
    by (simp add: sample_run_def eval5 emits_def is_emission_def Let_def cong: if_weak_cong let_weak_cong)
  have "emits (MakeSessionKey 7 1) (shard_run Level5ShardState_init sample_run) = [0, 1]"
    by (simp add: sample_run_def eval5 emits_def is_emission_def Let_def cong: if_weak_cong let_weak_cong)
  then show ?thesis using session_emission_is_fifo[OF shard_ok_init r] r shard_ok_init by blast
qed

end
