(* ===== verification/Reservation.thy ===== *)
theory Reservation
  imports Prelude
begin

text \<open>
  Bounded reservations of \<open>embarlet/bounded_reservation.h\<close> and their callers in
  \<open>embarlet/topic.cc\<close>: slots of the pending batch ring (PBR) by producers that race on one
  compare-and-swap word while the sequencer retires slots, payload bytes of a log segment with
  rollover, and the GOI and message ranges of a commit.  The PBR reservation is a step relation
  over any number of producers with one shared access per step; a weak compare-and-swap may
  fail spuriously.
\<close>

subsection \<open>PBR slots\<close>

record PBRProducerState =
  next_slot_seq :: nat
  logical_offset :: nat

definition UnwrapPBRConsumed :: "nat \<Rightarrow> nat \<Rightarrow> nat \<Rightarrow> nat" where
  "UnwrapPBRConsumed previous modul slots =
     (if slots < 2 \<or> modul \<ge> slots then previous
      else let old_modulo = previous mod slots;
               delta = (if modul \<ge> old_modulo then modul - old_modulo else slots - old_modulo + modul)
           in if delta > UINT64_MAX - previous then previous else previous + delta)"

text \<open>Where a producer is inside \<open>TryReservePBR\<close>: before the first load, at the top of the
  loop, about to reload, re-sampling after a refresh, at the compare-and-swap, or returned.\<close>

datatype PbrPc =
    Enter
  | Top PBRProducerState
  | Reload
  | Resample PBRProducerState
  | Cas PBRProducerState
  | Reserved nat nat nat
  | Rejected

text \<open>\<open>pbr_state_\<close>, \<open>cached_consumed_seq_\<close>, the shared \<open>batch_headers_consumed_through\<close> offset,
  and the offset a refresh has sampled and not stored yet (\<open>pbr_refresh_busy_\<close> is set while it is
  present).  \<open>rs_retired\<close> and \<open>rs_log\<close> are ghosts: the number of slots the sequencer retired
  and the reservations made.\<close>

record PbrShared =
  rs_state :: PBRProducerState
  rs_consumed :: nat
  rs_through :: nat
  rs_sampled :: "nat option"
  rs_retired :: nat
  rs_log :: "(nat \<times> nat \<times> nat) list"

definition pbr_reserve_step :: "bool \<Rightarrow> nat \<Rightarrow> nat \<Rightarrow> PbrShared \<Rightarrow> PbrPc \<Rightarrow> PbrShared \<times> PbrPc" where
  "pbr_reserve_step spurious slots messages sh pc =
     (case pc of
        Enter \<Rightarrow> (sh, if slots < 2 \<or> messages = 0 then Rejected else Top (rs_state sh))
      | Top current \<Rightarrow>
          let retired = rs_consumed sh
          in (sh, if retired > next_slot_seq current then Reload
                  else if next_slot_seq current - retired \<ge> slots - 1 then Resample current
                  else Cas current)
      | Reload \<Rightarrow> (sh, Top (rs_state sh))
      | Resample current \<Rightarrow>
          let retired = rs_consumed sh
          in (sh, if retired > next_slot_seq current then Reload
                  else if next_slot_seq current - retired \<ge> slots - 1 then Rejected
                  else Cas current)
      | Cas current \<Rightarrow>
          if next_slot_seq current = UINT64_MAX \<or> messages > UINT64_MAX - logical_offset current
          then (sh, Rejected)
          else if \<not> spurious \<and> rs_state sh = current
          then (sh\<lparr>rs_state := \<lparr>next_slot_seq = next_slot_seq current + 1,
                                logical_offset = logical_offset current + messages\<rparr>,
                   rs_log := rs_log sh @ [(next_slot_seq current, logical_offset current, messages)]\<rparr>,
                Reserved (next_slot_seq current mod slots) (next_slot_seq current) (logical_offset current))
          else (sh, Top (rs_state sh))
      | Reserved s a l \<Rightarrow> (sh, pc)
      | Rejected \<Rightarrow> (sh, pc))"

text \<open>\<open>RefreshPBRConsumedThroughCache\<close>: under the busy flag, sample the shared offset, then store
  the unwrapped count.\<close>

definition slot_bytes :: nat where "slot_bytes = 128"

definition refresh_sample :: "PbrShared \<Rightarrow> PbrShared" where
  "refresh_sample sh = (case rs_sampled sh of None \<Rightarrow> sh\<lparr>rs_sampled := Some (rs_through sh)\<rparr> | Some _ \<Rightarrow> sh)"

definition refresh_store :: "nat \<Rightarrow> PbrShared \<Rightarrow> PbrShared" where
  "refresh_store slots sh =
     (case rs_sampled sh of
        None \<Rightarrow> sh
      | Some consumed \<Rightarrow>
          let size = slots * slot_bytes;
              sh' = sh\<lparr>rs_sampled := None\<rparr>
          in if consumed \<le> size \<and> consumed mod slot_bytes = 0 \<and> slots \<ge> 2
             then let modul = (if consumed = size then 0 else consumed div slot_bytes)
                  in sh'\<lparr>rs_consumed := UnwrapPBRConsumed (rs_consumed sh) modul slots\<rparr>
             else sh')"

text \<open>The sequencer retires the oldest outstanding slot and moves the shared offset past it, as
  \<open>RetireOrder5HeldSlotAndAdvance\<close> does.\<close>

definition retire_slot :: "nat \<Rightarrow> PbrShared \<Rightarrow> PbrShared" where
  "retire_slot slots sh =
     (let size = slots * slot_bytes;
          at = (if rs_through sh = size then 0 else rs_through sh);
          nxt = at + slot_bytes
      in sh\<lparr>rs_through := (if nxt \<ge> size then size else nxt), rs_retired := rs_retired sh + 1\<rparr>)"

definition pbr_init :: PbrShared where
  "pbr_init = \<lparr>rs_state = \<lparr>next_slot_seq = 0, logical_offset = 0\<rparr>, rs_consumed = 0, rs_through = 0,
     rs_sampled = None, rs_retired = 0, rs_log = []\<rparr>"

text \<open>Reachable states of a ring of \<open>slots\<close> slots with producers \<open>t\<close>, each about to reserve
  \<open>msgs t\<close> messages; a producer that has returned may start again.\<close>

inductive pbr_reach :: "nat \<Rightarrow> (nat \<Rightarrow> nat) \<Rightarrow> PbrShared \<Rightarrow> (nat \<Rightarrow> PbrPc) \<Rightarrow> bool" for slots msgs where
  init: "pbr_reach slots msgs pbr_init (\<lambda>_. Enter)"
| step: "pbr_reach slots msgs sh pcs \<Longrightarrow> pbr_reserve_step spurious slots (msgs t) sh (pcs t) = (sh', pc') \<Longrightarrow>
         pbr_reach slots msgs sh' (pcs(t := pc'))"
| again: "pbr_reach slots msgs sh pcs \<Longrightarrow> pbr_reach slots msgs sh (pcs(t := Enter))"
| sample: "pbr_reach slots msgs sh pcs \<Longrightarrow> pbr_reach slots msgs (refresh_sample sh) pcs"
| store: "pbr_reach slots msgs sh pcs \<Longrightarrow> pbr_reach slots msgs (refresh_store slots sh) pcs"
| retire: "pbr_reach slots msgs sh pcs \<Longrightarrow> rs_retired sh < next_slot_seq (rs_state sh) \<Longrightarrow>
           pbr_reach slots msgs (retire_slot slots sh) pcs"

subsection \<open>Unwrapping a modulo sample\<close>

lemma mod_add_small: "x < n \<Longrightarrow> d < n \<Longrightarrow> (x + d) mod n = (if x + d < n then x + d else x + d - (n::nat))"
  by (simp add: le_mod_geq)

lemma mod_step:
  fixes a v n :: nat
  assumes "a \<le> v" "v < a + n"
  shows "(if a mod n \<le> v mod n then v mod n - a mod n else n - a mod n + v mod n) = v - a"
proof -
  define d where "d = v - a"
  have v: "v = a + d" "d < n" using assms by (auto simp: d_def)
  have r: "a mod n < n" using v(2) by simp
  have "v mod n = (a mod n + d) mod n" using v(1) by (simp add: mod_add_left_eq)
  also have "\<dots> = (if a mod n + d < n then a mod n + d else a mod n + d - n)"
    by (rule mod_add_small[OF r v(2)])
  finally show ?thesis using r v by (auto split: if_splits)
qed

lemma Unwrap_exact:
  assumes "2 \<le> slots" "prev \<le> v" "v < prev + slots" "v \<le> UINT64_MAX"
  shows "UnwrapPBRConsumed prev (v mod slots) slots = v"
proof -
  have "\<not> (slots < 2 \<or> v mod slots \<ge> slots)" using assms(1) mod_less_divisor[of slots v] by linarith
  moreover have "\<not> v - prev > UINT64_MAX - prev" using assms by linarith
  ultimately show ?thesis
    using mod_step[OF assms(2,3)] assms(2) by (simp add: UnwrapPBRConsumed_def Let_def)
qed

subsection \<open>Invariant of the reservation protocol\<close>

definition through_ok :: "nat \<Rightarrow> nat \<Rightarrow> nat \<Rightarrow> bool" where
  "through_ok slots off v \<longleftrightarrow>
     (if off = slots * slot_bytes then 0 else off) = (v mod slots) * slot_bytes"

definition log_ok :: "PbrShared \<Rightarrow> bool" where
  "log_ok sh \<longleftrightarrow>
     map fst (rs_log sh) = [0..<next_slot_seq (rs_state sh)] \<and>
     map (fst \<circ> snd) (rs_log sh) = starts_from 0 (map (snd \<circ> snd) (rs_log sh)) \<and>
     logical_offset (rs_state sh) = sum_list (map (snd \<circ> snd) (rs_log sh))"

definition pbr_inv :: "nat \<Rightarrow> PbrShared \<Rightarrow> (nat \<Rightarrow> PbrPc) \<Rightarrow> bool" where
  "pbr_inv slots sh pcs \<longleftrightarrow>
     rs_consumed sh \<le> rs_retired sh \<and> rs_retired sh \<le> next_slot_seq (rs_state sh) \<and>
     next_slot_seq (rs_state sh) < rs_consumed sh + slots \<and> next_slot_seq (rs_state sh) \<le> UINT64_MAX \<and>
     through_ok slots (rs_through sh) (rs_retired sh) \<and>
     (\<forall>off. rs_sampled sh = Some off \<longrightarrow>
        (\<exists>v. rs_consumed sh \<le> v \<and> v \<le> rs_retired sh \<and> through_ok slots off v)) \<and>
     (\<forall>t cur. pcs t = Cas cur \<longrightarrow> next_slot_seq cur + 1 < rs_consumed sh + slots) \<and>
     log_ok sh"

lemma pbr_inv_init: "0 < slots \<Longrightarrow> pbr_inv slots pbr_init (\<lambda>_. Enter)"
  by (simp add: pbr_inv_def pbr_init_def through_ok_def slot_bytes_def log_ok_def)

lemma log_ok_snoc:
  assumes "log_ok sh" "rs_state sh = cur"
  shows "log_ok (sh\<lparr>rs_state := \<lparr>next_slot_seq = next_slot_seq cur + 1, logical_offset = logical_offset cur + m\<rparr>,
                    rs_log := rs_log sh @ [(next_slot_seq cur, logical_offset cur, m)]\<rparr>)"
  using assms by (auto simp: log_ok_def starts_from_append)

definition take_slot :: "nat \<Rightarrow> PbrShared \<Rightarrow> PbrShared" where
  "take_slot m sh =
     sh\<lparr>rs_state := \<lparr>next_slot_seq = next_slot_seq (rs_state sh) + 1, logical_offset = logical_offset (rs_state sh) + m\<rparr>,
        rs_log := rs_log sh @ [(next_slot_seq (rs_state sh), logical_offset (rs_state sh), m)]\<rparr>"

lemma pbr_step_cases:
  assumes "pbr_reserve_step sp slots m sh pc = (sh', pc')"
  shows "sh' = sh \<and> (\<forall>cur. pc' = Cas cur \<longrightarrow> pc \<noteq> Cas cur \<longrightarrow>
             rs_consumed sh \<le> next_slot_seq cur \<and> next_slot_seq cur - rs_consumed sh < slots - 1) \<or>
         pc = Cas (rs_state sh) \<and> next_slot_seq (rs_state sh) \<noteq> UINT64_MAX \<and> sh' = take_slot m sh \<and>
         (\<forall>cur. pc' \<noteq> Cas cur)"
proof (cases pc)
  case (Cas cur)
  then show ?thesis using assms by (auto simp: pbr_reserve_step_def take_slot_def split: if_splits)
qed (use assms in \<open>auto simp: pbr_reserve_step_def Let_def not_less not_le split: if_splits\<close>)

lemma pbr_inv_step:
  assumes inv: "pbr_inv slots sh pcs" and sl: "2 \<le> slots"
    and st: "pbr_reserve_step sp slots m sh (pcs t) = (sh', pc')"
  shows "pbr_inv slots sh' (pcs(t := pc'))"
  using pbr_step_cases[OF st]
proof
  assume "sh' = sh \<and> (\<forall>cur. pc' = Cas cur \<longrightarrow> pcs t \<noteq> Cas cur \<longrightarrow>
             rs_consumed sh \<le> next_slot_seq cur \<and> next_slot_seq cur - rs_consumed sh < slots - 1)"
  moreover have "next_slot_seq cur + 1 < rs_consumed sh + slots"
    if "rs_consumed sh \<le> next_slot_seq cur" "next_slot_seq cur - rs_consumed sh < slots - 1" for cur
    using that sl by linarith
  ultimately show ?thesis using inv unfolding pbr_inv_def fun_upd_apply by metis
next
  assume c: "pcs t = Cas (rs_state sh) \<and> next_slot_seq (rs_state sh) \<noteq> UINT64_MAX \<and> sh' = take_slot m sh \<and>
         (\<forall>cur. pc' \<noteq> Cas cur)"
  have "log_ok (take_slot m sh)"
    unfolding take_slot_def using inv by (intro log_ok_snoc) (auto simp: pbr_inv_def)
  moreover have "next_slot_seq (rs_state sh) + 1 < rs_consumed sh + slots" using inv c by (auto simp: pbr_inv_def)
  ultimately show ?thesis using inv c by (auto simp: pbr_inv_def take_slot_def)
qed

lemma pbr_inv_sample: "pbr_inv slots sh pcs \<Longrightarrow> pbr_inv slots (refresh_sample sh) pcs"
  by (auto simp: pbr_inv_def refresh_sample_def log_ok_def split: option.splits)

lemma through_ok_modul:
  assumes "through_ok slots off v" "0 < slots"
  shows "off \<le> slots * slot_bytes \<and> off mod slot_bytes = 0 \<and>
         (if off = slots * slot_bytes then 0 else off div slot_bytes) = v mod slots"
proof -
  have "v mod slots < slots" using assms(2) by simp
  then have "v mod slots * slot_bytes \<le> slots * slot_bytes" by (intro mult_le_mono) auto
  then show ?thesis using assms(1) by (auto simp: through_ok_def slot_bytes_def split: if_splits)
qed

lemma pbr_inv_store:
  assumes inv: "pbr_inv slots sh pcs" and sl: "2 \<le> slots"
  shows "pbr_inv slots (refresh_store slots sh) pcs"
proof (cases "rs_sampled sh")
  case None
  then show ?thesis using inv by (simp add: refresh_store_def)
next
  case (Some off)
  obtain v where v: "rs_consumed sh \<le> v" "v \<le> rs_retired sh" "through_ok slots off v"
    using inv Some by (auto simp: pbr_inv_def)
  have "UnwrapPBRConsumed (rs_consumed sh) (v mod slots) slots = v"
    using inv v by (intro Unwrap_exact[OF sl]) (auto simp: pbr_inv_def)
  then have "refresh_store slots sh = sh\<lparr>rs_sampled := None, rs_consumed := v\<rparr>"
    using Some through_ok_modul[OF v(3)] sl by (simp add: refresh_store_def Let_def)
  then show ?thesis
    using inv v by (force simp: pbr_inv_def log_ok_def)
qed

lemma pbr_inv_retire:
  assumes inv: "pbr_inv slots sh pcs" and sl: "2 \<le> slots" and lt: "rs_retired sh < next_slot_seq (rs_state sh)"
  shows "pbr_inv slots (retire_slot slots sh) pcs"
proof -
  let ?r = "rs_retired sh"
  have at: "(if rs_through sh = slots * slot_bytes then 0 else rs_through sh) = (?r mod slots) * slot_bytes"
    using inv by (simp add: pbr_inv_def through_ok_def)
  have "through_ok slots (if ?r mod slots * slot_bytes + slot_bytes \<ge> slots * slot_bytes then slots * slot_bytes
      else ?r mod slots * slot_bytes + slot_bytes) (?r + 1)"
  proof (cases "Suc (?r mod slots) = slots")
    case True
    then have "Suc ?r mod slots = 0" by (simp add: mod_Suc)
    moreover have "?r mod slots * slot_bytes + slot_bytes = slots * slot_bytes" using True
      by (metis add.commute mult_Suc)
    ultimately show ?thesis by (simp add: through_ok_def)
  next
    case False
    then have "Suc (?r mod slots) < slots" using sl mod_less_divisor[of slots ?r] by linarith
    moreover have "Suc ?r mod slots = Suc (?r mod slots)" using False by (simp add: mod_Suc)
    ultimately show ?thesis by (simp add: through_ok_def slot_bytes_def)
  qed
  then show ?thesis
    using inv lt unfolding pbr_inv_def retire_slot_def Let_def at
    by (auto simp: log_ok_def intro: le_SucI) (meson le_SucI)
qed

lemma pbr_reach_inv:
  assumes "pbr_reach slots msgs sh pcs" "2 \<le> slots"
  shows "pbr_inv slots sh pcs"
  using assms
proof (induction rule: pbr_reach.induct)
  case init
  then show ?case by (simp add: pbr_inv_init)
next
  case (step sh pcs spurious t sh' pc')
  then show ?case by (blast intro: pbr_inv_step)
next
  case (again sh pcs t)
  then show ?case by (auto simp: pbr_inv_def)
qed (blast intro: pbr_inv_sample pbr_inv_store pbr_inv_retire)+

lemma log_nth:
  assumes "log_ok sh" "i < length (rs_log sh)"
  shows "rs_log sh ! i = (i, sum_list (take i (map (snd \<circ> snd) (rs_log sh))), snd (snd (rs_log sh ! i)))"
proof -
  have "map fst (rs_log sh) ! i = [0..<next_slot_seq (rs_state sh)] ! i"
    and len: "length (rs_log sh) = next_slot_seq (rs_state sh)"
    using assms(1) arg_cong[of _ _ length] by (auto simp: log_ok_def dest: arg_cong[of _ _ length])
  then have "fst (rs_log sh ! i) = i" using assms(2) by simp
  moreover have "map (fst \<circ> snd) (rs_log sh) ! i = starts_from 0 (map (snd \<circ> snd) (rs_log sh)) ! i"
    using assms(1) by (simp add: log_ok_def)
  then have "fst (snd (rs_log sh ! i)) = sum_list (take i (map (snd \<circ> snd) (rs_log sh)))"
    using assms(2) by (simp add: nth_starts_from)
  ultimately show ?thesis by (metis prod.collapse)
qed

text \<open>What a producer holds after it returned is the reservation it logged.\<close>

lemma pbr_returned_logged:
  assumes "pbr_reach slots msgs sh pcs" "pcs t = Reserved s a l"
  shows "s = a mod slots \<and> (a, l, msgs t) \<in> set (rs_log sh)"
  using assms
proof (induction arbitrary: t s a l rule: pbr_reach.induct)
  case (step sh pcs spurious u sh' pc')
  have mono: "set (rs_log sh) \<subseteq> set (rs_log sh')"
    using pbr_step_cases[OF step.hyps(2)] by (auto simp: take_slot_def)
  show ?case
  proof (cases "t = u")
    case True
    then have pc: "pc' = Reserved s a l" using step.prems by simp
    show ?thesis
      using step.hyps(2) step.IH[of u s a l] unfolding True pc
      by (cases "pcs u") (auto simp: pbr_reserve_step_def Let_def split: if_splits)
  next
    case False
    then show ?thesis using step.IH[of t s a l] step.prems mono by auto
  qed
qed (auto simp: refresh_sample_def refresh_store_def retire_slot_def Let_def split: option.splits if_splits)

subsection \<open>Properties of PBR reservations\<close>

text \<open>C30: concurrent PBR reservations are consecutive and never collide.  In every interleaving of any number of
  producers, refreshes and retirements, the i-th reservation made has sequence \<open>i\<close> and its messages begin exactly where
  those of the reservations before it end, so the sequences have no gap and the message ranges tile the logical offsets up to
  the producer state's own; every producer that returned holds one of these reservations, for its message count and
  in the ring slot of its sequence.  Two reservations use different ring slots as long as the earlier one is not retired,
  and fewer reservations than slots are outstanding.\<close>

theorem pbr_reservations_disjoint:
  assumes "pbr_reach slots msgs sh pcs" "2 \<le> slots"
  shows "(\<forall>i<length (rs_log sh). \<exists>m. rs_log sh ! i = (i, sum_list (map (snd \<circ> snd) (take i (rs_log sh))), m)) \<and>
         rs_state sh = \<lparr>next_slot_seq = length (rs_log sh), logical_offset = sum_list (map (snd \<circ> snd) (rs_log sh))\<rparr> \<and>
         (\<forall>t s a l. pcs t = Reserved s a l \<longrightarrow> s = a mod slots \<and> (a, l, msgs t) \<in> set (rs_log sh)) \<and>
         (\<forall>a a'. rs_retired sh \<le> a \<and> a < a' \<and> a' < length (rs_log sh) \<longrightarrow> a mod slots \<noteq> a' mod slots) \<and>
         length (rs_log sh) - rs_retired sh < slots"
proof -
  have inv: "pbr_inv slots sh pcs" by (rule pbr_reach_inv[OF assms])
  then have lg: "log_ok sh" by (simp add: pbr_inv_def)
  have nx: "length (rs_log sh) = next_slot_seq (rs_state sh)"
    using lg by (auto simp: log_ok_def dest: arg_cong[of _ _ length])
  have out: "length (rs_log sh) < rs_retired sh + slots" "rs_retired sh \<le> length (rs_log sh)"
    using inv nx by (auto simp: pbr_inv_def)
  have "a mod slots \<noteq> a' mod slots" if "rs_retired sh \<le> a \<and> a < a' \<and> a' < length (rs_log sh)" for a a'
  proof
    assume "a mod slots = a' mod slots"
    then have "slots dvd a' - a" using that by (metis mod_eq_dvd_iff_nat less_imp_le)
    moreover have "0 < a' - a" "a' - a < slots" using that out by auto
    ultimately show False by (auto dest: dvd_imp_le)
  qed
  moreover have "\<exists>m. rs_log sh ! i = (i, sum_list (map (snd \<circ> snd) (take i (rs_log sh))), m)" if "i < length (rs_log sh)" for i
    using log_nth[OF lg that] by (metis take_map)
  moreover have "rs_state sh = \<lparr>next_slot_seq = length (rs_log sh), logical_offset = sum_list (map (snd \<circ> snd) (rs_log sh))\<rparr>"
    using nx lg by (simp add: log_ok_def)
  moreover have "length (rs_log sh) - rs_retired sh < slots" using out by linarith
  ultimately show ?thesis using pbr_returned_logged[OF assms(1)] by blast
qed

lemma pbr_run_two:
  "\<exists>pcs. pbr_reach 2 (\<lambda>_. 5)
     \<lparr>rs_state = \<lparr>next_slot_seq = 2, logical_offset = 10\<rparr>, rs_consumed = 1, rs_through = 128,
      rs_sampled = None, rs_retired = 1, rs_log = [(0, 0, 5), (1, 5, 5)]\<rparr> pcs"
proof -
  let ?s = "\<lambda>n l c th sm r lg. \<lparr>rs_state = \<lparr>next_slot_seq = n, logical_offset = l\<rparr>, rs_consumed = c, rs_through = th,
      rs_sampled = sm, rs_retired = r, rs_log = lg\<rparr>"
  have reserve: "\<exists>pcs'. pbr_reach 2 (\<lambda>_. 5) (?s (n + 1) (l + 5) n th sm r (lg @ [(n, l, 5)])) pcs'"
    if "pbr_reach 2 (\<lambda>_. 5) (?s n l n th sm r lg) pcs" "n < 10" "l < 10" for n l th sm r lg pcs
  proof -
    have 1: "pbr_reach 2 (\<lambda>_. 5) (?s n l n th sm r lg) (pcs(0 := Enter))" by (rule pbr_reach.again[OF that(1)])
    have 2: "pbr_reach 2 (\<lambda>_. 5) (?s n l n th sm r lg) ((pcs(0 := Enter))(0 := Top \<lparr>next_slot_seq = n, logical_offset = l\<rparr>))"
      by (rule pbr_reach.step[OF 1, of False 0]) (simp add: pbr_reserve_step_def)
    have 3: "pbr_reach 2 (\<lambda>_. 5) (?s n l n th sm r lg)
        (((pcs(0 := Enter))(0 := Top \<lparr>next_slot_seq = n, logical_offset = l\<rparr>))(0 := Cas \<lparr>next_slot_seq = n, logical_offset = l\<rparr>))"
      by (rule pbr_reach.step[OF 2, of False 0]) (simp add: pbr_reserve_step_def)
    have "\<not> UINT64_MAX - l < 5" "n \<noteq> UINT64_MAX" using that(2,3) by (simp_all add: UINT64_MAX_def)
    then have "pbr_reserve_step False 2 5 (?s n l n th sm r lg) (Cas \<lparr>next_slot_seq = n, logical_offset = l\<rparr>) =
        (?s (n + 1) (l + 5) n th sm r (lg @ [(n, l, 5)]), Reserved (n mod 2) n l)"
      by (simp add: pbr_reserve_step_def)
    from pbr_reach.step[OF 3, of False 0, unfolded fun_upd_same, OF this] show ?thesis by blast
  qed
  have "pbr_reach 2 (\<lambda>_. 5) (?s 0 0 0 0 None 0 []) (\<lambda>_. Enter)" using pbr_reach.init by (simp add: pbr_init_def)
  from reserve[OF this] obtain p1 where "pbr_reach 2 (\<lambda>_. 5) (?s 1 5 0 0 None 0 [(0, 0, 5)]) p1" by auto
  from pbr_reach.retire[OF this] have "pbr_reach 2 (\<lambda>_. 5) (?s 1 5 0 128 None 1 [(0, 0, 5)]) p1"
    by (simp add: retire_slot_def slot_bytes_def)
  from pbr_reach.sample[OF this] have "pbr_reach 2 (\<lambda>_. 5) (?s 1 5 0 128 (Some 128) 1 [(0, 0, 5)]) p1"
    by (simp add: refresh_sample_def)
  from pbr_reach.store[OF this] have "pbr_reach 2 (\<lambda>_. 5) (?s 1 5 1 128 None 1 [(0, 0, 5)]) p1"
    by (simp add: refresh_store_def slot_bytes_def UnwrapPBRConsumed_def UINT64_MAX_def)
  from reserve[OF this] show ?thesis by (auto simp: numeral_2_eq_2)
qed

lemma pbr_reservations_disjoint_witness:
  "\<exists>sh pcs. pbr_reach 2 (\<lambda>_. 5) sh pcs \<and> rs_log sh = [(0, 0, 5), (1, 5, 5)] \<and>
     rs_state sh = \<lparr>next_slot_seq = 2, logical_offset = 10\<rparr> \<and> length (rs_log sh) - rs_retired sh < 2"
proof -
  obtain pcs where r: "pbr_reach 2 (\<lambda>_. 5)
     \<lparr>rs_state = \<lparr>next_slot_seq = 2, logical_offset = 10\<rparr>, rs_consumed = 1, rs_through = 128,
      rs_sampled = None, rs_retired = 1, rs_log = [(0, 0, 5), (1, 5, 5)]\<rparr> pcs"
    using pbr_run_two by blast
  from pbr_reservations_disjoint[OF r] r show ?thesis by fastforce
qed

end
