(* ===== verification/SegmentLog.thy ===== *)
theory SegmentLog
  imports OrdMap
begin

text \<open>
  Allocation in the broker log: bytes of the current segment, rollover to a fresh segment, the
  fail-closed entry point with its epoch check, and the location of externally assigned payloads
  (\<open>embarlet/bounded_reservation.h\<close>, \<open>embarlet/topic.cc\<close>).  Addresses are numbers, 0 the null
  pointer.  A reservation takes effect at its successful compare-and-swap, and a rollover runs
  under its mutex with the cursor frozen at 0, so concurrent calls act as a sequence of the
  operations below.
\<close>

record BLog =
  bl_segment :: nat
  bl_cursor :: nat
  bl_exhausted :: bool
  bl_header :: "nat \<Rightarrow> nat \<Rightarrow> nat"
  bl_id_counter :: nat
  bl_generation :: nat
  bl_retired :: "nat list"
  bl_supply :: "nat list"
  bl_broker_epoch :: nat
  bl_control_epoch :: nat
  bl_epoch_checks :: nat
  bl_last_checked_epoch :: nat

definition TryReserveSegmentBytes :: "nat \<Rightarrow> nat \<Rightarrow> nat \<Rightarrow> nat \<Rightarrow> (nat \<times> nat) option" where
  "TryReserveSegmentBytes cursor segment extent bytes =
     (if segment = 0 \<or> extent \<le> 64 \<or> bytes = 0 \<or> bytes > extent - 64 \<or> segment > UINT64_MAX - extent then None
      else if cursor < segment + 64 \<or> cursor > segment + extent \<or> bytes > segment + extent - cursor then None
      else Some (cursor, cursor + bytes))"

datatype InitResult = Throws | Returns nat

datatype RolloverResult = Rethrown | NoRollover | Available

definition TryRolloverSegment ::
  "nat \<Rightarrow> nat \<Rightarrow> (nat \<Rightarrow> nat \<Rightarrow> BLog \<Rightarrow> InitResult \<times> BLog) \<Rightarrow> BLog \<Rightarrow> RolloverResult \<times> BLog" where
  "TryRolloverSegment extent bytes initialize bl =
     (let base = bl_segment bl; current = bl_cursor bl
      in if base = 0 \<or> extent \<le> 64 \<or> bytes = 0 \<or> bytes > extent - 64 \<or> base > UINT64_MAX - extent then (NoRollover, bl)
         else if current < base + 64 \<or> current > base + extent then (NoRollover, bl)
         else if bytes \<le> base + extent - current then (Available, bl)
         else case initialize base current (bl\<lparr>bl_cursor := 0\<rparr>) of
           (Throws, bl1) \<Rightarrow> (Rethrown, bl1\<lparr>bl_cursor := current\<rparr>)
         | (Returns nxt, bl1) \<Rightarrow>
             if nxt = 0 \<or> nxt = base \<or> nxt mod extent \<noteq> base mod extent \<or> nxt > UINT64_MAX - extent
             then (NoRollover, bl1\<lparr>bl_cursor := current\<rparr>)
             else (Available, bl1\<lparr>bl_segment := nxt, bl_cursor := nxt + 64\<rparr>))"

text \<open>\<open>get_new_segment_callback_\<close> hands out the addresses of \<open>bl_supply\<close>, then null.\<close>

definition get_new_segment :: "BLog \<Rightarrow> nat \<times> BLog" where
  "get_new_segment bl = (case bl_supply bl of [] \<Rightarrow> (0, bl) | s # ss \<Rightarrow> (s, bl\<lparr>bl_supply := ss\<rparr>))"

definition init_segment :: "nat \<Rightarrow> nat \<Rightarrow> nat \<Rightarrow> BLog \<Rightarrow> InitResult \<times> BLog" where
  "init_segment cxl_addr old cursor bl =
     (case get_new_segment bl of (nxt, bl1) \<Rightarrow>
        if nxt = 0 then (Returns 0, bl1)
        else let h = (bl_header bl1)(old := (bl_header bl1 old)(0 := sub64 cursor old));
                 ident = u64 (bl_id_counter bl1 + 1); gen = u64 (bl_generation bl1 + 1);
                 h' = h(nxt := (h nxt)(0 := 0, 1 := ident, 2 := gen,
                                        3 := (if cxl_addr \<noteq> 0 then sub64 old cxl_addr else 0)))
             in (Returns nxt, bl1\<lparr>bl_header := h', bl_id_counter := ident, bl_generation := gen,
                                   bl_retired := bl_retired bl1 @ [old]\<rparr>))"

definition CheckSegmentBoundary :: "nat \<Rightarrow> nat \<Rightarrow> nat \<Rightarrow> BLog \<Rightarrow> bool \<times> BLog" where
  "CheckSegmentBoundary cxl_addr extent msgSize bl =
     (if msgSize = 0 \<or> extent \<le> 64 \<or> msgSize > extent - 64 then (False, bl)
      else case TryRolloverSegment extent msgSize (init_segment cxl_addr) bl of
        (Available, bl1) \<Rightarrow> (True, bl1)
      | (_, bl1) \<Rightarrow> (False, bl1\<lparr>bl_exhausted := True\<rparr>))"

definition RefreshBrokerEpochFromCXL :: "bool \<Rightarrow> BLog \<Rightarrow> (nat \<times> bool) \<times> BLog" where
  "RefreshBrokerEpochFromCXL force_full_read bl =
     (if \<not> force_full_read then ((bl_broker_epoch bl, False), bl)
      else let current = bl_control_epoch bl; was_stale = (current > bl_broker_epoch bl)
           in ((current, was_stale), if was_stale then bl\<lparr>bl_broker_epoch := current\<rparr> else bl))"

definition kEpochCheckInterval :: nat where "kEpochCheckInterval = 100"

definition periodic_epoch_check :: "BLog \<Rightarrow> (nat \<times> bool) \<times> BLog" where
  "periodic_epoch_check bl =
     (let n = bl_epoch_checks bl
      in RefreshBrokerEpochFromCXL (n mod kEpochCheckInterval = 0) (bl\<lparr>bl_epoch_checks := u64 (n + 1)\<rparr>))"

definition CheckEpochOnce :: "BLog \<Rightarrow> bool \<times> BLog" where
  "CheckEpochOnce bl =
     (case periodic_epoch_check bl of ((current, was_stale), bl1) \<Rightarrow> (was_stale, bl1\<lparr>bl_last_checked_epoch := current\<rparr>))"

fun reserve_retry :: "nat \<Rightarrow> nat \<Rightarrow> nat \<Rightarrow> nat \<Rightarrow> BLog \<Rightarrow> nat option \<times> BLog" where
  "reserve_retry cxl_addr extent sz 0 bl = (None, bl)"
| "reserve_retry cxl_addr extent sz (Suc n) bl =
     (case TryReserveSegmentBytes (bl_cursor bl) (bl_segment bl) extent sz of
        Some (result, cursor') \<Rightarrow> (Some result, bl\<lparr>bl_cursor := cursor'\<rparr>)
      | None \<Rightarrow> (case CheckSegmentBoundary cxl_addr extent sz bl of
                   (False, bl1) \<Rightarrow> (None, bl1)
                 | (True, bl1) \<Rightarrow> reserve_retry cxl_addr extent sz n bl1))"

definition TryReserveBLogSpaceFailClosed :: "nat \<Rightarrow> nat \<Rightarrow> nat \<Rightarrow> bool \<Rightarrow> BLog \<Rightarrow> nat option \<times> BLog" where
  "TryReserveBLogSpaceFailClosed cxl_addr extent sz epoch_already_checked bl =
     (let ((_, was_stale), bl1) = (if epoch_already_checked then ((0, False), bl) else periodic_epoch_check bl)
      in if was_stale then (None, bl1)
         else if bl_exhausted bl1 \<or> sz = 0 \<or> extent \<le> 64 \<or> sz > extent - 64 then (None, bl1)
         else reserve_retry cxl_addr extent sz 64 bl1)"

definition SegmentForAddress :: "nat \<Rightarrow> nat \<Rightarrow> nat \<Rightarrow> nat" where
  "SegmentForAddress initial_base extent addr =
     (let remainder = (if addr \<ge> initial_base then (addr - initial_base) mod extent
                       else (extent - (initial_base - addr) mod extent) mod extent)
      in addr - remainder)"

definition LocateAssignedPayload :: "nat \<Rightarrow> nat \<Rightarrow> nat \<Rightarrow> nat \<Rightarrow> nat \<Rightarrow> nat option" where
  "LocateAssignedPayload segment first_payload extent offset bytes =
     (if segment = 0 \<or> first_payload < segment \<or> bytes = 0 \<or> segment > UINT64_MAX - extent then None
      else let header = first_payload - segment
           in if header \<ge> extent \<or> offset > extent - header \<or> bytes > extent - header - offset then None
              else Some (first_payload + offset))"

definition TryReserveCommitRanges :: "nat \<Rightarrow> nat \<Rightarrow> nat \<Rightarrow> nat \<Rightarrow> nat \<Rightarrow> (nat \<times> nat) option" where
  "TryReserveCommitRanges g m capacity batches cnt =
     (if g > capacity \<or> batches > capacity - g \<or> cnt > UINT64_MAX - m then None
      else Some (g + batches, m + cnt))"

subsection \<open>Reserved ranges\<close>

definition ranges_disjoint :: "(nat \<times> nat) list \<Rightarrow> bool" where
  "ranges_disjoint rs \<longleftrightarrow> (\<forall>i j. i < j \<longrightarrow> j < length rs \<longrightarrow>
     fst (rs ! i) + snd (rs ! i) \<le> fst (rs ! j) \<or> fst (rs ! j) + snd (rs ! j) \<le> fst (rs ! i))"

definition apart :: "nat \<Rightarrow> nat set \<Rightarrow> bool" where
  "apart extent S \<longleftrightarrow> (\<forall>s\<in>S. \<forall>s'\<in>S. s \<noteq> s' \<longrightarrow> s + extent \<le> s' \<or> s' + extent \<le> s)"

text \<open>A run of reservation requests (size and whether the epoch was checked by the caller), with
  the ranges granted.\<close>

fun blog_run :: "nat \<Rightarrow> nat \<Rightarrow> (nat \<times> bool) list \<Rightarrow> BLog \<Rightarrow> (nat \<times> nat) list \<times> BLog" where
  "blog_run cxl_addr extent [] bl = ([], bl)"
| "blog_run cxl_addr extent ((sz, checked) # reqs) bl =
     (case TryReserveBLogSpaceFailClosed cxl_addr extent sz checked bl of
        (r, bl1) \<Rightarrow> (case blog_run cxl_addr extent reqs bl1 of
          (gs, bl2) \<Rightarrow> (case r of None \<Rightarrow> gs | Some a \<Rightarrow> (a, sz) # gs, bl2)))"

definition grants_ok :: "nat \<Rightarrow> nat set \<Rightarrow> (nat \<times> nat) list \<Rightarrow> BLog \<Rightarrow> bool" where
  "grants_ok extent S gs bl \<longleftrightarrow>
     bl_segment bl \<in> S \<and> set (bl_supply bl) \<subseteq> S \<and> distinct (bl_supply bl) \<and>
     bl_segment bl \<notin> set (bl_supply bl) \<and>
     (\<forall>(a, n)\<in>set gs. \<exists>s\<in>S. s \<notin> set (bl_supply bl) \<and> s + 64 \<le> a \<and> a + n \<le> s + extent \<and>
        (s = bl_segment bl \<longrightarrow> a + n \<le> bl_cursor bl)) \<and>
     ranges_disjoint gs"

lemma ranges_disjoint_snoc:
  assumes "ranges_disjoint gs" "\<forall>(b, m)\<in>set gs. b + m \<le> a \<or> a + n \<le> b"
  shows "ranges_disjoint (gs @ [(a, n)])"
  unfolding ranges_disjoint_def
proof (intro allI impI)
  fix i j assume ij: "i < j" "j < length (gs @ [(a, n)])"
  show "fst ((gs @ [(a, n)]) ! i) + snd ((gs @ [(a, n)]) ! i) \<le> fst ((gs @ [(a, n)]) ! j) \<or>
        fst ((gs @ [(a, n)]) ! j) + snd ((gs @ [(a, n)]) ! j) \<le> fst ((gs @ [(a, n)]) ! i)"
  proof (cases "j < length gs")
    case True
    then show ?thesis using assms(1) ij by (auto simp: ranges_disjoint_def nth_append)
  next
    case False
    then have "j = length gs" "i < length gs" using ij by auto
    moreover from this have "(fst (gs ! i), snd (gs ! i)) \<in> set gs" by simp
    then have "fst (gs ! i) + snd (gs ! i) \<le> a \<or> a + n \<le> fst (gs ! i)" using assms(2) by blast
    ultimately show ?thesis by (simp add: nth_append)
  qed
qed

lemma reserve_grants:
  assumes ok: "grants_ok extent S gs bl" and ap: "apart extent S"
    and r: "TryReserveSegmentBytes (bl_cursor bl) (bl_segment bl) extent sz = Some (a, c)"
  shows "grants_ok extent S (gs @ [(a, sz)]) (bl\<lparr>bl_cursor := c\<rparr>)"
proof -
  have a: "a = bl_cursor bl" "c = a + sz" "bl_segment bl + 64 \<le> a" "a + sz \<le> bl_segment bl + extent"
    using r by (auto simp: TryReserveSegmentBytes_def split: if_splits)
  have "b + m \<le> a \<or> a + sz \<le> b" if g: "(b, m) \<in> set gs" for b m
  proof -
    obtain s where s: "s \<in> S" "s + 64 \<le> b" "b + m \<le> s + extent" "s = bl_segment bl \<longrightarrow> b + m \<le> bl_cursor bl"
      using ok g by (auto simp: grants_ok_def)
    show ?thesis
    proof (cases "s = bl_segment bl")
      case False
      then have "s + extent \<le> bl_segment bl \<or> bl_segment bl + extent \<le> s"
        using ap ok s(1) by (auto simp: apart_def grants_ok_def)
      then show ?thesis using s a by linarith
    qed (use s a in simp)
  qed
  then have "ranges_disjoint (gs @ [(a, sz)])"
    using ok by (intro ranges_disjoint_snoc) (auto simp: grants_ok_def)
  moreover have "\<exists>s\<in>S. s \<notin> set (bl_supply bl) \<and> s + 64 \<le> b \<and> b + m \<le> s + extent \<and> (s = bl_segment bl \<longrightarrow> b + m \<le> c)"
    if g: "(b, m) \<in> set (gs @ [(a, sz)])" for b m
    using g ok a by (fastforce simp: grants_ok_def)
  ultimately show ?thesis using ok by (auto simp: grants_ok_def)
qed

lemma rollover_grants:
  assumes ok: "grants_ok extent S gs bl"
    and r: "CheckSegmentBoundary cxl extent sz bl = (b, bl')"
  shows "grants_ok extent S gs bl'"
proof -
  have keep: "grants_ok extent S gs (bl2\<lparr>bl_exhausted := e\<rparr>) \<longleftrightarrow> grants_ok extent S gs bl2" for bl2 e
    by (simp add: grants_ok_def)
  have drop: "grants_ok extent S gs bl2" if "bl_segment bl2 = bl_segment bl" "bl_cursor bl2 = bl_cursor bl"
    "bl_supply bl2 = tl (bl_supply bl)" for bl2
  proof -
    have "set (tl (bl_supply bl)) \<subseteq> set (bl_supply bl)" by (cases "bl_supply bl") auto
    then show ?thesis using ok that by (fastforce simp: grants_ok_def distinct_tl)
  qed
  have move: "grants_ok extent S gs bl2" if "bl_supply bl = n # ss" "bl_segment bl2 = n" "bl_supply bl2 = ss" for bl2 n ss
    using ok that by (fastforce simp: grants_ok_def)
  show ?thesis
    using r ok drop move unfolding CheckSegmentBoundary_def TryRolloverSegment_def init_segment_def get_new_segment_def Let_def
    by (auto simp: keep split: if_splits list.splits)
qed

lemma retry_grants:
  assumes "grants_ok extent S gs bl" "apart extent S" "reserve_retry cxl extent sz n bl = (r, bl')"
  shows "grants_ok extent S (gs @ (case r of None \<Rightarrow> [] | Some a \<Rightarrow> [(a, sz)])) bl'"
  using assms
proof (induction n arbitrary: bl)
  case (Suc n)
  show ?case
  proof (cases "TryReserveSegmentBytes (bl_cursor bl) (bl_segment bl) extent sz")
    case None
    obtain b bl1 where c: "CheckSegmentBoundary cxl extent sz bl = (b, bl1)"
      by (cases "CheckSegmentBoundary cxl extent sz bl")
    note g = rollover_grants[OF Suc.prems(1) c]
    show ?thesis
    proof (cases b)
      case True
      then show ?thesis using Suc.IH[OF g Suc.prems(2)] Suc.prems(3) None c by simp
    next
      case False
      then show ?thesis using g Suc.prems(3) None c by auto
    qed
  next
    case (Some x)
    then show ?thesis
      using Suc.prems reserve_grants[OF Suc.prems(1,2)] by (cases x) auto
  qed
qed simp

lemma epoch_grants:
  "periodic_epoch_check bl = (x, bl') \<Longrightarrow> grants_ok extent S gs bl \<Longrightarrow> grants_ok extent S gs bl'"
  by (auto simp: periodic_epoch_check_def RefreshBrokerEpochFromCXL_def grants_ok_def Let_def split: if_splits)

lemma reserve_blog_grants:
  assumes "grants_ok extent S gs bl" "apart extent S"
    "TryReserveBLogSpaceFailClosed cxl extent sz checked bl = (r, bl')"
  shows "grants_ok extent S (gs @ (case r of None \<Rightarrow> [] | Some a \<Rightarrow> [(a, sz)])) bl'"
proof -
  obtain e stale bl1 where e: "(if checked then ((0, False), bl) else periodic_epoch_check bl) = ((e, stale), bl1)"
    by (metis prod.exhaust)
  have g: "grants_ok extent S gs bl1"
    using e assms(1) epoch_grants[of bl "(e, stale)" bl1] by (auto split: if_splits)
  show ?thesis
    using assms(3) g retry_grants[OF g assms(2)] unfolding TryReserveBLogSpaceFailClosed_def e Let_def
    by (auto split: if_splits)
qed

lemma blog_run_grants:
  "grants_ok extent S gs bl \<Longrightarrow> apart extent S \<Longrightarrow> blog_run cxl extent reqs bl = (rs, bl') \<Longrightarrow>
   grants_ok extent S (gs @ rs) bl'"
proof (induction reqs arbitrary: gs bl rs bl')
  case (Cons q reqs)
  obtain sz checked where q: "q = (sz, checked)" by (cases q)
  obtain r bl1 where r: "TryReserveBLogSpaceFailClosed cxl extent sz checked bl = (r, bl1)"
    by (cases "TryReserveBLogSpaceFailClosed cxl extent sz checked bl")
  obtain rs1 bl2 where rs1: "blog_run cxl extent reqs bl1 = (rs1, bl2)" by (cases "blog_run cxl extent reqs bl1")
  from Cons.IH[OF reserve_blog_grants[OF Cons.prems(1,2) r] Cons.prems(2) rs1] Cons.prems(3)
  show ?case by (cases r) (auto simp: q r rs1)
qed simp

text \<open>C31: log space is handed out once.  Over any run of reservations with rollovers and failed
  rollovers, provided the segments handed out are distinct and do not overlap, every granted
  range lies in one segment behind its 64-byte header, and no two granted ranges overlap.\<close>

theorem blog_reservations_disjoint:
  assumes "apart extent (insert (bl_segment bl) (set (bl_supply bl)))"
    and "distinct (bl_segment bl # bl_supply bl)"
    and "blog_run cxl_addr extent reqs bl = (gs, bl')"
  shows "ranges_disjoint gs \<and>
         (\<forall>(a, n)\<in>set gs. \<exists>s\<in>insert (bl_segment bl) (set (bl_supply bl)). s + 64 \<le> a \<and> a + n \<le> s + extent)"
proof -
  have "grants_ok extent (insert (bl_segment bl) (set (bl_supply bl))) [] bl"
    using assms(2) by (auto simp: grants_ok_def ranges_disjoint_def)
  from blog_run_grants[OF this assms(1,3)] show ?thesis unfolding grants_ok_def append_Nil by blast
qed

definition sample_blog :: BLog where
  "sample_blog = \<lparr>bl_segment = 4096, bl_cursor = 4160, bl_exhausted = False, bl_header = (\<lambda>_ _. 0), bl_id_counter = 0,
     bl_generation = 0, bl_retired = [], bl_supply = [8192], bl_broker_epoch = 1, bl_control_epoch = 1,
     bl_epoch_checks = 0, bl_last_checked_epoch = 0\<rparr>"

lemma reserve_retry_num:
  "reserve_retry cxl extent sz (numeral n) bl =
     (case TryReserveSegmentBytes (bl_cursor bl) (bl_segment bl) extent sz of
        Some (result, cursor') \<Rightarrow> (Some result, bl\<lparr>bl_cursor := cursor'\<rparr>)
      | None \<Rightarrow> (case CheckSegmentBoundary cxl extent sz bl of
                   (False, bl1) \<Rightarrow> (None, bl1)
                 | (True, bl1) \<Rightarrow> reserve_retry cxl extent sz (pred_numeral n) bl1))"
  by (simp add: numeral_eq_Suc)

lemma blog_reservations_disjoint_witness:
  "fst (blog_run 4096 1024 [(600, True), (500, False), (500, True)] sample_blog) = [(4160, 600), (8256, 500)] \<and>
   ranges_disjoint (fst (blog_run 4096 1024 [(600, True), (500, False), (500, True)] sample_blog))"
proof -
  have e: "fst (blog_run 4096 1024 [(600, True), (500, False), (500, True)] sample_blog) = [(4160, 600), (8256, 500)]"
    by (simp add: sample_blog_def TryReserveBLogSpaceFailClosed_def periodic_epoch_check_def RefreshBrokerEpochFromCXL_def
        reserve_retry_num TryReserveSegmentBytes_def CheckSegmentBoundary_def TryRolloverSegment_def init_segment_def
        get_new_segment_def kEpochCheckInterval_def UINT64_MAX_def u64_def sub64_def Let_def cong: if_weak_cong)
  have "apart 1024 (insert (bl_segment sample_blog) (set (bl_supply sample_blog)))"
    "distinct (bl_segment sample_blog # bl_supply sample_blog)"
    by (simp_all add: apart_def sample_blog_def)
  from blog_reservations_disjoint[OF this surjective_pairing, of 4096 "[(600, True), (500, False), (500, True)]"] e
  show ?thesis by blast
qed

text \<open>The segment of an address.  For every address inside a segment whose base is congruent to
  the first segment's modulo the segment size, before or after it in memory, \<open>SegmentForAddress\<close>
  returns the base of that segment.\<close>

lemma segment_for_address:
  assumes "0 < extent" "s mod extent = base mod extent" "s \<le> addr" "addr < s + extent"
  shows "SegmentForAddress base extent addr = s"
proof -
  define d where "d = addr - s"
  have d: "addr = s + d" "d < extent" using assms by (auto simp: d_def)
  have "(if addr \<ge> base then (addr - base) mod extent else (extent - (base - addr) mod extent) mod extent) = d"
  proof (cases "base \<le> addr")
    case True
    have "(addr - base) mod extent = d"
    proof (cases "base \<le> s")
      case True
      then have "extent dvd s - base" using assms(2) by (metis mod_eq_dvd_iff_nat)
      then obtain q where "s - base = extent * q" by (elim dvdE)
      then have "addr - base = d + extent * q" using d True by simp
      then show ?thesis using d(2) by simp
    next
      case False
      then have "extent dvd base - s" using assms(2) by (metis mod_eq_dvd_iff_nat nat_le_linear)
      moreover have "0 < base - s" "base - s < extent" using False \<open>base \<le> addr\<close> d by auto
      ultimately show ?thesis by (auto dest: dvd_imp_le)
    qed
    then show ?thesis using True by simp
  next
    case False
    then have le: "s \<le> base" using assms(3) by simp
    then have "extent dvd base - s" using assms(2) by (metis mod_eq_dvd_iff_nat)
    then obtain q where q: "base - s = extent * q" by (elim dvdE)
    have "base - addr = extent * q - d" "d < extent * q" using False d q le by auto
    then obtain q' where q': "q = Suc q'" by (cases q) auto
    have "base - addr = extent * q' + (extent - d)" using \<open>base - addr = extent * q - d\<close> q' d(2) by simp
    then have m: "(base - addr) mod extent = (extent - d) mod extent" by simp
    show ?thesis
    proof (cases "d = 0")
      case True
      then show ?thesis using m False by simp
    next
      case False
      then have "(extent - d) mod extent = extent - d" using assms(1) by simp
      then show ?thesis using m d(2) \<open>\<not> base \<le> addr\<close> by simp
    qed
  qed
  then show ?thesis unfolding SegmentForAddress_def Let_def using d(1) by simp
qed

end
