(* ===== verification/PbrPublish.thy ===== *)
theory PbrPublish
  imports Reservation SegmentLog Level5State
begin

unbundle bit_operations_syntax

text \<open>
  The receive side of the pending batch ring (\<open>embarlet/topic.cc\<close>): reserving a slot and filling
  in the batch header, installing the claim, publishing after the payload arrived, and the ingest
  deduplication of retransmitted batches.  Slots are addressed by their address in \<open>pt_mem\<close>.
  The lifecycle mutex makes claim and publication atomic; flushes and fences are left out.
\<close>

datatype SequencerType = EMBARCADERO | KAFKA | SCALOG | CORFU | LAZYLOG

definition kOrderPerBroker :: int where "kOrderPerBroker = 1"
definition kOrderTotal :: int where "kOrderTotal = 2"
definition kOrderClientBrokerStream :: int where "kOrderClientBrokerStream = 4"
definition kOrderStrong :: int where "kOrderStrong = 5"

definition UsesEpochSequencerPath :: "int \<Rightarrow> bool" where
  "UsesEpochSequencerPath order \<longleftrightarrow> order = kOrderClientBrokerStream \<or> order = kOrderStrong"

type_synonym IngestDedupKey = "nat \<times> nat \<times> nat"

record PbrTopic =
  pt_pbr :: PbrShared
  pt_slots :: nat
  pt_first_addr :: nat
  pt_broker_id :: nat
  pt_mem :: "nat \<Rightarrow> BatchHeader"
  pt_blog :: BLog
  pt_order5_exhausted :: bool
  pt_cxl_addr :: nat
  pt_initial_base :: nat
  pt_extent :: nat
  pt_rejects :: nat
  pt_seen :: "IngestDedupKey list"
  pt_seen_ring :: "IngestDedupKey list"
  pt_dedup_hits :: nat
  pt_seq_type :: SequencerType
  pt_order :: int

subsection \<open>Reservation\<close>

text \<open>\<open>TryReservePBR\<close> without interference: the refresh, the loop's first iteration with its
  second sample, and the compare-and-swap.  A consumed count above the producer's, which the
  invariant of the protocol excludes, would spin; it is a rejection here.\<close>

definition refresh_pbr :: "nat \<Rightarrow> PbrShared \<Rightarrow> PbrShared" where
  "refresh_pbr slots sh = (if rs_sampled sh = None then refresh_store slots (refresh_sample sh) else sh)"

definition TryReservePBR :: "nat \<Rightarrow> nat \<Rightarrow> PbrShared \<Rightarrow> (nat \<times> nat \<times> nat) option \<times> PbrShared" where
  "TryReservePBR slots messages sh =
     (if slots < 2 \<or> messages = 0 then (None, sh)
      else let sh1 = refresh_pbr slots sh;
               sh2 = (case snd (pbr_reserve_step False slots messages sh1 (Top (rs_state sh1))) of
                        Resample _ \<Rightarrow> refresh_pbr slots sh1 | _ \<Rightarrow> sh1)
           in if rs_consumed sh2 > next_slot_seq (rs_state sh2) then (None, sh2)
              else if next_slot_seq (rs_state sh2) - rs_consumed sh2 \<ge> slots - 1 then (None, sh2)
              else case pbr_reserve_step False slots messages sh2 (Cas (rs_state sh2)) of
                     (sh3, Reserved s a l) \<Rightarrow> (Some (s, a, l), sh3)
                   | (sh3, _) \<Rightarrow> (None, sh3))"

definition IsBLogCapacityExhausted :: "PbrTopic \<Rightarrow> bool" where
  "IsBLogCapacityExhausted t \<longleftrightarrow> bl_exhausted (pt_blog t) \<or> pt_order5_exhausted t"

definition make_batch_id :: "nat \<Rightarrow> nat \<Rightarrow> nat" where
  "make_batch_id broker pbr_index = u64 (push_bit 48 broker) OR pbr_index"

definition fill_header :: "PbrTopic \<Rightarrow> nat \<Rightarrow> nat \<Rightarrow> nat \<Rightarrow> nat \<Rightarrow> BatchHeader \<Rightarrow> BatchHeader" where
  "fill_header t log epoch absolute logical h =
     h\<lparr>bh_start_logical_offset := logical, bh_broker_id := pt_broker_id t, bh_ordered := 0, bh_total_order := 0,
       bh_pbr_absolute_index := absolute, bh_batch_id := make_batch_id (pt_broker_id t) absolute,
       bh_epoch_created := min epoch 0xFFFF, bh_log_idx := sub64 log (pt_cxl_addr t)\<rparr>"

text \<open>The result is the filled header, the slot's address, the logical offset and the segment.\<close>

definition ReservePBRSlotCore ::
  "BatchHeader \<Rightarrow> nat \<Rightarrow> bool \<Rightarrow> PbrTopic \<Rightarrow> (BatchHeader \<times> nat \<times> nat \<times> nat) option \<times> PbrTopic" where
  "ReservePBRSlotCore h log epoch_already_checked t =
     (if pt_first_addr t = 0 \<or> IsBLogCapacityExhausted t then (None, t)
      else let ((epoch, was_stale), bl) =
                 (if epoch_already_checked then ((bl_last_checked_epoch (pt_blog t), False), pt_blog t)
                  else periodic_epoch_check (pt_blog t));
               t1 = t\<lparr>pt_blog := bl\<rparr>
           in if was_stale then (None, t1)
              else case TryReservePBR (pt_slots t) (bh_num_msg h) (pt_pbr t1) of
                (None, sh) \<Rightarrow> (None, t1\<lparr>pt_pbr := sh\<rparr>)
              | (Some (slot, absolute, logical), sh) \<Rightarrow>
                  (Some (fill_header t log epoch absolute logical h, pt_first_addr t + slot * sizeof_BatchHeader,
                         logical, SegmentForAddress (pt_initial_base t) (pt_extent t) log),
                   t1\<lparr>pt_pbr := sh\<rparr>))"

subsection \<open>Claim and publication\<close>

definition claimed_header :: "BatchHeader \<Rightarrow> BatchHeader" where
  "claimed_header h = h\<lparr>bh_flags := kBatchHeaderFlagClaimed, bh_batch_complete := 0,
     bh_publish_commit := kBatchHeaderPublishUncommitted\<rparr>"

definition InstallPBRClaim :: "BatchHeader \<Rightarrow> nat \<Rightarrow> PbrTopic \<Rightarrow> PbrTopic" where
  "InstallPBRClaim h loc t = t\<lparr>pt_mem := (pt_mem t)(loc := claimed_header h)\<rparr>"

definition ReservePBRSlotAfterRecv ::
  "BatchHeader \<Rightarrow> nat \<Rightarrow> bool \<Rightarrow> PbrTopic \<Rightarrow> (BatchHeader \<times> nat \<times> nat \<times> nat) option \<times> PbrTopic" where
  "ReservePBRSlotAfterRecv h log checked t =
     (case ReservePBRSlotCore h log checked t of
        (None, t1) \<Rightarrow> (None, t1)
      | (Some (h', loc, logical, seg), t1) \<Rightarrow> (Some (h', loc, logical, seg), InstallPBRClaim h' loc t1))"

definition published_header :: "BatchHeader \<Rightarrow> BatchHeader" where
  "published_header h = h\<lparr>bh_flags := bh_flags h OR kBatchHeaderFlagClaimed OR kBatchHeaderFlagValid,
     bh_batch_complete := 1, bh_publish_commit := bh_pbr_absolute_index h\<rparr>"

text \<open>\<open>None\<close> is the failed \<open>CHECK\<close> on the sentinel index; a location 0 is the null pointer.\<close>

definition PublishPBRSlotDirect :: "BatchHeader \<Rightarrow> nat \<Rightarrow> PbrTopic \<Rightarrow> (bool \<times> PbrTopic) option" where
  "PublishPBRSlotDirect h loc t =
     (if loc = 0 then Some (False, t)
      else if bh_pbr_absolute_index h = kBatchHeaderPublishUncommitted then None
      else if \<not> BatchHeaderClaimOwnedBy (pt_mem t loc) h
      then Some (False, t\<lparr>pt_rejects := u64 (pt_rejects t + 1)\<rparr>)
      else Some (True, t\<lparr>pt_mem := (pt_mem t)(loc := published_header h)\<rparr>))"

subsection \<open>Ingest deduplication\<close>

definition kIngestDedupCap :: nat where "kIngestDedupCap = 2 ^ 20"

definition IsIngestBatchAlreadySeen :: "IngestDedupKey \<Rightarrow> PbrTopic \<Rightarrow> bool \<times> PbrTopic" where
  "IsIngestBatchAlreadySeen k t =
     (if k \<in> set (pt_seen t) then (True, t\<lparr>pt_dedup_hits := u64 (pt_dedup_hits t + 1)\<rparr>) else (False, t))"

function evict_seen :: "nat \<Rightarrow> IngestDedupKey list \<Rightarrow> IngestDedupKey list \<Rightarrow> IngestDedupKey list \<times> IngestDedupKey list" where
  "evict_seen cap seen ring =
     (if length ring > cap then evict_seen cap (removeAll (hd ring) seen) (tl ring) else (seen, ring))"
  by pat_completeness auto
termination
  by (relation "measure (\<lambda>(cap, seen, ring). length ring)") auto

declare evict_seen.simps [simp del]

definition mark_seen :: "nat \<Rightarrow> IngestDedupKey \<Rightarrow> IngestDedupKey list \<Rightarrow> IngestDedupKey list
    \<Rightarrow> IngestDedupKey list \<times> IngestDedupKey list" where
  "mark_seen cap k seen ring = (if k \<in> set seen then (seen, ring) else evict_seen cap (k # seen) (ring @ [k]))"

definition MarkIngestBatchSeen :: "IngestDedupKey \<Rightarrow> PbrTopic \<Rightarrow> PbrTopic" where
  "MarkIngestBatchSeen k t =
     (case mark_seen kIngestDedupCap k (pt_seen t) (pt_seen_ring t) of
        (seen, ring) \<Rightarrow> t\<lparr>pt_seen := seen, pt_seen_ring := ring\<rparr>)"

definition ingest_key :: "BatchHeader \<Rightarrow> IngestDedupKey" where
  "ingest_key h = (u32 (bh_client_id h),
     if bh_session_epoch32 h \<noteq> 0 then bh_session_epoch32 h else bh_session_epoch h, bh_batch_seq h)"

definition PublishPBRSlotAfterRecv :: "BatchHeader \<Rightarrow> nat \<Rightarrow> PbrTopic \<Rightarrow> (bool \<times> PbrTopic) option" where
  "PublishPBRSlotAfterRecv h loc t =
     (if loc = 0 then Some (False, t)
      else case PublishPBRSlotDirect h loc t of
        None \<Rightarrow> None
      | Some (ok, t1) \<Rightarrow>
          Some (ok, if ok \<and> pt_seq_type t = EMBARCADERO \<and> pt_order t = kOrderStrong
                    then MarkIngestBatchSeen (ingest_key h) t1 else t1))"

definition ReservePBRSlotAndWriteEntry ::
  "BatchHeader \<Rightarrow> nat \<Rightarrow> bool \<Rightarrow> PbrTopic \<Rightarrow> (BatchHeader \<times> nat \<times> nat \<times> nat) option \<times> PbrTopic" where
  "ReservePBRSlotAndWriteEntry h log checked t =
     (case ReservePBRSlotCore h log checked t of
        (None, t1) \<Rightarrow> (None, t1)
      | (Some (h', loc, logical, seg), t1) \<Rightarrow>
          let h'' = h'\<lparr>bh_flags := kBatchHeaderFlagValid, bh_publish_commit := kBatchHeaderPublishUncommitted\<rparr>
          in (Some (h'', loc, logical, seg), t1\<lparr>pt_mem := (pt_mem t1)(loc := h''\<lparr>bh_batch_complete := 0\<rparr>)\<rparr>))"

subsection \<open>Properties\<close>

lemma flag_words:
  "(kBatchHeaderFlagClaimed :: 32 word) AND (kBatchHeaderFlagClaimed OR kBatchHeaderFlagValid OR kBatchHeaderFlagRetired)
     = kBatchHeaderFlagClaimed"
  "kBatchHeaderFlagRetired AND (kBatchHeaderFlagClaimed OR kBatchHeaderFlagValid OR kBatchHeaderFlagRetired)
     \<noteq> kBatchHeaderFlagClaimed"
  by (simp_all add: kBatchHeaderFlagClaimed_def kBatchHeaderFlagValid_def kBatchHeaderFlagRetired_def)

lemma published_not_claimed:
  "(w OR kBatchHeaderFlagClaimed OR kBatchHeaderFlagValid) AND
     (kBatchHeaderFlagClaimed OR kBatchHeaderFlagValid OR kBatchHeaderFlagRetired) \<noteq> kBatchHeaderFlagClaimed"
proof
  assume "(w OR kBatchHeaderFlagClaimed OR kBatchHeaderFlagValid) AND
     (kBatchHeaderFlagClaimed OR kBatchHeaderFlagValid OR kBatchHeaderFlagRetired) = kBatchHeaderFlagClaimed"
  then have "bit ((w OR kBatchHeaderFlagClaimed OR kBatchHeaderFlagValid) AND
     (kBatchHeaderFlagClaimed OR kBatchHeaderFlagValid OR kBatchHeaderFlagRetired)) 1 = bit kBatchHeaderFlagClaimed 1" by simp
  then show False
    by (simp add: kBatchHeaderFlagClaimed_def kBatchHeaderFlagValid_def kBatchHeaderFlagRetired_def bit_simps)
qed

text \<open>What happens to the slots of a ring: receivers claim and publish, the sequencer retires a slot
  (\<open>ClearOrder5PublishState\<close>, on the batch it consumed or on the export descriptor it wrote there).\<close>

datatype SlotEvent = ClaimSlot BatchHeader nat | PublishSlot BatchHeader nat | RetireSlot BatchHeader nat

fun slot_event :: "SlotEvent \<Rightarrow> PbrTopic \<Rightarrow> (bool \<times> PbrTopic) option" where
  "slot_event (ClaimSlot h loc) t = Some (True, InstallPBRClaim h loc t)"
| "slot_event (PublishSlot h loc) t = PublishPBRSlotDirect h loc t"
| "slot_event (RetireSlot h loc) t = Some (True, t\<lparr>pt_mem := (pt_mem t)(loc := ClearOrder5PublishState h)\<rparr>)"

fun slot_events :: "SlotEvent list \<Rightarrow> PbrTopic \<Rightarrow> PbrTopic option" where
  "slot_events [] t = Some t"
| "slot_events (e # es) t = (case slot_event e t of None \<Rightarrow> None | Some (_, t') \<Rightarrow> slot_events es t')"

text \<open>The contract: a slot is vacant, claimed by one batch, or published by one batch; only the batch that holds the
  claim can publish.\<close>

datatype SlotUse = Vacant | ClaimedBy "nat \<times> nat" | PublishedBy "nat \<times> nat"

definition slot_id :: "BatchHeader \<Rightarrow> nat \<times> nat" where
  "slot_id h = (bh_pbr_absolute_index h, bh_batch_id h)"

fun use_event :: "SlotEvent \<Rightarrow> (nat \<Rightarrow> SlotUse) \<Rightarrow> nat \<Rightarrow> SlotUse" where
  "use_event (ClaimSlot h loc) u = u(loc := ClaimedBy (slot_id h))"
| "use_event (PublishSlot h loc) u = (if loc \<noteq> 0 \<and> u loc = ClaimedBy (slot_id h) then u(loc := PublishedBy (slot_id h)) else u)"
| "use_event (RetireSlot h loc) u = u(loc := Vacant)"

definition claim_flags :: "BatchHeader \<Rightarrow> bool" where
  "claim_flags h \<longleftrightarrow>
     bh_flags h AND (kBatchHeaderFlagClaimed OR kBatchHeaderFlagValid OR kBatchHeaderFlagRetired) = kBatchHeaderFlagClaimed"

fun slot_matches :: "BatchHeader \<Rightarrow> SlotUse \<Rightarrow> bool" where
  "slot_matches h Vacant \<longleftrightarrow> \<not> claim_flags h \<and> \<not> BatchHeaderPublishCommitted h"
| "slot_matches h (ClaimedBy i) \<longleftrightarrow> slot_id h = i \<and> claim_flags h \<and> bh_publish_commit h = kBatchHeaderPublishUncommitted \<and> bh_batch_complete h = 0"
| "slot_matches h (PublishedBy i) \<longleftrightarrow> slot_id h = i \<and> \<not> claim_flags h \<and> BatchHeaderPublishCommitted h"

lemma owned_by_use: "slot_matches m u \<Longrightarrow> BatchHeaderClaimOwnedBy m h \<longleftrightarrow> u = ClaimedBy (slot_id h)"
  by (cases u) (auto simp: BatchHeaderClaimOwnedBy_def claim_flags_def slot_id_def)

lemma header_flags:
  "claim_flags (claimed_header h)" "\<not> claim_flags (published_header h)" "\<not> claim_flags (ClearOrder5PublishState h)"
  using flag_words published_not_claimed by (simp_all add: claim_flags_def claimed_header_def published_header_def ClearOrder5PublishState_def)

lemma publish_by_use:
  assumes "slot_matches (pt_mem t loc) (u loc)" "loc \<noteq> 0" "bh_pbr_absolute_index h \<noteq> UINT64_MAX"
  shows "\<exists>t'. PublishPBRSlotDirect h loc t = Some (u loc = ClaimedBy (slot_id h), t') \<and>
     pt_mem t' = (if u loc = ClaimedBy (slot_id h) then (pt_mem t)(loc := published_header h) else pt_mem t)"
  using assms owned_by_use[OF assms(1), of h] by (simp add: PublishPBRSlotDirect_def kBatchHeaderPublishUncommitted_def)

lemma slot_event_refines:
  assumes "\<forall>a. slot_matches (pt_mem t a) (u a)" "slot_event e t = Some (ok, t')"
  shows "\<forall>a. slot_matches (pt_mem t' a) (use_event e u a)"
proof (cases e)
  case (ClaimSlot h loc)
  then show ?thesis using assms header_flags(1)[of h] by (auto simp: InstallPBRClaim_def) (simp_all add: claimed_header_def slot_id_def)
next
  case (PublishSlot h loc)
  have pub: "slot_matches (published_header h) (PublishedBy (slot_id h))" if "bh_pbr_absolute_index h \<noteq> UINT64_MAX"
    using that header_flags(2)[of h]
    by (simp add: BatchHeaderPublishCommitted_def kBatchHeaderPublishUncommitted_def) (simp add: published_header_def slot_id_def)
  show ?thesis
  proof (cases "loc = 0 \<or> bh_pbr_absolute_index h = UINT64_MAX")
    case True
    then show ?thesis using assms PublishSlot by (auto simp: PublishPBRSlotDirect_def kBatchHeaderPublishUncommitted_def split: if_splits)
  next
    case False
    then show ?thesis using publish_by_use[of t loc u h] assms PublishSlot pub by auto
  qed
next
  case (RetireSlot h loc)
  then show ?thesis using assms header_flags(3)[of h]
    by (auto simp: BatchHeaderPublishCommitted_def) (simp_all add: ClearOrder5PublishState_def)
qed

lemma slot_events_refine:
  "\<forall>a. slot_matches (pt_mem t a) (u a) \<Longrightarrow> slot_events es t = Some t' \<Longrightarrow> \<forall>a. slot_matches (pt_mem t' a) (fold use_event es u a)"
proof (induction es arbitrary: t u)
  case (Cons e es)
  obtain ok t1 where e: "slot_event e t = Some (ok, t1)" "slot_events es t1 = Some t'"
    using Cons.prems(2) by (auto split: option.splits)
  show ?case using Cons.IH[OF slot_event_refines[OF Cons.prems(1) e(1)] e(2)] by simp
qed simp

text \<open>C21: the lifecycle of a ring slot.  Start from a ring without claims and let receivers claim and publish and the sequencer retire,
  in any order and on any slots.  A publication then succeeds if and only if its batch holds the claim on the slot
  at that moment: nobody claimed or retired the slot since, and the batch has not published it already.  A success
  commits the slot to the batch's index and touches no other slot, a rejection touches nothing; and at every moment exactly the slots that are
  published and not retired look committed to the scanner.\<close>

theorem pbr_slot_lifecycle:
  assumes "\<forall>a. \<not> claim_flags (pt_mem t a) \<and> \<not> BatchHeaderPublishCommitted (pt_mem t a)" "slot_events es t = Some t'"
    and "loc \<noteq> 0" "bh_pbr_absolute_index h \<noteq> UINT64_MAX"
  defines "use \<equiv> fold use_event es (\<lambda>_. Vacant)"
  shows "(\<exists>t''. PublishPBRSlotDirect h loc t' = Some (use loc = ClaimedBy (slot_id h), t'') \<and>
            pt_mem t'' = (if use loc = ClaimedBy (slot_id h) then (pt_mem t')(loc := published_header h) else pt_mem t')) \<and>
         (\<forall>a. BatchHeaderPublishCommitted (pt_mem t' a) \<longleftrightarrow> use a = PublishedBy (slot_id (pt_mem t' a)))"
proof -
  have m: "\<forall>a. slot_matches (pt_mem t' a) (use a)"
    unfolding use_def by (rule slot_events_refine[OF _ assms(2)]) (use assms(1) in simp)
  have "BatchHeaderPublishCommitted (pt_mem t' a) \<longleftrightarrow> use a = PublishedBy (slot_id (pt_mem t' a))" for a
    using m[rule_format, of a] by (cases "use a") (auto simp: BatchHeaderPublishCommitted_def)
  then show ?thesis using publish_by_use[of t' loc use h] m assms(3,4) by simp
qed

subsection \<open>Ingest deduplication\<close>

definition seen_ok :: "nat \<Rightarrow> IngestDedupKey list \<Rightarrow> IngestDedupKey list \<Rightarrow> bool" where
  "seen_ok cap seen ring \<longleftrightarrow> set seen = set ring \<and> distinct ring \<and> length ring \<le> cap"

lemma evict_none: "length ring \<le> cap \<Longrightarrow> evict_seen cap seen ring = (seen, ring)"
  by (subst evict_seen.simps) simp

lemma evict_one: "length ring = Suc cap \<Longrightarrow> evict_seen cap seen ring = (removeAll (hd ring) seen, tl ring)"
  by (subst evict_seen.simps) (simp add: evict_none)

lemma mark_seen_cases:
  assumes "seen_ok cap seen ring" "0 < cap"
  shows "mark_seen cap k seen ring =
     (if k \<in> set ring then (seen, ring)
      else if length ring < cap then (k # seen, ring @ [k])
      else (removeAll (hd ring) (k # seen), tl ring @ [k]))"
proof (cases "k \<in> set ring \<or> length ring < cap")
  case True
  have "set seen = set ring" using assms(1) unfolding seen_ok_def by blast
  with True show ?thesis by (cases "k \<in> set ring") (simp_all add: mark_seen_def evict_none)
next
  case False
  have ok: "set seen = set ring" "length ring \<le> cap" using assms(1) unfolding seen_ok_def by blast+
  have "\<not> length ring < cap" using False by blast
  then have l: "length ring = cap" using ok(2) by linarith
  then have "ring \<noteq> []" using assms(2) by (metis list.size(3) less_irrefl)
  with l have "evict_seen cap (k # seen) (ring @ [k]) = (removeAll (hd ring) (k # seen), tl ring @ [k])"
    by (simp add: evict_one)
  then show ?thesis using False ok(1) unfolding mark_seen_def by (simp only: de_Morgan_disj if_False simp_thms)
qed

lemma seen_ok_mark:
  assumes ok: "seen_ok cap seen ring" and "0 < cap" and m: "mark_seen cap k seen ring = (seen', ring')"
  shows "seen_ok cap seen' ring'"
proof -
  note mc = mark_seen_cases[OF ok assms(2), of k]
  consider "k \<in> set ring" | "k \<notin> set ring" "length ring < cap"
    | x xs where "k \<notin> set ring" "\<not> length ring < cap" "ring = x # xs"
    using assms(2) by (cases ring) auto
  then show ?thesis
  proof cases
    case 1
    then show ?thesis using m mc ok by simp
  next
    case 2
    then have "seen' = k # seen" "ring' = ring @ [k]" using m mc by simp_all
    then show ?thesis using ok 2 by (simp add: seen_ok_def)
  next
    case 3
    then have "seen' = removeAll x (k # seen)" "ring' = xs @ [k]" using m mc by simp_all
    then show ?thesis using ok 3 by (auto simp: seen_ok_def)
  qed
qed

text \<open>The ring after a history of marks, as a specification: a key that is present keeps its place,
  a new one is appended, and only the last \<open>cap\<close> keys are kept.\<close>

definition recent_step :: "nat \<Rightarrow> IngestDedupKey list \<Rightarrow> IngestDedupKey \<Rightarrow> IngestDedupKey list" where
  "recent_step cap ring k = (if k \<in> set ring then ring else drop (Suc (length ring) - cap) (ring @ [k]))"

text \<open>C32: ingest deduplication refines a bounded list of recent batches.  After any history of
  marks a batch is reported seen exactly when it is among the last \<open>2^20\<close> distinct batches, and
  the hash set and the eviction ring always hold the same keys, without repetition.\<close>

theorem ingest_dedup_refines_recent:
  assumes "pt_seen t = []" "pt_seen_ring t = []"
  shows "(fst (IsIngestBatchAlreadySeen k (fold MarkIngestBatchSeen ks t)) \<longleftrightarrow>
           k \<in> set (foldl (recent_step kIngestDedupCap) [] ks)) \<and>
         seen_ok kIngestDedupCap (pt_seen (fold MarkIngestBatchSeen ks t)) (pt_seen_ring (fold MarkIngestBatchSeen ks t))"
proof -
  have step: "seen_ok kIngestDedupCap (pt_seen (MarkIngestBatchSeen k t)) (pt_seen_ring (MarkIngestBatchSeen k t)) \<and>
      pt_seen_ring (MarkIngestBatchSeen k t) = recent_step kIngestDedupCap (pt_seen_ring t) k"
    if ok: "seen_ok kIngestDedupCap (pt_seen t) (pt_seen_ring t)" for k t
  proof -
    have c: "0 < kIngestDedupCap" by (simp add: kIngestDedupCap_def)
    obtain s r where m: "mark_seen kIngestDedupCap k (pt_seen t) (pt_seen_ring t) = (s, r)"
      by (cases "mark_seen kIngestDedupCap k (pt_seen t) (pt_seen_ring t)")
    have "r = recent_step kIngestDedupCap (pt_seen_ring t) k"
    proof (cases "length (pt_seen_ring t) < kIngestDedupCap")
      case True
      then show ?thesis using m mark_seen_cases[OF ok c, of k] by (auto simp: recent_step_def split: if_splits)
    next
      case False
      then have "length (pt_seen_ring t) = kIngestDedupCap" "pt_seen_ring t \<noteq> []"
        using ok c by (auto simp: seen_ok_def)
      then show ?thesis using m mark_seen_cases[OF ok c, of k]
        by (cases "pt_seen_ring t") (auto simp: recent_step_def split: if_splits)
    qed
    then show ?thesis using seen_ok_mark[OF ok c m] m by (simp add: MarkIngestBatchSeen_def)
  qed
  have run: "seen_ok kIngestDedupCap (pt_seen (fold MarkIngestBatchSeen ks t)) (pt_seen_ring (fold MarkIngestBatchSeen ks t)) \<and>
      pt_seen_ring (fold MarkIngestBatchSeen ks t) = foldl (recent_step kIngestDedupCap) (pt_seen_ring t) ks"
    if "seen_ok kIngestDedupCap (pt_seen t) (pt_seen_ring t)" for t
    using that
  proof (induction ks arbitrary: t)
    case (Cons k ks)
    from Cons.IH[OF conjunct1[OF step[OF Cons.prems, of k]]] step[OF Cons.prems, of k] show ?case by (metis fold_simps(2) foldl_Cons)
  qed simp
  have "seen_ok kIngestDedupCap (pt_seen t) (pt_seen_ring t)" using assms by (simp add: seen_ok_def)
  from run[OF this] assms(2) show ?thesis by (auto simp: IsIngestBatchAlreadySeen_def seen_ok_def)
qed

definition sample_pbr_topic :: PbrTopic where
  "sample_pbr_topic = \<lparr>pt_pbr = pbr_init, pt_slots = 10, pt_first_addr = 1280, pt_broker_id = 3, pt_mem = (\<lambda>_. BatchHeader_zero),
     pt_blog = sample_blog, pt_order5_exhausted = False, pt_cxl_addr = 4096, pt_initial_base = 4096, pt_extent = 1024,
     pt_rejects = 0, pt_seen = [], pt_seen_ring = [], pt_dedup_hits = 0, pt_seq_type = EMBARCADERO, pt_order = 5\<rparr>"

text \<open>A batch claims its slot and publishes it; after the sequencer retired the slot, with the batch's own identity
  still in it, publishing again is rejected.\<close>

theorem pbr_slot_lifecycle_witness:
  "let h = BatchHeader_zero\<lparr>bh_pbr_absolute_index := 4\<rparr>; g = BatchHeader_zero\<lparr>bh_publish_commit := UINT64_MAX\<rparr>;
       t = sample_pbr_topic\<lparr>pt_mem := (\<lambda>_. g)\<rparr>
   in (\<exists>t1 t2. slot_events [ClaimSlot h 1280] t = Some t1 \<and> PublishPBRSlotDirect h 1280 t1 = Some (True, t2)) \<and>
      (\<exists>t1 t2. slot_events [ClaimSlot h 1280, PublishSlot h 1280, RetireSlot h 1280] t = Some t1 \<and>
         PublishPBRSlotDirect h 1280 t1 = Some (False, t2))"
proof -
  define h where "h = BatchHeader_zero\<lparr>bh_pbr_absolute_index := 4\<rparr>"
  define t where "t = sample_pbr_topic\<lparr>pt_mem := (\<lambda>_. BatchHeader_zero\<lparr>bh_publish_commit := UINT64_MAX\<rparr>)\<rparr>"
  have z: "\<forall>a. \<not> claim_flags (pt_mem t a) \<and> \<not> BatchHeaderPublishCommitted (pt_mem t a)"
    by (simp add: t_def claim_flags_def BatchHeaderPublishCommitted_def BatchHeader_zero_def kBatchHeaderPublishUncommitted_def
        kBatchHeaderFlagClaimed_def)
  have i: "(1280 :: nat) \<noteq> 0" "bh_pbr_absolute_index h \<noteq> UINT64_MAX" by (simp_all add: h_def UINT64_MAX_def)
  note life = pbr_slot_lifecycle[OF z _ i]
  have 1: "slot_events [ClaimSlot h 1280] t = Some (InstallPBRClaim h 1280 t)" by simp
  obtain u where u: "PublishPBRSlotDirect h 1280 (InstallPBRClaim h 1280 t) = Some (True, u)" using life[OF 1] by auto
  then have 2: "slot_events [ClaimSlot h 1280, PublishSlot h 1280, RetireSlot h 1280] t =
      Some (u\<lparr>pt_mem := (pt_mem u)(1280 := ClearOrder5PublishState h)\<rparr>)" by simp
  show ?thesis unfolding Let_def h_def[symmetric] t_def[symmetric] using 1 2 u life[OF 2] by auto
qed

lemma ingest_dedup_refines_recent_witness:
  "fst (IsIngestBatchAlreadySeen (7, 1, 0) (fold MarkIngestBatchSeen [(7, 1, 0), (7, 1, 1), (7, 1, 0)] sample_pbr_topic)) \<and>
   \<not> fst (IsIngestBatchAlreadySeen (7, 2, 0) (fold MarkIngestBatchSeen [(7, 1, 0), (7, 1, 1), (7, 1, 0)] sample_pbr_topic))"
proof -
  have "foldl (recent_step kIngestDedupCap) [] [(7, 1, 0), (7, 1, 1), (7, 1, 0)] = [(7, 1, 0), (7, 1, 1)]"
    by (simp add: recent_step_def kIngestDedupCap_def)
  moreover have "pt_seen sample_pbr_topic = []" "pt_seen_ring sample_pbr_topic = []"
    by (simp_all add: sample_pbr_topic_def)
  note ingest_dedup_refines_recent[OF this, of "(7, 1, 0)" "[(7, 1, 0), (7, 1, 1), (7, 1, 0)]"]
    ingest_dedup_refines_recent[OF this, of "(7, 2, 0)" "[(7, 1, 0), (7, 1, 1), (7, 1, 0)]"]
  ultimately show ?thesis by simp
qed

text \<open>Batch ids are unique.  For broker ids below \<open>2^16\<close> and ring indices below \<open>2^48\<close> the
  batch id determines the broker and the index.\<close>

lemma batch_id_decodes:
  assumes "b < 2 ^ 16" "i < 2 ^ 48"
  shows "make_batch_id b i div 2 ^ 48 = b \<and> make_batch_id b i mod 2 ^ 48 = i"
proof -
  have "push_bit 48 b < (2::nat) ^ 64" using assms(1) by (simp add: push_bit_eq_mult)
  then have u: "u64 (push_bit 48 b) = push_bit 48 b" by (simp add: u64_def)
  have "push_bit 48 b OR i = push_bit 48 b + i"
  proof (rule disjunctive_add_eq_or [symmetric])
    have t: "take_bit 48 i = i" using assms(2) by (simp add: take_bit_nat_eq_self_iff)
    have "\<not> bit i n" if "48 \<le> n" for n
    proof -
      have "bit i n = bit (take_bit 48 i) n" by (simp only: t)
      then show ?thesis using that by (simp add: bit_take_bit_iff)
    qed
    then show "push_bit 48 b AND i = 0"
      by (intro bit_eqI) (auto simp: bit_and_iff bit_push_bit_iff)
  qed
  then have "make_batch_id b i = b * 2 ^ 48 + i" unfolding make_batch_id_def u by (simp add: push_bit_eq_mult)
  then show ?thesis using assms(2) by simp
qed

end
