(* ===== verification/WrittenRanges.thy ===== *)
theory WrittenRanges
  imports OrdMap
begin

text \<open>
  Contiguous-prefix tracking of out-of-order completions in \<open>embarlet/topic.cc\<close>: the interval
  merge of \<open>PublishValidatedWrittenRange\<close>, which publishes the first byte that is not yet
  validated, and the completion callback of the Kafka baseline.
\<close>

subsection \<open>PublishValidatedWrittenRange\<close>

record WrittenState =
  ws_ranges :: "(nat, nat) omap"
  ws_frontier :: nat
  ws_published :: nat

text \<open>The loop that absorbs the following ranges that start inside the new one.\<close>

fun absorb_following :: "nat \<Rightarrow> (nat, nat) omap \<Rightarrow> nat \<times> (nat, nat) omap" where
  "absorb_following range_end [] = (range_end, [])"
| "absorb_following range_end ((a, b) # rest) =
     (if a \<le> range_end then absorb_following (max range_end b) rest else (range_end, (a, b) # rest))"

definition insert_range :: "nat \<Rightarrow> nat \<Rightarrow> (nat, nat) omap \<Rightarrow> (nat, nat) omap" where
  "insert_range range_start range_end m =
     (let before = takeWhile (\<lambda>p. fst p < range_start) m;
          following = dropWhile (\<lambda>p. fst p < range_start) m;
          (s, e, kept) = (if before \<noteq> [] \<and> snd (last before) \<ge> range_start
                          then (fst (last before), max range_end (snd (last before)), butlast before)
                          else (range_start, range_end, before));
          (e', rest) = absorb_following e following
      in om_put s e' (kept @ rest))"

fun advance_frontier :: "nat \<Rightarrow> (nat, nat) omap \<Rightarrow> nat \<times> (nat, nat) omap" where
  "advance_frontier f [] = (f, [])"
| "advance_frontier f ((a, b) # rest) =
     (if a > f then (f, (a, b) # rest)
      else if b \<le> f then advance_frontier f rest
      else advance_frontier b rest)"

definition PublishValidatedWrittenRange :: "nat \<Rightarrow> nat \<Rightarrow> WrittenState \<Rightarrow> WrittenState" where
  "PublishValidatedWrittenRange start_offset total_size w =
     (if total_size = 0 then w
      else let m = insert_range start_offset (u64 (start_offset + total_size)) (ws_ranges w);
               (f, m') = advance_frontier (ws_frontier w) m;
               w' = w\<lparr>ws_ranges := m', ws_frontier := f\<rparr>
           in if f \<noteq> ws_frontier w then w'\<lparr>ws_published := f\<rparr> else w')"

text \<open>The constructor refuses a broker whose log has no offset yet and starts the frontier at the log's first byte;
  \<open>published\<close> is what the shared copy holds then (zero, or the log offset in the CXL replication modes).\<close>

definition WrittenState_init :: "nat \<Rightarrow> nat \<Rightarrow> WrittenState option" where
  "WrittenState_init log_offset published =
     (if log_offset = 0 then None else Some \<lparr>ws_ranges = [], ws_frontier = log_offset, ws_published = published\<rparr>)"

subsection \<open>Kafka completion callback\<close>

record KafkaState =
  kf_next :: nat
  kf_ranges :: "(nat, nat) omap"
  kf_written :: nat
  kf_addr :: nat
  kf_tinode_written :: nat
  kf_tinode_addr :: nat
  kf_processed :: "nat list"

function kafka_publish :: "nat \<Rightarrow> nat \<Rightarrow> KafkaState \<Rightarrow> KafkaState" where
  "kafka_publish log_ptr logical k =
     (let k1 = k\<lparr>kf_written := logical, kf_addr := log_ptr, kf_processed := kf_processed k @ [log_ptr],
                 kf_tinode_written := logical, kf_tinode_addr := log_ptr, kf_next := u64 (logical + 1)\<rparr>
      in case om_find (kf_ranges k) (u64 (logical + 1)) of
           None \<Rightarrow> k1
         | Some logical' \<Rightarrow> kafka_publish log_ptr logical' (k1\<lparr>kf_ranges := om_erase (u64 (logical + 1)) (kf_ranges k)\<rparr>))"
  by pat_completeness auto
termination
  by (relation "measure (\<lambda>(p, l, k). length (kf_ranges k))") (auto simp: length_om_erase_less)

declare kafka_publish.simps [simp del]

definition kafka_complete :: "nat \<Rightarrow> nat \<Rightarrow> nat \<Rightarrow> KafkaState \<Rightarrow> KafkaState" where
  "kafka_complete start_logical log_ptr logical k =
     (if kf_next k \<noteq> start_logical then k\<lparr>kf_ranges := om_put start_logical logical (kf_ranges k)\<rparr>
      else kafka_publish log_ptr logical k)"

subsection \<open>The frontier is the first byte not validated\<close>

definition bytes_of :: "(nat, nat) omap \<Rightarrow> nat set" where
  "bytes_of m = (\<Union>(a, b)\<in>set m. {a..<b})"

lemma bytes_of_simps [simp]:
  "bytes_of [] = {}" "bytes_of ((a, b) # m) = {a..<b} \<union> bytes_of m"
  "bytes_of (m @ m') = bytes_of m \<union> bytes_of m'"
  by (auto simp: bytes_of_def)

lemma absorb_following_spec:
  assumes "absorb_following e m = (e', rest)" "s \<le> e" "\<forall>(a, b)\<in>set m. s \<le> a" "om_ok m"
  shows "{s..<e'} \<union> bytes_of rest = {s..<e} \<union> bytes_of m \<and> e \<le> e' \<and> om_ok rest \<and> (\<forall>(a, b)\<in>set rest. e' < a)"
  using assms
proof (induction e m arbitrary: e' rest rule: absorb_following.induct)
  case (2 e a b m)
  show ?case
  proof (cases "a \<le> e")
    case True
    then have "absorb_following (max e b) m = (e', rest)" using 2(2) by simp
    moreover have "om_ok m" using 2(5) by (simp add: om_ok_def)
    ultimately have "{s..<e'} \<union> bytes_of rest = {s..<max e b} \<union> bytes_of m \<and> max e b \<le> e' \<and> om_ok rest \<and>
        (\<forall>(a, b)\<in>set rest. e' < a)" using 2(1)[OF True] 2(3,4) by simp
    moreover have "{s..<max e b} = {s..<e} \<union> {a..<b}" using True 2(3,4) by auto
    ultimately show ?thesis by auto
  next
    case False
    then show ?thesis using 2(2,5) by (fastforce simp: om_ok_def)
  qed
qed simp

lemma advance_frontier_spec:
  "om_ok m \<Longrightarrow> advance_frontier f m = (f', m') \<Longrightarrow>
   f \<le> f' \<and> om_ok m' \<and> {..<f'} \<union> bytes_of m' = {..<f} \<union> bytes_of m \<and> (\<forall>(a, b)\<in>set m'. f' < a)"
proof (induction f m rule: advance_frontier.induct)
  case (2 f a b m)
  have ok: "om_ok m" using 2(3) by (simp add: om_ok_def)
  consider "a > f" | "a \<le> f" "b \<le> f" | "a \<le> f" "f < b" by linarith
  then show ?case
  proof cases
    case 1
    then show ?thesis using 2(3,4) by (fastforce simp: om_ok_def)
  next
    case a: 2
    then show ?thesis using 2(1)[OF _ _ ok] 2(4) by (auto simp: atLeastLessThan_def)
  next
    case 3
    then have "f \<le> f' \<and> om_ok m' \<and> {..<f'} \<union> bytes_of m' = {..<b} \<union> bytes_of m \<and> (\<forall>(a, b)\<in>set m'. f' < a)"
      using 2(2)[OF _ _ ok] 2(4) by auto
    moreover have "{..<b} = {..<f} \<union> {a..<b}" using 3 by auto
    ultimately show ?thesis by auto
  qed
qed auto

lemma bytes_of_put: "k \<notin> om_keys m \<Longrightarrow> bytes_of (om_put k v m) = {k..<v} \<union> bytes_of m"
  by (induction k v m rule: om_put.induct) auto

lemma om_ok_append: "om_ok (xs @ ys) \<longleftrightarrow> om_ok xs \<and> om_ok ys \<and> (\<forall>a\<in>om_keys xs. \<forall>b\<in>om_keys ys. a < b)"
  by (auto simp: om_ok_def om_keys_def sorted_wrt_append)

lemma om_keys_append [simp]: "om_keys (xs @ ys) = om_keys xs \<union> om_keys ys"
  by (auto simp: om_keys_def)

lemma absorb_keys: "absorb_following e m = (e', rest) \<Longrightarrow> set rest \<subseteq> set m"
  by (induction e m arbitrary: e' rest rule: absorb_following.induct) (auto split: if_splits)

lemma insert_range_spec:
  assumes "om_ok m" "rs < re"
  shows "om_ok (insert_range rs re m) \<and> bytes_of (insert_range rs re m) = {rs..<re} \<union> bytes_of m"
proof -
  define before where "before = takeWhile (\<lambda>p. fst p < rs) m"
  define fol where "fol = dropWhile (\<lambda>p. fst p < rs) m"
  have m: "m = before @ fol" by (simp add: before_def fol_def)
  have ok: "om_ok before" "om_ok fol" using assms(1) m by (auto simp: om_ok_append)
  have lt: "\<forall>k\<in>om_keys before. k < rs"
    by (auto simp: before_def om_keys_def dest!: set_takeWhileD)
  have ge: "\<forall>k\<in>om_keys fol. rs \<le> k"
  proof
    fix k assume k: "k \<in> om_keys fol"
    then obtain a b fs where f: "fol = (a, b) # fs" by (cases fol) auto
    have "fol \<noteq> []" using f by simp
    then have "\<not> fst (hd fol) < rs" unfolding fol_def by (rule hd_dropWhile)
    then have "\<not> a < rs" using f by simp
    then show "rs \<le> k" using k f ok(2) by auto
  qed
  have main: "om_ok (om_put s e' (kept @ rest)) \<and> bytes_of (om_put s e' (kept @ rest)) = {s..<e} \<union> bytes_of (kept @ fol)"
    if a: "absorb_following e fol = (e', rest)" and s: "s \<le> e" "s \<le> rs" and kept: "om_ok kept" "\<forall>k\<in>om_keys kept. k < s"
    for s e e' kept rest
  proof -
    have sa: "\<forall>(a, b)\<in>set fol. s \<le> a" using ge s(2) by (fastforce simp: om_keys_def)
    from absorb_following_spec[OF a s(1) sa ok(2)]
    have r: "{s..<e'} \<union> bytes_of rest = {s..<e} \<union> bytes_of fol" "e \<le> e'" "om_ok rest" "\<forall>k\<in>om_keys rest. e' < k"
      by (fastforce simp: om_keys_def)+
    have fresh: "s \<notin> om_keys (kept @ rest)" using kept(2) r(2,4) s(1) by fastforce
    have "om_ok (kept @ rest)" using kept r s by (fastforce simp: om_ok_append)
    then show ?thesis using bytes_of_put[OF fresh] r(1) by auto
  qed
  show ?thesis
  proof (cases "before \<noteq> [] \<and> snd (last before) \<ge> rs")
    case True
    then obtain kept pa pb where b: "before = kept @ [(pa, pb)]" by (metis append_butlast_last_id surj_pair)
    obtain e' rest where a: "absorb_following (max re pb) fol = (e', rest)" by (cases "absorb_following (max re pb) fol")
    have p: "pa < rs" "rs \<le> pb" "om_ok kept" "\<forall>k\<in>om_keys kept. k < pa"
      using True lt ok(1) b by (auto simp: om_ok_append)
    have "insert_range rs re m = om_put pa e' (kept @ rest)"
      using True a b by (simp add: insert_range_def before_def[symmetric] fol_def[symmetric] Let_def)
    moreover have "{pa..<max re pb} = {rs..<re} \<union> {pa..<pb}" using p assms(2) by auto
    ultimately show ?thesis
      using main[OF a _ _ p(3,4)] p(1,2) assms(2) unfolding m b by (auto simp: max_def)
  next
    case False
    obtain e' rest where a: "absorb_following re fol = (e', rest)" by (cases "absorb_following re fol")
    have "insert_range rs re m = om_put rs e' (before @ rest)"
      using False a by (auto simp: insert_range_def before_def[symmetric] fol_def[symmetric] Let_def)
    then show ?thesis using main[OF a _ _ ok(1) lt] assms(2) unfolding m by auto
  qed
qed

definition written_ok :: "nat \<Rightarrow> nat \<Rightarrow> nat set \<Rightarrow> WrittenState \<Rightarrow> bool" where
  "written_ok L p B w \<longleftrightarrow> om_ok (ws_ranges w) \<and> (\<forall>(a, b)\<in>set (ws_ranges w). ws_frontier w < a) \<and>
     {..<ws_frontier w} \<union> bytes_of (ws_ranges w) = {..<L} \<union> B \<and> L \<le> ws_frontier w \<and>
     ws_published w = (if ws_frontier w = L then p else ws_frontier w)"

lemma publish_range_ok:
  assumes "written_ok L p B w" "start + sz \<le> UINT64_MAX"
  shows "written_ok L p (B \<union> {start..<start + sz}) (PublishValidatedWrittenRange start sz w)"
proof (cases "sz = 0")
  case True
  then show ?thesis using assms(1) by (simp add: PublishValidatedWrittenRange_def)
next
  case False
  define m where "m = insert_range start (start + sz) (ws_ranges w)"
  have m: "om_ok m" "bytes_of m = {start..<start + sz} \<union> bytes_of (ws_ranges w)"
    using insert_range_spec[of "ws_ranges w" start "start + sz"] assms(1) False by (auto simp: written_ok_def m_def)
  obtain f m' where a: "advance_frontier (ws_frontier w) m = (f, m')" by (cases "advance_frontier (ws_frontier w) m")
  note s = advance_frontier_spec[OF m(1) a]
  have "PublishValidatedWrittenRange start sz w = (let w' = w\<lparr>ws_ranges := m', ws_frontier := f\<rparr>
      in if f \<noteq> ws_frontier w then w'\<lparr>ws_published := f\<rparr> else w')"
    using False assms(2) a by (simp add: PublishValidatedWrittenRange_def m_def Let_def)
  moreover have "{..<f} \<union> bytes_of m' = {..<L} \<union> (B \<union> {start..<start + sz})"
    using s m(2) assms(1) by (auto simp: written_ok_def)
  ultimately show ?thesis using s assms(1) by (auto simp: written_ok_def Let_def)
qed

text \<open>C22: the published payload frontier is exact.  It starts at the log's first byte.  After publishing any ranges in any order,
  overlapping or repeated, every byte of the log below the frontier has been validated and the byte at the
  frontier has not.  The shared copy equals the frontier once the frontier has moved, and is untouched before.\<close>

theorem written_frontier_exact:
  assumes "WrittenState_init log_offset p = Some w0" "\<forall>(s, n)\<in>set rs. s + n \<le> UINT64_MAX"
  defines "w \<equiv> fold (\<lambda>(s, n). PublishValidatedWrittenRange s n) rs w0"
  shows "log_offset \<le> ws_frontier w \<and>
         (\<forall>x. log_offset \<le> x \<and> x < ws_frontier w \<longrightarrow> (\<exists>(s, n)\<in>set rs. s \<le> x \<and> x < s + n)) \<and>
         (\<forall>(s, n)\<in>set rs. \<not> (s \<le> ws_frontier w \<and> ws_frontier w < s + n)) \<and>
         ws_published w = (if ws_frontier w = log_offset then p else ws_frontier w)"
proof -
  have "written_ok L p (B \<union> (\<Union>(s, n)\<in>set rs. {s..<s + n})) (fold (\<lambda>(s, n). PublishValidatedWrittenRange s n) rs w0)"
    if "written_ok L p B w0" for L B w0
    using that assms(2)
  proof (induction rs arbitrary: B w0)
    case (Cons r rs)
    obtain s n where r: "r = (s, n)" by (cases r)
    have "written_ok L p (B \<union> {s..<s + n}) (PublishValidatedWrittenRange s n w0)"
      using Cons.prems r by (intro publish_range_ok) auto
    from Cons.IH[OF this] Cons.prems(2) show ?case by (simp add: r Un_assoc)
  qed simp
  note run = this
  have "written_ok log_offset p {} w0"
    using assms(1) by (auto simp: written_ok_def WrittenState_init_def split: if_splits)
  from run[OF this] have "written_ok log_offset p (\<Union>(s, n)\<in>set rs. {s..<s + n}) w" by (simp add: w_def)
  then have u: "{..<ws_frontier w} \<union> bytes_of (ws_ranges w) = {..<log_offset} \<union> (\<Union>(s, n)\<in>set rs. {s..<s + n})"
    and above: "\<forall>(a, b)\<in>set (ws_ranges w). ws_frontier w < a" and ge: "log_offset \<le> ws_frontier w"
    and pub: "ws_published w = (if ws_frontier w = log_offset then p else ws_frontier w)"
    unfolding written_ok_def by blast+
  have "ws_frontier w \<notin> {..<ws_frontier w} \<union> bytes_of (ws_ranges w)" using above by (fastforce simp: bytes_of_def)
  then have "\<forall>(s, n)\<in>set rs. \<not> (s \<le> ws_frontier w \<and> ws_frontier w < s + n)" unfolding u by fastforce
  moreover have "\<exists>(s, n)\<in>set rs. s \<le> x \<and> x < s + n" if "log_offset \<le> x \<and> x < ws_frontier w" for x
  proof -
    have "x \<in> {..<log_offset} \<union> (\<Union>(s, n)\<in>set rs. {s..<s + n})" using that unfolding u[symmetric] by simp
    then show ?thesis using that by fastforce
  qed
  ultimately show ?thesis using ge pub by blast
qed

lemma written_frontier_exact_witness:
  "\<exists>w0. WrittenState_init 128 0 = Some w0 \<and>
     (let w = fold (\<lambda>(s, n). PublishValidatedWrittenRange s n) [(138, 5), (128, 4), (131, 8)] w0
      in ws_frontier w = 143 \<and> ws_published w = 143)"
proof -
  define w0 where "w0 = \<lparr>ws_ranges = [], ws_frontier = 128, ws_published = 0\<rparr>"
  have i: "WrittenState_init 128 0 = Some w0" by (simp add: WrittenState_init_def w0_def)
  have h: "\<forall>(s, n)\<in>set [(138, 5), (128, 4), (131, 8)]. s + n \<le> UINT64_MAX" by (simp add: UINT64_MAX_def)
  have f: "ws_frontier (fold (\<lambda>(s, n). PublishValidatedWrittenRange s n) [(138, 5), (128, 4), (131, 8)] w0) = 143"
    by (simp add: PublishValidatedWrittenRange_def w0_def insert_range_def u64_def)
  from written_frontier_exact[OF i h] f i show ?thesis unfolding Let_def by simp
qed

text \<open>The address published by the Kafka callback is the one of the completion that closed the gap,
  also when later batches that completed before it are released together with it.\<close>

lemma kafka_stale_address:
  "let k = kafka_complete 0 100 4 (kafka_complete 5 200 9
             \<lparr>kf_next = 0, kf_ranges = [], kf_written = 0, kf_addr = 0, kf_tinode_written = 0, kf_tinode_addr = 0, kf_processed = []\<rparr>)
   in kf_tinode_written k = 9 \<and> kf_tinode_addr k = 100 \<and> kf_processed k = [100, 100]"
  by (simp add: kafka_complete_def kafka_publish.simps u64_def om_find_def om_erase_def)

end
