(* ===== verification/AckFrontiers.thy ===== *)
theory AckFrontiers
  imports PbrPublish DurableFrontier Level5Sample
begin

text \<open>
  The acknowledgement frontiers a broker keeps per client (\<open>embarlet/topic.cc\<close>): ordered and
  durable completions of the Corfu baseline, append visibility of LazyLog, durable visibility of
  ORDER=0 from the replicas' progress, durable attribution of ORDER=5 from the GOI and the
  completion vector, and the capability predicates the ACK paths branch on.  The per-client maps
  shared with the ORDER=5 sequencer are those of \<open>Topic\<close>.
\<close>

record AckState =
  ak_tp :: Topic
  ak_seq_type :: SequencerType
  ak_broker :: int
  ak_num_brokers :: int
  ak_max_brokers_config :: int
  ak_num_slots :: nat
  ak_slots :: "nat \<Rightarrow> BatchHeader"
  ak_ordered :: nat
  ak_corfu_completed :: "(nat, nat \<times> nat) omap"
  ak_corfu_next :: nat
  ak_corfu_durable :: DurableFrontier
  ak_corfu_durable_count :: nat
  ak_corfu_client :: bool
  ak_replicate_tinode :: bool
  ak_repl_done :: "int \<Rightarrow> nat"
  ak_replica_repl_done :: "int \<Rightarrow> nat"
  ak_client_written :: "(nat, nat) omap"
  ak_client_durable :: "(nat, nat) omap"
  ak_lazylog_client :: bool
  ak_ll_ready :: "(nat, nat \<times> nat) omap"
  ak_ll_next :: nat
  ak_ll_append :: "(nat, nat) omap"
  ak_ll_progress :: nat
  ak_o0_pending :: "(nat, nat \<times> nat) omap"
  ak_o0_next_key :: nat
  ak_o0_count :: nat
  ak_o5_cursor :: "int \<Rightarrow> nat"
  ak_o5_pin_since :: "int \<Rightarrow> nat"

definition kReplicationNotStarted :: nat where "kReplicationNotStarted = UINT64_MAX"
definition kMinReplicationFactorForAck2 :: int where "kMinReplicationFactorForAck2 = 2"

text \<open>\<open>None\<close> when the replica index is out of range (the call aborts).\<close>

definition GetReplicationSetBroker :: "int \<Rightarrow> int \<Rightarrow> int \<Rightarrow> int \<Rightarrow> int option" where
  "GetReplicationSetBroker b rf num_brokers replica_index =
     (if replica_index \<ge> rf then None else Some ((b + replica_index) mod num_brokers))"

definition replication_set :: "AckState \<Rightarrow> int \<Rightarrow> int list" where
  "replication_set a num_brokers =
     map (\<lambda>i. the (GetReplicationSetBroker (ak_broker a) (tp_replication_factor (ak_tp a)) num_brokers (int i)))
       [0..<nat (tp_replication_factor (ak_tp a))]"

subsection \<open>Per-client counters and capabilities\<close>

definition UpdatePerClientOrdered :: "nat \<Rightarrow> nat \<Rightarrow> AckState \<Rightarrow> AckState" where
  "UpdatePerClientOrdered cid cnt a =
     (case CurrentControlEpoch (ak_tp a) of (epoch, t) \<Rightarrow>
        a\<lparr>ak_tp := t\<lparr>tp_per_client_ordered := om_add cid cnt (tp_per_client_ordered t),
                       tp_per_client_ordered_epoch := om_put cid epoch (tp_per_client_ordered_epoch t)\<rparr>\<rparr>)"

definition UpdatePerClientWritten :: "nat \<Rightarrow> nat \<Rightarrow> AckState \<Rightarrow> AckState" where
  "UpdatePerClientWritten cid cnt a = a\<lparr>ak_client_written := om_add cid cnt (ak_client_written a)\<rparr>"

definition UpdatePerClientDurable :: "nat \<Rightarrow> nat \<Rightarrow> AckState \<Rightarrow> AckState" where
  "UpdatePerClientDurable cid cnt a = a\<lparr>ak_client_durable := om_add cid cnt (ak_client_durable a)\<rparr>"

definition GetClientWritten :: "AckState \<Rightarrow> nat \<Rightarrow> nat" where
  "GetClientWritten a cid = om_get 0 (ak_client_written a) cid"

definition RestampRecoveredOrderedEpochs :: "nat \<Rightarrow> Topic \<Rightarrow> Topic" where
  "RestampRecoveredOrderedEpochs epoch t =
     (if epoch = 0 then t
      else t\<lparr>tp_per_client_ordered_epoch :=
        fold (\<lambda>(key, _). om_put (unat (drop_bit 32 key)) epoch) (tp_recovered_next_expected t) (tp_per_client_ordered_epoch t)\<rparr>)"

text \<open>Result: whether the ACK may be relayed, with the producing and the control epoch.\<close>

definition AckRelayEpochValid :: "nat \<Rightarrow> Topic \<Rightarrow> (bool \<times> nat \<times> nat) \<times> Topic" where
  "AckRelayEpochValid cid t =
     (case CurrentControlEpoch t of (control, t1) \<Rightarrow>
        let producing = om_get 0 (tp_per_client_ordered_epoch t1) cid
        in ((if producing = 0 then True else \<not> ShouldWithholdAckRelay producing control, producing, control), t1))"

definition SupportsPerClientAppendAckLevel1 :: "AckState \<Rightarrow> bool" where
  "SupportsPerClientAppendAckLevel1 a \<longleftrightarrow>
     ak_seq_type a = LAZYLOG \<and> tp_order (ak_tp a) = kOrderTotal \<and> ak_lazylog_client a"

definition SupportsPerClientAckLevel1 :: "AckState \<Rightarrow> bool" where
  "SupportsPerClientAckLevel1 a =
     (case ak_seq_type a of
        CORFU \<Rightarrow> tp_order (ak_tp a) = kOrderTotal
      | LAZYLOG \<Rightarrow> tp_order (ak_tp a) = kOrderTotal
      | SCALOG \<Rightarrow> tp_order (ak_tp a) = kOrderPerBroker
      | EMBARCADERO \<Rightarrow> tp_order (ak_tp a) = kOrderPerBroker
      | KAFKA \<Rightarrow> False)"

definition SupportsPerClientWrittenAckLevel1 :: "AckState \<Rightarrow> bool" where
  "SupportsPerClientWrittenAckLevel1 a \<longleftrightarrow> ak_seq_type a = EMBARCADERO \<and> tp_order (ak_tp a) = 0"

definition SupportsPerClientAckLevel2Durable :: "AckState \<Rightarrow> bool" where
  "SupportsPerClientAckLevel2Durable a =
     (let rf = tp_replication_factor (ak_tp a); order = tp_order (ak_tp a)
      in case ak_seq_type a of
        EMBARCADERO \<Rightarrow> if rf < kMinReplicationFactorForAck2 then False else order = 0 \<or> order = kOrderStrong
      | CORFU \<Rightarrow> order = kOrderTotal \<and> rf \<ge> kMinReplicationFactorForAck2 \<and> ak_corfu_client a
      | LAZYLOG \<Rightarrow> order = kOrderTotal \<and> rf \<ge> kMinReplicationFactorForAck2 \<and> ak_lazylog_client a
      | SCALOG \<Rightarrow> order = kOrderPerBroker \<and> rf \<ge> kMinReplicationFactorForAck2
      | KAFKA \<Rightarrow> False)"

subsection \<open>Corfu completions\<close>

text \<open>The loop that releases the contiguous prefix: messages to acknowledge and the per-client
  amounts are accumulated; a slot that was reused by a newer batch is not marked.\<close>

function corfu_drain :: "AckState \<Rightarrow> nat \<Rightarrow> (nat, nat) omap \<Rightarrow> AckState \<times> nat \<times> (nat, nat) omap" where
  "corfu_drain a total_msgs delta =
     (case om_find (ak_corfu_completed a) (ak_corfu_next a) of
        None \<Rightarrow> (a, total_msgs, delta)
      | Some (n, cid) \<Rightarrow>
          let slot = ak_corfu_next a mod ak_num_slots a;
              slots = (if bh_pbr_absolute_index (ak_slots a slot) \<noteq> ak_corfu_next a then ak_slots a
                       else (ak_slots a)(slot := (ak_slots a slot)\<lparr>bh_ordered := 1\<rparr>))
          in corfu_drain (a\<lparr>ak_slots := slots, ak_corfu_completed := om_erase (ak_corfu_next a) (ak_corfu_completed a),
                            ak_corfu_next := u64 (ak_corfu_next a + 1)\<rparr>)
               (u64 (total_msgs + n)) (om_add cid n delta))"
  by pat_completeness auto
termination
  by (relation "measure (\<lambda>(a, n, d). length (ak_corfu_completed a))") (auto simp: length_om_erase_less)

declare corfu_drain.simps [simp del]

definition RecordCorfuOrder2BatchCompletion :: "nat \<Rightarrow> nat \<Rightarrow> nat \<Rightarrow> AckState \<Rightarrow> AckState" where
  "RecordCorfuOrder2BatchCompletion batch_seq num_msg cid a =
     (if ak_seq_type a \<noteq> CORFU \<or> tp_order (ak_tp a) \<noteq> kOrderTotal \<or> ak_num_slots a = 0 then a
      else case om_emplace batch_seq (num_msg, cid) (ak_corfu_completed a) of
        (_, False) \<Rightarrow> a
      | (completed, True) \<Rightarrow>
          (case corfu_drain (a\<lparr>ak_corfu_completed := completed\<rparr>) 0 [] of
             (a1, msgs, delta) \<Rightarrow>
               if msgs > 0
               then fold (\<lambda>(c, n). UpdatePerClientOrdered c n) delta (a1\<lparr>ak_ordered := u64 (ak_ordered a1 + msgs)\<rparr>)
               else a1))"

definition RecordCorfuOrder2DurableCompletion :: "nat \<Rightarrow> nat \<Rightarrow> nat \<Rightarrow> AckState \<Rightarrow> AckState" where
  "RecordCorfuOrder2DurableCompletion batch_seq num_msg cid a =
     (if ak_seq_type a \<noteq> CORFU \<or> tp_order (ak_tp a) \<noteq> kOrderTotal \<or> tp_replication_factor (ak_tp a) \<le> 1 then a
      else case Record batch_seq \<lparr>db_message_count = num_msg, db_client_id = cid\<rparr> (Some []) (ak_corfu_durable a) of
        (False, _, _) \<Rightarrow> a
      | (True, f, out) \<Rightarrow>
          let newly = the out;
              msgs = foldl (\<lambda>s b. u64 (s + db_message_count b)) 0 newly;
              delta = foldl (\<lambda>d b. om_add (db_client_id b) (db_message_count b) d) [] newly;
              a1 = a\<lparr>ak_corfu_durable := f\<rparr>
          in if msgs = 0 then a1
             else let start = ak_corfu_durable_count a1;
                      last_offset = sub64 (u64 (start + msgs)) 1;
                      bs = replication_set a1 (ak_num_brokers a1);
                      put = (\<lambda>m. fold (\<lambda>b m. m(b := last_offset)) bs m);
                      a2 = a1\<lparr>ak_corfu_durable_count := u64 (start + msgs),
                              ak_replica_repl_done := (if ak_replicate_tinode a1 then put (ak_replica_repl_done a1)
                                                       else ak_replica_repl_done a1),
                              ak_repl_done := put (ak_repl_done a1)\<rparr>
                  in fold (\<lambda>(c, n). UpdatePerClientDurable c n) delta a2)"

subsection \<open>LazyLog append visibility\<close>

definition RecordLazyLogMetadataReplicaAck :: "nat \<Rightarrow> nat \<Rightarrow> nat \<Rightarrow> AckState \<Rightarrow> AckState" where
  "RecordLazyLogMetadataReplicaAck start num_msg cid a =
     (if \<not> SupportsPerClientAppendAckLevel1 a \<or> num_msg = 0 then a
      else a\<lparr>ak_ll_ready := fst (om_emplace start (num_msg, cid) (ak_ll_ready a))\<rparr>)"

text \<open>The slowest replica's next offset, when all replicas have started.\<close>

definition replica_frontier :: "AckState \<Rightarrow> int \<Rightarrow> nat option" where
  "replica_frontier a num_brokers =
     (let dones = map (ak_repl_done a) (replication_set a num_brokers);
          started = filter (\<lambda>v. v \<noteq> kReplicationNotStarted) dones
      in if length started < nat (tp_replication_factor (ak_tp a)) then None
         else Some (foldl (\<lambda>m v. min m (u64 (v + 1))) UINT64_MAX started))"

function lazylog_drain :: "nat \<Rightarrow> AckState \<Rightarrow> AckState" where
  "lazylog_drain data_frontier a =
     (case om_find (ak_ll_ready a) (ak_ll_next a) of
        None \<Rightarrow> a
      | Some (n, cid) \<Rightarrow>
          let e = u64 (ak_ll_next a + n)
          in if e > data_frontier then a
             else lazylog_drain data_frontier
                    (a\<lparr>ak_ll_append := om_add cid n (ak_ll_append a), ak_ll_progress := u64 (ak_ll_progress a + n),
                       ak_ll_ready := om_erase (ak_ll_next a) (ak_ll_ready a), ak_ll_next := e\<rparr>))"
  by pat_completeness auto
termination
  by (relation "measure (\<lambda>(f, a). length (ak_ll_ready a))") (auto simp: length_om_erase_less)

declare lazylog_drain.simps [simp del]

definition MaybeAdvanceLazyLogAppendVisibility :: "AckState \<Rightarrow> AckState" where
  "MaybeAdvanceLazyLogAppendVisibility a =
     (if \<not> SupportsPerClientAppendAckLevel1 a \<or> tp_replication_factor (ak_tp a) \<le> 0 then a
      else case replica_frontier a (ak_num_brokers a) of None \<Rightarrow> a | Some f \<Rightarrow> lazylog_drain f a)"

definition GetClientAppend :: "nat \<Rightarrow> AckState \<Rightarrow> nat \<times> AckState" where
  "GetClientAppend cid a =
     (let a' = MaybeAdvanceLazyLogAppendVisibility a in (om_get 0 (ak_ll_append a') cid, a'))"

subsection \<open>Durable visibility of ORDER=0\<close>

definition uses_replication_done_durability :: "AckState \<Rightarrow> bool" where
  "uses_replication_done_durability a \<longleftrightarrow> ak_seq_type a = EMBARCADERO \<and> tp_order (ak_tp a) = 0"

definition RecordOrder0DurableBatch :: "nat \<Rightarrow> nat \<Rightarrow> nat \<Rightarrow> AckState \<Rightarrow> AckState" where
  "RecordOrder0DurableBatch key num_msg cid a =
     (if \<not> uses_replication_done_durability a \<or> tp_replication_factor (ak_tp a) \<le> 0 \<or> num_msg = 0 then a
      else a\<lparr>ak_o0_pending := fst (om_emplace key (num_msg, cid) (ak_o0_pending a))\<rparr>)"

function order0_drain :: "nat \<Rightarrow> AckState \<Rightarrow> AckState" where
  "order0_drain durable_frontier a =
     (if \<not> ak_o0_count a < durable_frontier then a
      else case om_find (ak_o0_pending a) (ak_o0_next_key a) of
        None \<Rightarrow> a
      | Some (n, cid) \<Rightarrow>
          let batch_end = u64 (ak_o0_count a + n)
          in if batch_end > durable_frontier then a
             else order0_drain durable_frontier
                    (a\<lparr>ak_client_durable := om_add cid n (ak_client_durable a), ak_o0_count := batch_end,
                       ak_o0_pending := om_erase (ak_o0_next_key a) (ak_o0_pending a),
                       ak_o0_next_key := u64 (ak_o0_next_key a + n)\<rparr>))"
  by pat_completeness auto
termination
  by (relation "measure (\<lambda>(f, a). length (ak_o0_pending a))") (auto simp: length_om_erase_less)

declare order0_drain.simps [simp del]

definition MaybeAdvanceOrder0DurableVisibility :: "AckState \<Rightarrow> AckState" where
  "MaybeAdvanceOrder0DurableVisibility a =
     (if \<not> uses_replication_done_durability a \<or> tp_replication_factor (ak_tp a) \<le> 0 then a
      else let num_brokers = (if ak_num_brokers a \<le> 0 then ak_max_brokers_config a else ak_num_brokers a);
               started = filter (\<lambda>v. v \<noteq> kReplicationNotStarted) (map (ak_repl_done a) (replication_set a num_brokers));
               min_done = foldl min UINT64_MAX started
           in if length started < nat (tp_replication_factor (ak_tp a)) \<or> min_done = kReplicationNotStarted then a
              else order0_drain (min_done + 1) a)"

definition GetClientDurable :: "nat \<Rightarrow> AckState \<Rightarrow> nat \<times> AckState" where
  "GetClientDurable cid a =
     (let a' = MaybeAdvanceOrder0DurableVisibility a in (om_get 0 (ak_client_durable a') cid, a'))"

subsection \<open>Durable attribution of ORDER=5\<close>

text \<open>The scan of one owner's entries, up to \<open>committed\<close>; \<open>True\<close> when it stopped at an entry that
  is not durable yet.\<close>

function order5_scan :: "nat \<Rightarrow> nat \<Rightarrow> int \<Rightarrow> (nat \<Rightarrow> GOIEntry) \<Rightarrow> nat \<Rightarrow> (nat, nat) omap \<Rightarrow> bool \<times> nat \<times> (nat, nat) omap" where
  "order5_scan committed durable owner goi cursor credits =
     (if cursor > committed then (False, cursor, credits)
      else let e = goi cursor
           in if ge_global_seq e \<noteq> cursor then (False, cursor, credits)
              else if int (ge_broker_id e) \<noteq> owner then order5_scan committed durable owner goi (cursor + 1) credits
              else if ge_message_count e = 0 then order5_scan committed durable owner goi (cursor + 1) credits
              else if durable < ge_cumulative_message_count e then (True, cursor, credits)
              else order5_scan committed durable owner goi (cursor + 1)
                     (om_add (u32 (ge_client_id e)) (ge_message_count e) credits))"
  by pat_completeness auto
termination
  by (relation "measure (\<lambda>(committed, d, ow, g, cursor, c). Suc committed - cursor)") auto

declare order5_scan.simps [simp del]

definition order5_owner :: "nat \<Rightarrow> nat \<Rightarrow> (int \<Rightarrow> nat) \<Rightarrow> int \<Rightarrow> AckState \<Rightarrow> AckState" where
  "order5_owner committed now durable_logical owner a =
     (case order5_scan committed (durable_logical owner) owner (tp_goi (ak_tp a)) (ak_o5_cursor a owner) (ak_client_durable a) of
        (pinned, cursor, credits) \<Rightarrow>
          a\<lparr>ak_client_durable := credits, ak_o5_cursor := (ak_o5_cursor a)(owner := cursor),
            ak_o5_pin_since := (ak_o5_pin_since a)(owner :=
              (if pinned then (if ak_o5_pin_since a owner = 0 then now else ak_o5_pin_since a owner) else 0))\<rparr>)"

definition MaybeAdvanceOrder5DurableFromCV :: "AckState \<Rightarrow> AckState" where
  "MaybeAdvanceOrder5DurableFromCV a =
     (if tp_order (ak_tp a) \<noteq> kOrderStrong \<or> ak_seq_type a \<noteq> EMBARCADERO then a
      else if tp_replication_factor (ak_tp a) < kMinReplicationFactorForAck2 then a
      else if tp_committed_seq (ak_tp a) = UINT64_MAX then a
      else case SteadyNowNs (ak_tp a) of (now, t) \<Rightarrow>
        fold (order5_owner (tp_committed_seq t) now (\<lambda>b. cv_completed_logical_offset (tp_cv t b)))
          broker_ids (a\<lparr>ak_tp := t\<rparr>))"

subsection \<open>Corfu: exact prefix\<close>

lemma u64_add_u64 [simp]: "u64 (u64 a + b) = u64 (a + b)" "u64 (a + u64 b) = u64 (a + b)"
  by (simp_all add: u64_def mod_add_left_eq mod_add_right_eq)

text \<open>What was completed, as a specification: the first completion of each sequence.\<close>

definition first_completion :: "(nat \<times> nat \<times> nat) list \<Rightarrow> nat \<Rightarrow> (nat \<times> nat) option" where
  "first_completion cs = map_of (map (\<lambda>(s, n, c). (s, (n, c))) cs)"

definition msgs_of :: "(nat \<Rightarrow> (nat \<times> nat) option) \<Rightarrow> nat \<Rightarrow> nat" where
  "msgs_of F s = (case F s of None \<Rightarrow> 0 | Some (n, c) \<Rightarrow> n)"

definition client_msgs_of :: "(nat \<Rightarrow> (nat \<times> nat) option) \<Rightarrow> nat \<Rightarrow> nat \<Rightarrow> nat" where
  "client_msgs_of F c s = (case F s of None \<Rightarrow> 0 | Some (n, c') \<Rightarrow> if c' = c then n else 0)"

abbreviation prefix_msgs :: "(nat \<Rightarrow> (nat \<times> nat) option) \<Rightarrow> nat \<Rightarrow> nat" where
  "prefix_msgs F n \<equiv> sum (msgs_of F) {..<n}"

abbreviation prefix_client :: "(nat \<Rightarrow> (nat \<times> nat) option) \<Rightarrow> nat \<Rightarrow> nat \<Rightarrow> nat" where
  "prefix_client F c n \<equiv> sum (client_msgs_of F c) {..<n}"

lemma client_le_msgs: "client_msgs_of F c s \<le> msgs_of F s"
  by (auto simp: client_msgs_of_def msgs_of_def split: option.splits)

lemma sum_lessThan_mono: "m \<le> n \<Longrightarrow> sum f {..<m} \<le> sum (f :: nat \<Rightarrow> nat) {..<n}"
  by (rule sum_mono2) auto

lemma prefix_client_le: "prefix_client F c n \<le> prefix_msgs F n"
  by (rule sum_mono) (rule client_le_msgs)

definition corfu_ok :: "(nat \<Rightarrow> (nat \<times> nat) option) \<Rightarrow> nat \<Rightarrow> AckState \<Rightarrow> bool" where
  "corfu_ok F b a \<longleftrightarrow>
     (\<forall>s\<ge>ak_corfu_next a. om_find (ak_corfu_completed a) s = F s) \<and> (\<forall>s<ak_corfu_next a. F s \<noteq> None) \<and>
     (\<forall>s. F s \<noteq> None \<longrightarrow> s < b) \<and> om_ok (ak_corfu_completed a)"

definition ack_frame :: "AckState \<Rightarrow> AckState \<Rightarrow> bool" where
  "ack_frame a a' \<longleftrightarrow> ak_tp a' = ak_tp a \<and> ak_ordered a' = ak_ordered a \<and> ak_seq_type a' = ak_seq_type a \<and>
     ak_num_slots a' = ak_num_slots a"

lemma corfu_drain_spec:
  assumes "corfu_drain a k d = (a', k', d')" "corfu_ok F b a" "b \<le> UINT64_MAX" "prefix_msgs F b \<le> UINT64_MAX"
    "k \<le> prefix_msgs F (ak_corfu_next a)" "\<forall>c. om_get 0 d c \<le> prefix_client F c (ak_corfu_next a)" "om_ok d"
  shows "corfu_ok F b a' \<and> F (ak_corfu_next a') = None \<and> ak_corfu_next a \<le> ak_corfu_next a' \<and> om_ok d' \<and> ack_frame a a' \<and>
    k' + prefix_msgs F (ak_corfu_next a) = k + prefix_msgs F (ak_corfu_next a') \<and>
    (\<forall>c. om_get 0 d' c + prefix_client F c (ak_corfu_next a) = om_get 0 d c + prefix_client F c (ak_corfu_next a'))"
  using assms
proof (induction a k d arbitrary: a' k' d' rule: corfu_drain.induct)
  case (1 a k d)
  let ?n = "ak_corfu_next a"
  show ?case
  proof (cases "om_find (ak_corfu_completed a) ?n")
    case None
    then have "a' = a" "k' = k" "d' = d" using 1(2) corfu_drain.simps[of a k d] by simp_all
    then show ?thesis using 1(3,8) None by (auto simp: corfu_ok_def ack_frame_def)
  next
    case (Some v)
    obtain m cid where v: "v = (m, cid)" by (cases v)
    have F: "F ?n = Some (m, cid)" using 1(3) Some v by (auto simp: corfu_ok_def)
    then have nb: "?n < b" using 1(3) by (auto simp: corfu_ok_def)
    then have nx: "u64 (Suc ?n) = Suc ?n" using 1(4) by simp
    have mF: "msgs_of F ?n = m" "\<And>c. client_msgs_of F c ?n = (if c = cid then m else 0)"
      using F by (auto simp: msgs_of_def client_msgs_of_def)
    have le: "prefix_msgs F (Suc ?n) \<le> UINT64_MAX"
      using sum_lessThan_mono[of "Suc ?n" b "msgs_of F"] nb 1(5) by simp
    have k1: "u64 (k + m) = k + m" "k + m \<le> prefix_msgs F (Suc ?n)" using 1(6) le mF(1) by simp_all
    have cle: "prefix_client F cid (Suc ?n) \<le> UINT64_MAX" using prefix_client_le[of F cid "Suc ?n"] le by linarith
    have "om_get 0 d cid \<le> prefix_client F cid ?n" using 1(7) by blast
    then have d1: "u64 (om_get 0 d cid + m) = om_get 0 d cid + m" using cle mF(2)[of cid] by simp
    define slots where "slots = (if bh_pbr_absolute_index (ak_slots a (?n mod ak_num_slots a)) \<noteq> ?n then ak_slots a
        else (ak_slots a)(?n mod ak_num_slots a := (ak_slots a (?n mod ak_num_slots a))\<lparr>bh_ordered := 1\<rparr>))"
    define a1 where "a1 = a\<lparr>ak_slots := slots, ak_corfu_completed := om_erase ?n (ak_corfu_completed a), ak_corfu_next := u64 (?n + 1)\<rparr>"
    have step: "corfu_drain a1 (u64 (k + m)) (om_add cid m d) = (a', k', d')"
      using 1(2) Some v corfu_drain.simps[of a k d] by (simp add: a1_def slots_def Let_def)
    have n1: "ak_corfu_next a1 = Suc ?n" using nx by (simp add: a1_def)
    have ok1: "corfu_ok F b a1"
      using 1(3) F nx by (auto simp: corfu_ok_def a1_def less_Suc_eq)
    have dd: "om_get 0 (om_add cid m d) c = om_get 0 d c + client_msgs_of F c ?n" for c
      using d1 mF(2)[of c] by simp
    have pre: "u64 (k + m) \<le> prefix_msgs F (ak_corfu_next a1)" "om_ok (om_add cid m d)"
      using k1 1(8) by (simp_all add: n1 om_add_def[of cid m d])
    have pre': "\<forall>c. om_get 0 (om_add cid m d) c \<le> prefix_client F c (ak_corfu_next a1)"
      unfolding n1 dd using 1(7) by simp
    note ih = 1(1)[OF Some v[symmetric] refl refl, unfolded slots_def[symmetric] a1_def[symmetric], OF step ok1 1(4,5) pre(1) pre' pre(2)]
    have "ack_frame a a1" by (simp add: a1_def ack_frame_def)
    then have "ack_frame a a'" using ih by (auto simp: ack_frame_def)
    moreover have "k' + prefix_msgs F ?n = k + prefix_msgs F (ak_corfu_next a')"
      using ih k1(1) mF(1) by (simp add: n1)
    moreover have "\<forall>c. om_get 0 d' c + prefix_client F c ?n = om_get 0 d c + prefix_client F c (ak_corfu_next a')"
      using ih unfolding n1 dd by simp
    ultimately show ?thesis using ih n1 by auto
  qed
qed

lemma CurrentControlEpoch_frame:
  "CurrentControlEpoch t = (e, t') \<Longrightarrow> tp_per_client_ordered t' = tp_per_client_ordered t \<and> tp_order t' = tp_order t"
  by (auto simp: CurrentControlEpoch_def SteadyNowNs_def split: if_splits)

lemma UpdatePerClientOrdered_shape:
  "\<exists>t ep. UpdatePerClientOrdered c n a =
     a\<lparr>ak_tp := t\<lparr>tp_per_client_ordered := om_add c n (tp_per_client_ordered (ak_tp a)), tp_per_client_ordered_epoch := ep\<rparr>\<rparr> \<and>
     tp_order t = tp_order (ak_tp a)"
proof -
  obtain e t where e: "CurrentControlEpoch (ak_tp a) = (e, t)" by (cases "CurrentControlEpoch (ak_tp a)")
  show ?thesis unfolding UpdatePerClientOrdered_def e using CurrentControlEpoch_frame[OF e] by (metis case_prod_conv)
qed

lemma UpdatePerClientOrdered_frame:
  "tp_per_client_ordered (ak_tp (UpdatePerClientOrdered c n a)) = om_add c n (tp_per_client_ordered (ak_tp a))"
  "tp_order (ak_tp (UpdatePerClientOrdered c n a)) = tp_order (ak_tp a)"
  "ak_ordered (UpdatePerClientOrdered c n a) = ak_ordered a" "ak_seq_type (UpdatePerClientOrdered c n a) = ak_seq_type a"
  "ak_num_slots (UpdatePerClientOrdered c n a) = ak_num_slots a" "ak_corfu_next (UpdatePerClientOrdered c n a) = ak_corfu_next a"
  "ak_corfu_completed (UpdatePerClientOrdered c n a) = ak_corfu_completed a"
  using UpdatePerClientOrdered_shape[of c n a] by (elim exE conjE; simp)+

lemma fold_UpdatePerClientOrdered:
  fixes d :: "(nat, nat) omap"
  defines "upd \<equiv> fold (\<lambda>(c, n). UpdatePerClientOrdered c n) d"
  shows "tp_order (ak_tp (upd a)) = tp_order (ak_tp a)" "ak_ordered (upd a) = ak_ordered a"
    "ak_seq_type (upd a) = ak_seq_type a" "ak_num_slots (upd a) = ak_num_slots a" "ak_corfu_next (upd a) = ak_corfu_next a"
    "ak_corfu_completed (upd a) = ak_corfu_completed a"
  unfolding upd_def by (induction d arbitrary: a) (auto simp: UpdatePerClientOrdered_frame)

lemma fold_client_ordered:
  fixes d :: "(nat, nat) omap"
  assumes "om_ok d" "\<forall>c. om_get 0 (tp_per_client_ordered (ak_tp a)) c + om_get 0 d c \<le> UINT64_MAX"
  shows "om_get 0 (tp_per_client_ordered (ak_tp (fold (\<lambda>(c, n). UpdatePerClientOrdered c n) d a))) c =
         om_get 0 (tp_per_client_ordered (ak_tp a)) c + om_get 0 d c"
proof -
  have "tp_per_client_ordered (ak_tp (fold (\<lambda>(c, n). UpdatePerClientOrdered c n) d a)) =
      fold (\<lambda>(c, n). om_add c n) d (tp_per_client_ordered (ak_tp a))" for d
    by (induction d arbitrary: a) (auto simp: UpdatePerClientOrdered_frame)
  then show ?thesis using fold_om_add[OF assms] by simp
qed

definition corfu_inv :: "(nat \<Rightarrow> (nat \<times> nat) option) \<Rightarrow> nat \<Rightarrow> AckState \<Rightarrow> bool" where
  "corfu_inv F b a \<longleftrightarrow> corfu_ok F b a \<and> F (ak_corfu_next a) = None \<and> ak_ordered a = prefix_msgs F (ak_corfu_next a) \<and>
     (\<forall>c. om_get 0 (tp_per_client_ordered (ak_tp a)) c = prefix_client F c (ak_corfu_next a)) \<and>
     ak_seq_type a = CORFU \<and> tp_order (ak_tp a) = kOrderTotal \<and> ak_num_slots a \<noteq> 0"

lemma prefix_cong: "(\<And>s. s < n \<Longrightarrow> F s = G s) \<Longrightarrow> prefix_msgs F n = prefix_msgs G n \<and> prefix_client F c n = prefix_client G c n"
  by (auto simp: msgs_of_def client_msgs_of_def intro!: sum.cong)

lemma corfu_completion_step:
  fixes n cid :: nat
  assumes inv: "corfu_inv F b a" and b: "b \<le> UINT64_MAX" "seq < b"
  defines "G \<equiv> (if F seq = None then F(seq \<mapsto> (n, cid)) else F)"
  assumes tot: "prefix_msgs G b \<le> UINT64_MAX"
  shows "corfu_inv G b (RecordCorfuOrder2BatchCompletion seq n cid a)"
proof (cases "om_find (ak_corfu_completed a) seq")
  case (Some v)
  then have "F seq \<noteq> None" using inv by (cases "seq < ak_corfu_next a") (auto simp: corfu_inv_def corfu_ok_def)
  moreover have "RecordCorfuOrder2BatchCompletion seq n cid a = a"
    using Some inv by (simp add: RecordCorfuOrder2BatchCompletion_def om_emplace_def)
  ultimately show ?thesis using inv by (auto simp: G_def)
next
  case None
  let ?a = "a\<lparr>ak_corfu_completed := om_put seq (n, cid) (ak_corfu_completed a)\<rparr>"
  let ?N = "ak_corfu_next a"
  have FG: "G s = F s" if "s < ?N" for s using that inv by (auto simp: G_def corfu_inv_def corfu_ok_def)
  have ok: "corfu_ok G b ?a"
    using inv None b(2) FG by (auto simp: corfu_inv_def corfu_ok_def G_def)
  obtain a1 k d where dr: "corfu_drain ?a 0 [] = (a1, k, d)" by (cases "corfu_drain ?a 0 []")
  note sp = corfu_drain_spec[OF dr ok b(1) tot]
  have sp: "corfu_ok G b a1" "G (ak_corfu_next a1) = None" "?N \<le> ak_corfu_next a1" "om_ok d" "ack_frame ?a a1"
    "k + prefix_msgs G ?N = prefix_msgs G (ak_corfu_next a1)"
    "\<And>c. om_get 0 d c + prefix_client G c ?N = prefix_client G c (ak_corfu_next a1)"
    using sp by (simp_all add: om_get_def)
  have pre: "prefix_msgs G ?N = ak_ordered a" "\<And>c. prefix_client G c ?N = om_get 0 (tp_per_client_ordered (ak_tp a)) c"
    using prefix_cong[of ?N G F] FG inv by (simp_all add: corfu_inv_def)
  have nb: "ak_corfu_next a1 \<le> b" using sp(1) by (fastforce simp: corfu_ok_def not_less[symmetric])
  have le: "prefix_msgs G (ak_corfu_next a1) \<le> UINT64_MAX"
    using sum_lessThan_mono[OF nb, of "msgs_of G"] tot by linarith
  have cle: "prefix_client G c (ak_corfu_next a1) \<le> UINT64_MAX" for c using prefix_client_le le order_trans by blast
  have tp: "ak_tp a1 = ak_tp a" "ak_ordered a1 = ak_ordered a" "ak_seq_type a1 = ak_seq_type a" "ak_num_slots a1 = ak_num_slots a"
    using sp(5) by (simp_all add: ack_frame_def)
  have rec: "RecordCorfuOrder2BatchCompletion seq n cid a =
      (if k > 0 then fold (\<lambda>(c, n). UpdatePerClientOrdered c n) d (a1\<lparr>ak_ordered := u64 (ak_ordered a1 + k)\<rparr>) else a1)"
    using inv None dr by (simp add: RecordCorfuOrder2BatchCompletion_def om_emplace_def corfu_inv_def)
  show ?thesis
  proof (cases "k > 0")
    case True
    let ?a2 = "a1\<lparr>ak_ordered := u64 (ak_ordered a1 + k)\<rparr>"
    have o: "u64 (ak_ordered a1 + k) = prefix_msgs G (ak_corfu_next a1)"
      using sp(6) pre(1) tp(2) le by simp
    have cl: "om_get 0 (tp_per_client_ordered (ak_tp ?a2)) c + om_get 0 d c = prefix_client G c (ak_corfu_next a1)" for c
      using sp(7)[of c] pre(2)[of c] tp(1) by simp
    have bound: "\<forall>c. om_get 0 (tp_per_client_ordered (ak_tp ?a2)) c + om_get 0 d c \<le> UINT64_MAX" unfolding cl using cle by blast
    let ?f = "fold (\<lambda>(c, n). UpdatePerClientOrdered c n) d ?a2"
    have r: "RecordCorfuOrder2BatchCompletion seq n cid a = ?f" using rec True by simp
    have fr: "ak_corfu_next ?f = ak_corfu_next a1" "ak_ordered ?f = prefix_msgs G (ak_corfu_next a1)"
      "ak_corfu_completed ?f = ak_corfu_completed a1" "ak_seq_type ?f = ak_seq_type a" "ak_num_slots ?f = ak_num_slots a"
      "tp_order (ak_tp ?f) = tp_order (ak_tp a)"
      using o tp by (simp_all add: fold_UpdatePerClientOrdered)
    have cf: "om_get 0 (tp_per_client_ordered (ak_tp ?f)) c = prefix_client G c (ak_corfu_next a1)" for c
      using fold_client_ordered[OF sp(4) bound] cl by simp
    show ?thesis unfolding r using sp(1,2) inv unfolding corfu_inv_def corfu_ok_def fr cf by blast
  next
    case False
    then have "k = 0" by simp
    have "prefix_client G c (ak_corfu_next a1) - prefix_client G c ?N \<le> prefix_msgs G (ak_corfu_next a1) - prefix_msgs G ?N" for c
    proof -
      have "sum f {..<ak_corfu_next a1} = sum f {..<?N} + sum f {?N..<ak_corfu_next a1}" for f :: "nat \<Rightarrow> nat"
        using sp(3) by (simp add: sum.union_disjoint[symmetric] ivl_disj_un ivl_disj_int lessThan_atLeast0)
      then show ?thesis by (simp add: sum_mono client_le_msgs)
    qed
    then have "om_get 0 d c = 0" for c using sp(6) sp(7)[of c] \<open>k = 0\<close> by (metis add_diff_cancel_right' add_0 diff_is_0_eq' le_zero_eq order_refl)
    then show ?thesis using False sp pre tp inv \<open>k = 0\<close> by (simp add: rec corfu_inv_def)
  qed
qed

lemma first_completion_snoc:
  "first_completion (cs @ [(s, n, c)]) = (if first_completion cs s = None then (first_completion cs)(s \<mapsto> (n, c)) else first_completion cs)"
  by (auto simp: first_completion_def map_add_def fun_eq_iff split: option.splits)

lemma prefix_first_completion_le: "prefix_msgs (first_completion cs) b \<le> sum_list (map (fst \<circ> snd) cs)"
proof (induction cs rule: rev_induct)
  case Nil
  then show ?case by (simp add: first_completion_def msgs_of_def)
next
  case (snoc x cs)
  obtain s n c where x: "x = (s, n, c)" by (cases x)
  let ?F = "first_completion cs"
  have "msgs_of (first_completion (cs @ [x])) t \<le> msgs_of ?F t + (if t = s then n else 0)" for t
    by (auto simp: x first_completion_snoc msgs_of_def)
  then have "prefix_msgs (first_completion (cs @ [x])) b \<le> (\<Sum>t<b. msgs_of ?F t + (if t = s then n else 0))" by (rule sum_mono)
  also have "\<dots> \<le> prefix_msgs ?F b + n" by (simp add: sum.distrib sum.delta)
  finally show ?case using snoc x by simp
qed

lemma GetClientOrdered_om_get: "GetClientOrdered t c = om_get 0 (tp_per_client_ordered t) c"
  by (simp add: GetClientOrdered_def om_get_def)

definition corfu_run :: "(nat \<times> nat \<times> nat) list \<Rightarrow> AckState \<Rightarrow> AckState" where
  "corfu_run cs a = fold (\<lambda>(s, n, c). RecordCorfuOrder2BatchCompletion s n c) cs a"

definition corfu_fresh :: "AckState \<Rightarrow> bool" where
  "corfu_fresh a \<longleftrightarrow> ak_seq_type a = CORFU \<and> tp_order (ak_tp a) = kOrderTotal \<and> ak_num_slots a \<noteq> 0 \<and>
     ak_corfu_completed a = [] \<and> ak_corfu_next a = 0 \<and> ak_ordered a = 0 \<and> tp_per_client_ordered (ak_tp a) = []"

lemma corfu_run_inv:
  assumes "corfu_fresh a" "\<forall>(s, n, c) \<in> set cs. s < UINT64_MAX" "sum_list (map (fst \<circ> snd) cs) \<le> UINT64_MAX"
  shows "corfu_inv (first_completion cs) UINT64_MAX (corfu_run cs a)"
  using assms
proof (induction cs rule: rev_induct)
  case Nil
  then show ?case
    by (simp add: corfu_run_def corfu_inv_def corfu_ok_def first_completion_def corfu_fresh_def om_get_def om_ok_def)
next
  case (snoc x cs)
  obtain s n c where x: "x = (s, n, c)" by (cases x)
  have "corfu_inv (first_completion cs) UINT64_MAX (corfu_run cs a)" using snoc by simp
  from corfu_completion_step[OF this order_refl, of s n c] snoc.prems(2,3) prefix_first_completion_le[of "cs @ [x]" UINT64_MAX]
  show ?case unfolding x first_completion_snoc[symmetric] by (simp add: corfu_run_def)
qed

text \<open>C33: Corfu acknowledges exactly the contiguous prefix.  However completions arrive (out of
  order, repeated), after any run from a fresh topic the next sequence is the first one not completed,
  the topic's ordered count is the number of messages of the sequences below it, each counted once
  with its first completion, and every client's ordered count is its share of them.\<close>

theorem corfu_ack_prefix_exact:
  assumes "corfu_fresh a" "\<forall>(s, n, c) \<in> set cs. s < UINT64_MAX" "sum_list (map (fst \<circ> snd) cs) \<le> UINT64_MAX"
  shows "first_completion cs (ak_corfu_next (corfu_run cs a)) = None \<and>
     (\<forall>s<ak_corfu_next (corfu_run cs a). first_completion cs s \<noteq> None) \<and>
     ak_ordered (corfu_run cs a) = prefix_msgs (first_completion cs) (ak_corfu_next (corfu_run cs a)) \<and>
     (\<forall>c. GetClientOrdered (ak_tp (corfu_run cs a)) c = prefix_client (first_completion cs) c (ak_corfu_next (corfu_run cs a)))"
  using corfu_run_inv[OF assms] by (auto simp: corfu_inv_def corfu_ok_def GetClientOrdered_om_get)

subsection \<open>Nothing is acknowledged ahead of the replicas\<close>

lemma lazylog_drain_frontier:
  "lazylog_drain f a = a \<or> ak_ll_next (lazylog_drain f a) \<le> f"
proof (induction f a rule: lazylog_drain.induct)
  case (1 f a)
  show ?case
  proof (cases "om_find (ak_ll_ready a) (ak_ll_next a)")
    case None
    then show ?thesis by (simp add: lazylog_drain.simps[of f a])
  next
    case (Some v)
    obtain n cid where v: "v = (n, cid)" by (cases v)
    note ih = 1[OF Some v[symmetric] refl]
    show ?thesis
    proof (cases "u64 (ak_ll_next a + n) > f")
      case True
      then show ?thesis using Some v by (simp add: lazylog_drain.simps[of f a])
    next
      case False
      let ?b = "a\<lparr>ak_ll_append := om_add cid n (ak_ll_append a), ak_ll_progress := u64 (ak_ll_progress a + n),
                 ak_ll_ready := om_erase (ak_ll_next a) (ak_ll_ready a), ak_ll_next := u64 (ak_ll_next a + n)\<rparr>"
      have e: "lazylog_drain f a = lazylog_drain f ?b"
        using Some v False by (simp add: lazylog_drain.simps[of f a])
      from ih[OF False] show ?thesis unfolding e using False by (elim disjE) simp_all
    qed
  qed
qed

lemma order0_drain_frontier:
  "order0_drain f a = a \<or> ak_o0_count (order0_drain f a) \<le> f"
proof (induction f a rule: order0_drain.induct)
  case (1 f a)
  show ?case
  proof (cases "\<not> ak_o0_count a < f \<or> om_find (ak_o0_pending a) (ak_o0_next_key a) = None")
    case True
    then show ?thesis by (auto simp: order0_drain.simps[of f a])
  next
    case False
    then obtain n cid where lt: "\<not> \<not> ak_o0_count a < f" and v: "om_find (ak_o0_pending a) (ak_o0_next_key a) = Some (n, cid)" by auto
    show ?thesis
    proof (cases "u64 (ak_o0_count a + n) > f")
      case True
      then show ?thesis using lt v by (simp add: order0_drain.simps[of f a])
    next
      case False
      let ?b = "a\<lparr>ak_client_durable := om_add cid n (ak_client_durable a), ak_o0_count := u64 (ak_o0_count a + n),
                 ak_o0_pending := om_erase (ak_o0_next_key a) (ak_o0_pending a),
                 ak_o0_next_key := u64 (ak_o0_next_key a + n)\<rparr>"
      have e: "order0_drain f a = order0_drain f ?b"
        using lt v False by (simp add: order0_drain.simps[of f a])
      from 1[OF lt v refl refl False] show ?thesis unfolding e using False by (elim disjE) simp_all
    qed
  qed
qed

lemma foldl_min_le:
  fixes g :: "nat \<Rightarrow> nat"
  shows "foldl (\<lambda>m v. min m (g v)) z xs \<le> z \<and> (\<forall>x\<in>set xs. foldl (\<lambda>m v. min m (g v)) z xs \<le> g x)"
proof (induction xs arbitrary: z)
  case (Cons x xs)
  have "foldl (\<lambda>m v. min m (g v)) (min z (g x)) xs \<le> min z (g x)" using Cons.IH[of "min z (g x)"] by blast
  then show ?case using Cons.IH[of "min z (g x)"] by auto
qed simp

lemma length_replication_set: "length (replication_set a n) = nat (tp_replication_factor (ak_tp a))"
  by (simp add: replication_set_def)

lemma all_started:
  "\<not> length (filter P (map g (replication_set a n))) < nat (tp_replication_factor (ak_tp a)) \<Longrightarrow>
     filter P (map g (replication_set a n)) = map g (replication_set a n)"
  using length_filter_less[of _ "map g (replication_set a n)" P] length_replication_set[of a n]
  by (metis filter_id_conv length_map)

lemma filter_all: "filter P xs = xs \<Longrightarrow> x \<in> set xs \<Longrightarrow> P x"
  by (simp add: filter_id_conv)

text \<open>C20: LazyLog append visibility and ORDER=0 durable visibility stop at the slowest replica:
  when a poll advances, every broker of the replication set has started and its progress covers
  everything below the new position.\<close>

theorem visibility_waits_for_every_replica:
  shows "(MaybeAdvanceLazyLogAppendVisibility a = a \<or>
      (\<forall>b \<in> set (replication_set a (ak_num_brokers a)). ak_repl_done a b \<noteq> kReplicationNotStarted \<and>
         ak_ll_next (MaybeAdvanceLazyLogAppendVisibility a) \<le> ak_repl_done a b + 1)) \<and>
    (MaybeAdvanceOrder0DurableVisibility a = a \<or>
      (\<forall>b \<in> set (replication_set a (if ak_num_brokers a \<le> 0 then ak_max_brokers_config a else ak_num_brokers a)).
         ak_repl_done a b \<noteq> kReplicationNotStarted \<and>
         ak_o0_count (MaybeAdvanceOrder0DurableVisibility a) \<le> ak_repl_done a b + 1))"
    (is "?ll \<and> ?o0")
proof
  let ?P = "\<lambda>v. v \<noteq> kReplicationNotStarted"
  let ?rf = "tp_replication_factor (ak_tp a)"
  show ?ll
  proof (cases "\<not> SupportsPerClientAppendAckLevel1 a \<or> ?rf \<le> 0 \<or>
      length (filter ?P (map (ak_repl_done a) (replication_set a (ak_num_brokers a)))) < nat ?rf")
    case True
    then show ?thesis by (auto simp: MaybeAdvanceLazyLogAppendVisibility_def replica_frontier_def)
  next
    case False
    let ?ds = "map (ak_repl_done a) (replication_set a (ak_num_brokers a))"
    have all: "filter ?P ?ds = ?ds" using False by (intro all_started) simp
    let ?f = "foldl (\<lambda>m v. min m (u64 (v + 1))) UINT64_MAX ?ds"
    have m: "MaybeAdvanceLazyLogAppendVisibility a = lazylog_drain ?f a"
      using False by (simp add: MaybeAdvanceLazyLogAppendVisibility_def replica_frontier_def all del: filter_map)
    have le: "u64 (v + 1) \<le> v + 1" for v by (simp add: u64_def)
    have "ak_repl_done a b \<noteq> kReplicationNotStarted \<and> ?f \<le> ak_repl_done a b + 1"
      if "b \<in> set (replication_set a (ak_num_brokers a))" for b
      using foldl_min_le[of "\<lambda>v. u64 (v + 1)" UINT64_MAX ?ds] filter_all[OF all, of "ak_repl_done a b"] that le[of "ak_repl_done a b"]
      by (auto intro: order_trans)
    then show ?thesis unfolding m using lazylog_drain_frontier[of ?f a] by (meson order_trans)
  qed
  let ?n = "if ak_num_brokers a \<le> 0 then ak_max_brokers_config a else ak_num_brokers a"
  let ?ds = "map (ak_repl_done a) (replication_set a ?n)"
  show ?o0
  proof (cases "\<not> uses_replication_done_durability a \<or> ?rf \<le> 0 \<or> length (filter ?P ?ds) < nat ?rf \<or>
      foldl min UINT64_MAX (filter ?P ?ds) = kReplicationNotStarted")
    case True
    then show ?thesis unfolding MaybeAdvanceOrder0DurableVisibility_def Let_def by auto
  next
    case False
    have all: "filter ?P ?ds = ?ds" using False by (intro all_started) simp
    let ?f = "foldl min UINT64_MAX ?ds"
    have m: "MaybeAdvanceOrder0DurableVisibility a = order0_drain (?f + 1) a"
      using False unfolding MaybeAdvanceOrder0DurableVisibility_def Let_def all by auto
    have "ak_repl_done a b \<noteq> kReplicationNotStarted \<and> ?f + 1 \<le> ak_repl_done a b + 1" if "b \<in> set (replication_set a ?n)" for b
      using foldl_min_le[of "\<lambda>v. v" UINT64_MAX ?ds] filter_all[OF all, of "ak_repl_done a b"] that by auto
    then show ?thesis unfolding m using order0_drain_frontier[of "?f + 1" a] by (meson order_trans)
  qed
qed

subsection \<open>Durable attribution counts every entry once\<close>

text \<open>What one GOI entry is worth to a client when its owner's scan passes it.\<close>

definition goi_credit :: "(nat \<Rightarrow> GOIEntry) \<Rightarrow> int \<Rightarrow> nat \<Rightarrow> nat \<Rightarrow> nat" where
  "goi_credit goi owner c s =
     (if int (ge_broker_id (goi s)) = owner \<and> u32 (ge_client_id (goi s)) = c then ge_message_count (goi s) else 0)"

definition scan_passed :: "nat \<Rightarrow> nat \<Rightarrow> int \<Rightarrow> (nat \<Rightarrow> GOIEntry) \<Rightarrow> nat \<Rightarrow> bool" where
  "scan_passed committed durable owner goi s \<longleftrightarrow> s \<le> committed \<and> ge_global_seq (goi s) = s \<and>
     (int (ge_broker_id (goi s)) = owner \<and> ge_message_count (goi s) \<noteq> 0 \<longrightarrow> ge_cumulative_message_count (goi s) \<le> durable)"

lemma order5_scan_spec:
  assumes "order5_scan committed durable owner goi cur m = (pinned, cur', m')"
    "\<forall>c. om_get 0 m c + sum (goi_credit goi owner c) {cur..committed} \<le> UINT64_MAX"
  shows "cur \<le> cur' \<and> (\<forall>s\<in>{cur..<cur'}. scan_passed committed durable owner goi s) \<and> \<not> scan_passed committed durable owner goi cur' \<and>
     (\<forall>c. om_get 0 m' c = om_get 0 m c + sum (goi_credit goi owner c) {cur..<cur'})"
  using assms
proof (induction committed durable owner goi cur m arbitrary: pinned cur' m' rule: order5_scan.induct)
  case (1 committed durable owner goi cur m)
  note sc = order5_scan.simps[of committed durable owner goi cur m]
  let ?e = "goi cur"
  show ?case
  proof (cases "scan_passed committed durable owner goi cur")
    case False
    then have "cur' = cur \<and> m' = m" using 1(4) sc by (auto simp: scan_passed_def Let_def split: if_splits)
    then show ?thesis using False by simp
  next
    case True
    then have p: "\<not> committed < cur" "\<not> ge_global_seq ?e \<noteq> cur" by (auto simp: scan_passed_def)
    have cons: "{cur..committed} = insert cur {Suc cur..committed}" using p(1) by auto
    let ?m = "if int (ge_broker_id ?e) = owner \<and> ge_message_count ?e \<noteq> 0 then om_add (u32 (ge_client_id ?e)) (ge_message_count ?e) m else m"
    have mx: "om_get 0 m c + goi_credit goi owner c cur + sum (goi_credit goi owner c) {Suc cur..committed} \<le> UINT64_MAX" for c
      using 1(5)[rule_format, of c] unfolding cons by simp
    have le: "om_get 0 m c + goi_credit goi owner c cur \<le> UINT64_MAX" for c using mx[of c] by linarith
    have gm: "om_get 0 ?m c = om_get 0 m c + goi_credit goi owner c cur" for c
      using le[of c] by (auto simp: goi_credit_def)
    have pm: "\<forall>c. om_get 0 ?m c + sum (goi_credit goi owner c) {cur + 1..committed} \<le> UINT64_MAX" unfolding gm using mx by simp
    have go: "order5_scan committed durable owner goi (cur + 1) ?m = (pinned, cur', m')"
      using 1(4) sc True p by (auto simp: scan_passed_def Let_def split: if_splits)
    have ih: "cur + 1 \<le> cur' \<and> (\<forall>s\<in>{cur + 1..<cur'}. scan_passed committed durable owner goi s) \<and> \<not> scan_passed committed durable owner goi cur' \<and>
     (\<forall>c. om_get 0 m' c = om_get 0 ?m c + sum (goi_credit goi owner c) {cur + 1..<cur'})"
    proof (cases "int (ge_broker_id ?e) = owner")
      case ow: True
      then have n: "\<not> int (ge_broker_id ?e) \<noteq> owner" by simp
      show ?thesis
      proof (cases "ge_message_count ?e = 0")
        case z: True
        show ?thesis using 1(2)[OF p(1) refl p(2) n z] go pm z by simp
      next
        case z: False
        have "\<not> durable < ge_cumulative_message_count ?e" using True ow z by (auto simp: scan_passed_def)
        from 1(3)[OF p(1) refl p(2) n z this] go pm z ow show ?thesis by simp
      qed
    next
      case ow: False
      show ?thesis using 1(1)[OF p(1) refl p(2) ow] go pm ow by simp
    qed
    then have cc: "{cur..<cur'} = insert cur {Suc cur..<cur'}" by auto
    show ?thesis using ih True unfolding cc gm by (simp add: add.assoc)
  qed
qed

lemma order5_owner_frame:
  "ak_tp (order5_owner committed now dl owner a) = ak_tp a"
  "ow \<noteq> owner \<Longrightarrow> ak_o5_cursor (order5_owner committed now dl owner a) ow = ak_o5_cursor a ow"
  by (simp_all add: order5_owner_def split: prod.split)

definition owner_credit :: "AckState \<Rightarrow> AckState \<Rightarrow> nat \<Rightarrow> int \<Rightarrow> nat" where
  "owner_credit a a' c ow = sum (goi_credit (tp_goi (ak_tp a)) ow c) {ak_o5_cursor a ow..<ak_o5_cursor a' ow}"

lemma order5_owner_spec:
  fixes now :: nat and dl :: "int \<Rightarrow> nat"
  assumes "\<forall>c. om_get 0 (ak_client_durable a) c + sum (goi_credit (tp_goi (ak_tp a)) owner c) {..committed} \<le> UINT64_MAX"
  defines "a' \<equiv> order5_owner committed now dl owner a"
  shows "ak_o5_cursor a owner \<le> ak_o5_cursor a' owner"
    "\<forall>s\<in>{ak_o5_cursor a owner..<ak_o5_cursor a' owner}. scan_passed committed (dl owner) owner (tp_goi (ak_tp a)) s"
    "\<not> scan_passed committed (dl owner) owner (tp_goi (ak_tp a)) (ak_o5_cursor a' owner)"
    "om_get 0 (ak_client_durable a') c = om_get 0 (ak_client_durable a) c + owner_credit a a' c owner"
proof -
  obtain p cur m where s: "order5_scan committed (dl owner) owner (tp_goi (ak_tp a)) (ak_o5_cursor a owner) (ak_client_durable a) = (p, cur, m)"
    by (metis prod_cases3)
  have "sum (goi_credit (tp_goi (ak_tp a)) owner c) {ak_o5_cursor a owner..committed} \<le> sum (goi_credit (tp_goi (ak_tp a)) owner c) {..committed}" for c
    by (rule sum_mono2) auto
  then have "\<forall>c. om_get 0 (ak_client_durable a) c + sum (goi_credit (tp_goi (ak_tp a)) owner c) {ak_o5_cursor a owner..committed} \<le> UINT64_MAX"
    using assms(1) by (meson add_left_mono order_trans)
  note sp = order5_scan_spec[OF s this]
  have a': "ak_o5_cursor a' owner = cur" "ak_client_durable a' = m" by (simp_all add: a'_def order5_owner_def s)
  show "ak_o5_cursor a owner \<le> ak_o5_cursor a' owner"
    "\<forall>s\<in>{ak_o5_cursor a owner..<ak_o5_cursor a' owner}. scan_passed committed (dl owner) owner (tp_goi (ak_tp a)) s"
    "\<not> scan_passed committed (dl owner) owner (tp_goi (ak_tp a)) (ak_o5_cursor a' owner)"
    "om_get 0 (ak_client_durable a') c = om_get 0 (ak_client_durable a) c + owner_credit a a' c owner"
    using sp unfolding a' owner_credit_def by blast+
qed

lemma fold_order5_owner:
  fixes now :: nat and dl :: "int \<Rightarrow> nat"
  assumes "distinct os"
    "\<forall>c. om_get 0 (ak_client_durable a) c + (\<Sum>ow\<in>set os. sum (goi_credit (tp_goi (ak_tp a)) ow c) {..committed}) \<le> UINT64_MAX"
  defines "a' \<equiv> fold (order5_owner committed now dl) os a"
  shows "ak_tp a' = ak_tp a \<and> (\<forall>ow. ow \<notin> set os \<longrightarrow> ak_o5_cursor a' ow = ak_o5_cursor a ow) \<and>
    (\<forall>ow\<in>set os. ak_o5_cursor a ow \<le> ak_o5_cursor a' ow \<and>
       (\<forall>s\<in>{ak_o5_cursor a ow..<ak_o5_cursor a' ow}. scan_passed committed (dl ow) ow (tp_goi (ak_tp a)) s) \<and>
       \<not> scan_passed committed (dl ow) ow (tp_goi (ak_tp a)) (ak_o5_cursor a' ow)) \<and>
    (\<forall>c. om_get 0 (ak_client_durable a') c = om_get 0 (ak_client_durable a) c + (\<Sum>ow\<in>set os. owner_credit a a' c ow))"
  using assms(1,2) unfolding a'_def
proof (induction os arbitrary: a)
  case Nil
  then show ?case by simp
next
  case (Cons w os)
  let ?b = "order5_owner committed now dl w a"
  let ?z = "fold (order5_owner committed now dl) os ?b"
  let ?g = "tp_goi (ak_tp a)"
  have w: "w \<notin> set os" using Cons.prems(1) by simp
  have bd: "om_get 0 (ak_client_durable a) c + sum (goi_credit ?g w c) {..committed} + (\<Sum>ow\<in>set os. sum (goi_credit ?g ow c) {..committed}) \<le> UINT64_MAX" for c
    using Cons.prems(2)[rule_format, of c] w by (simp add: add.assoc)
  have "\<forall>c. om_get 0 (ak_client_durable a) c + sum (goi_credit ?g w c) {..committed} \<le> UINT64_MAX" using bd by (meson le_add1 order_trans)
  note os = order5_owner_spec[OF this, where now = now and dl = dl]
  have cr: "owner_credit a ?b c w \<le> sum (goi_credit ?g w c) {..committed}" for c
    unfolding owner_credit_def using os(2) by (intro sum_mono2) (auto simp: scan_passed_def)
  have "\<forall>c. om_get 0 (ak_client_durable ?b) c + (\<Sum>ow\<in>set os. sum (goi_credit (tp_goi (ak_tp ?b)) ow c) {..committed}) \<le> UINT64_MAX"
  proof
    fix c
    show "om_get 0 (ak_client_durable ?b) c + (\<Sum>ow\<in>set os. sum (goi_credit (tp_goi (ak_tp ?b)) ow c) {..committed}) \<le> UINT64_MAX"
      unfolding os(4)[of c] order5_owner_frame(1) using bd[of c] cr[of c] by linarith
  qed
  from Cons.IH[OF _ this] Cons.prems(1)
  have ih: "ak_tp ?z = ak_tp a" "\<And>ow. ow \<notin> set os \<Longrightarrow> ak_o5_cursor ?z ow = ak_o5_cursor ?b ow"
    "\<And>ow. ow \<in> set os \<Longrightarrow> ak_o5_cursor ?b ow \<le> ak_o5_cursor ?z ow \<and>
       (\<forall>s\<in>{ak_o5_cursor ?b ow..<ak_o5_cursor ?z ow}. scan_passed committed (dl ow) ow ?g s) \<and>
       \<not> scan_passed committed (dl ow) ow ?g (ak_o5_cursor ?z ow)"
    "\<And>c. om_get 0 (ak_client_durable ?z) c = om_get 0 (ak_client_durable ?b) c + (\<Sum>ow\<in>set os. owner_credit ?b ?z c ow)"
    by (auto simp: order5_owner_frame(1))
  have cb: "ak_o5_cursor ?b ow = ak_o5_cursor a ow" if "ow \<in> set os" for ow using that w by (intro order5_owner_frame(2)) auto
  have cw: "ak_o5_cursor ?z w = ak_o5_cursor ?b w" using ih(2) w .
  have "(\<Sum>ow\<in>set os. owner_credit ?b ?z c ow) = (\<Sum>ow\<in>set os. owner_credit a ?z c ow)" for c
    by (rule sum.cong) (simp_all add: owner_credit_def cb order5_owner_frame(1))
  moreover have "owner_credit a ?b c w = owner_credit a ?z c w" for c by (simp add: owner_credit_def cw)
  ultimately have cred: "om_get 0 (ak_client_durable ?z) c = om_get 0 (ak_client_durable a) c + (\<Sum>ow\<in>set (w # os). owner_credit a ?z c ow)" for c
    using ih(4)[of c] os(4)[of c] w by simp
  have out: "ak_o5_cursor ?z ow = ak_o5_cursor a ow" if "ow \<notin> set (w # os)" for ow
    using that ih(2)[of ow] order5_owner_frame(2)[of ow w committed now dl a] by simp
  show ?case using ih(1) ih(3) out cred os(1-3) cb cw by (auto simp del: set_simps simp: set_simps(2))
qed

text \<open>C19: ACK level 2 of ORDER=5 credits each durable batch once.  A poll of a topic that keeps
  durable acks moves each broker's cursor forward, over committed entries only, past an owned entry
  only when the completion vector covers it, and stops exactly at the first entry that does not
  qualify; every client's durable count grows by the messages of its entries that were passed.\<close>

theorem order5_durable_credit_exact:
  assumes "tp_order (ak_tp a) = kOrderStrong" "ak_seq_type a = EMBARCADERO"
    "kMinReplicationFactorForAck2 \<le> tp_replication_factor (ak_tp a)" "tp_committed_seq (ak_tp a) \<noteq> UINT64_MAX"
    "\<forall>c. om_get 0 (ak_client_durable a) c + (\<Sum>ow\<in>set broker_ids. sum (goi_credit (tp_goi (ak_tp a)) ow c) {..tp_committed_seq (ak_tp a)}) \<le> UINT64_MAX"
  defines "a' \<equiv> MaybeAdvanceOrder5DurableFromCV a"
  shows "(\<forall>ow\<in>set broker_ids. ak_o5_cursor a ow \<le> ak_o5_cursor a' ow \<and>
       (\<forall>s\<in>{ak_o5_cursor a ow..<ak_o5_cursor a' ow}.
          scan_passed (tp_committed_seq (ak_tp a)) (cv_completed_logical_offset (tp_cv (ak_tp a) ow)) ow (tp_goi (ak_tp a)) s) \<and>
       \<not> scan_passed (tp_committed_seq (ak_tp a)) (cv_completed_logical_offset (tp_cv (ak_tp a) ow)) ow (tp_goi (ak_tp a)) (ak_o5_cursor a' ow)) \<and>
    (\<forall>c. om_get 0 (ak_client_durable a') c = om_get 0 (ak_client_durable a) c + (\<Sum>ow\<in>set broker_ids. owner_credit a a' c ow))"
proof -
  obtain now t where n: "SteadyNowNs (ak_tp a) = (now, t)" by (cases "SteadyNowNs (ak_tp a)")
  then have t: "tp_goi t = tp_goi (ak_tp a)" "tp_cv t = tp_cv (ak_tp a)" "tp_committed_seq t = tp_committed_seq (ak_tp a)"
    by (auto simp: SteadyNowNs_def)
  let ?b = "a\<lparr>ak_tp := t\<rparr>"
  have a': "a' = fold (order5_owner (tp_committed_seq t) now (\<lambda>b. cv_completed_logical_offset (tp_cv t b))) broker_ids ?b"
    using assms(1-4) by (simp add: a'_def MaybeAdvanceOrder5DurableFromCV_def n)
  have "\<forall>c. om_get 0 (ak_client_durable ?b) c + (\<Sum>ow\<in>set broker_ids. sum (goi_credit (tp_goi (ak_tp ?b)) ow c) {..tp_committed_seq t}) \<le> UINT64_MAX"
    using assms(5) t by simp
  from fold_order5_owner[OF broker_ids_distinct this, where now = now and dl = "\<lambda>b. cv_completed_logical_offset (tp_cv t b)"]
  show ?thesis unfolding a'[symmetric] by (simp add: t owner_credit_def)
qed

subsection \<open>Instances\<close>

text \<open>A topic of broker 1 of 3 with the counters at zero; replica progress 4 on every broker.\<close>

definition sample_ack :: "SequencerType \<Rightarrow> Topic \<Rightarrow> AckState" where
  "sample_ack ty t = \<lparr>ak_tp = t, ak_seq_type = ty, ak_broker = 1, ak_num_brokers = 3, ak_max_brokers_config = 4, ak_num_slots = 10,
     ak_slots = (\<lambda>_. BatchHeader_zero), ak_ordered = 0, ak_corfu_completed = [], ak_corfu_next = 0,
     ak_corfu_durable = DurableFrontier_init, ak_corfu_durable_count = 0, ak_corfu_client = True, ak_replicate_tinode = False,
     ak_repl_done = (\<lambda>_. 4), ak_replica_repl_done = (\<lambda>_. 4), ak_client_written = [], ak_client_durable = [],
     ak_lazylog_client = True, ak_ll_ready = [], ak_ll_next = 0, ak_ll_append = [], ak_ll_progress = 0,
     ak_o0_pending = [], ak_o0_next_key = 0, ak_o0_count = 0, ak_o5_cursor = (\<lambda>_. 0), ak_o5_pin_since = (\<lambda>_. 0)\<rparr>"

lemma corfu_ack_prefix_exact_witness:
  "ak_ordered (corfu_run [(1, 5, 7), (0, 3, 8), (1, 9, 7), (4, 1, 7)] (sample_ack CORFU (sample_topic\<lparr>tp_order := 2\<rparr>))) =
     prefix_msgs (first_completion [(1, 5, 7), (0, 3, 8), (1, 9, 7), (4, 1, 7)])
       (ak_corfu_next (corfu_run [(1, 5, 7), (0, 3, 8), (1, 9, 7), (4, 1, 7)] (sample_ack CORFU (sample_topic\<lparr>tp_order := 2\<rparr>))))"
  using corfu_ack_prefix_exact[of "sample_ack CORFU (sample_topic\<lparr>tp_order := 2\<rparr>)" "[(1, 5, 7), (0, 3, 8), (1, 9, 7), (4, 1, 7)]"]
  by (simp add: corfu_fresh_def sample_ack_def kOrderTotal_def UINT64_MAX_def sample_topic_def)

lemma visibility_waits_for_every_replica_witness:
  "ak_o0_count (MaybeAdvanceOrder0DurableVisibility
     (sample_ack EMBARCADERO (sample_topic\<lparr>tp_order := 0, tp_replication_factor := 2\<rparr>)\<lparr>ak_o0_pending := [(0, 3, 7), (3, 4, 7)]\<rparr>)) = 3 \<and>
   3 \<le> ak_repl_done (sample_ack EMBARCADERO (sample_topic\<lparr>tp_order := 0, tp_replication_factor := 2\<rparr>)) 1 + 1"
proof -
  let ?a = "sample_ack EMBARCADERO (sample_topic\<lparr>tp_order := 0, tp_replication_factor := 2\<rparr>)\<lparr>ak_o0_pending := [(0, 3, 7), (3, 4, 7)]\<rparr>"
  have rs: "replication_set ?a 3 = [1, 2]"
    by (simp add: replication_set_def sample_ack_def GetReplicationSetBroker_def upt_conv_Cons)
  have "MaybeAdvanceOrder0DurableVisibility ?a = order0_drain 5 ?a"
    by (simp add: MaybeAdvanceOrder0DurableVisibility_def uses_replication_done_durability_def sample_ack_def rs[unfolded sample_ack_def, simplified]
      kReplicationNotStarted_def UINT64_MAX_def cong: if_weak_cong)
  moreover have "ak_o0_count (order0_drain 5 ?a) = 3"
    by (simp add: order0_drain.simps[of 5] sample_ack_def om_find_def om_erase_def u64_def cong: if_weak_cong)
  ultimately have run: "ak_o0_count (MaybeAdvanceOrder0DurableVisibility ?a) = 3" "ak_o0_count ?a = 0"
    by (simp_all add: sample_ack_def)
  then have "MaybeAdvanceOrder0DurableVisibility ?a \<noteq> ?a" by (metis zero_neq_numeral)
  then show ?thesis using visibility_waits_for_every_replica[of ?a] run rs
    by (simp add: sample_ack_def)
qed

definition sample_durable :: AckState where
  "sample_durable = sample_ack EMBARCADERO (sample_topic\<lparr>tp_replication_factor := 2, tp_committed_seq := 0,
     tp_goi := (\<lambda>s. (tp_goi sample_topic s)\<lparr>ge_global_seq := s, ge_broker_id := 1, ge_client_id := 7, ge_message_count := 10,
       ge_cumulative_message_count := 10 * (s + 1)\<rparr>),
     tp_cv := (\<lambda>_. \<lparr>cv_completed_pbr_head = 0, cv_sequencer_logical_offset = 0, cv_completed_logical_offset = 10\<rparr>)\<rparr>)"

lemma order5_durable_credit_exact_witness:
  "om_get 0 (ak_client_durable (MaybeAdvanceOrder5DurableFromCV sample_durable)) 7 =
     (\<Sum>b\<in>set broker_ids. owner_credit sample_durable (MaybeAdvanceOrder5DurableFromCV sample_durable) 7 b)"
proof -
  have g: "goi_credit (tp_goi (ak_tp sample_durable)) b c s = (if b = 1 \<and> c = 7 then 10 else 0)" for b c s
    by (auto simp: goi_credit_def sample_durable_def sample_ack_def u32_def)
  have "(\<Sum>ow\<in>set broker_ids. if ow = 1 \<and> c = (7::nat) then 10 else 0) \<le> (10::nat)" for c
    by (cases "c = 7") (simp_all add: sum.delta)
  then have "\<forall>c. om_get 0 (ak_client_durable sample_durable) c +
      (\<Sum>ow\<in>set broker_ids. sum (goi_credit (tp_goi (ak_tp sample_durable)) ow c) {..tp_committed_seq (ak_tp sample_durable)}) \<le> UINT64_MAX"
    unfolding g by (auto simp: sample_durable_def sample_ack_def om_get_def UINT64_MAX_def intro: le_trans[of _ 10])
  from order5_durable_credit_exact[OF _ _ _ _ this] show ?thesis
    by (simp add: sample_durable_def sample_ack_def sample_topic_def kOrderStrong_def kMinReplicationFactorForAck2_def UINT64_MAX_def om_get_def)
qed

end
