(* ===== verification/CompletedRanges.thy ===== *)
theory CompletedRanges
  imports Prelude
begin

text \<open>
  The committed frontier of ORDER=5 (\<open>embarlet/topic_order5_commit.cc\<close>): commits put their GOI
  range into a lock-free ring (\<open>EnqueueCompletedRange\<close>), a thread drains the ring into a priority
  queue and publishes the end of the contiguous prefix (\<open>CommittedSeqUpdaterThread\<close>).  The ring is
  a step system: a producer claims an index by moving the tail and fills the slot in a second
  step, in any order among producers.  The ring counters are unbounded here; the code masks a
  64-bit counter with a power of two.
\<close>

record CompletedRange =
  cr_start :: nat
  cr_end :: nat

definition kCompletedRangesRingCap :: nat where "kCompletedRangesRingCap = 65536"

text \<open>A slot is its data with the ready flag: \<open>None\<close> is not ready.\<close>

record RangeQueue =
  rq_ring :: "nat \<Rightarrow> CompletedRange option"
  rq_head :: nat
  rq_tail :: nat
  rq_pending :: "CompletedRange list"
  rq_next :: nat
  rq_committed :: nat

definition ResetCompletedRangeQueue :: "RangeQueue \<Rightarrow> RangeQueue" where
  "ResetCompletedRangeQueue q = q\<lparr>rq_ring := (\<lambda>_. None), rq_head := 0, rq_tail := 0\<rparr>"

definition updater_start :: "nat \<Rightarrow> RangeQueue" where
  "updater_start cur = \<lparr>rq_ring = (\<lambda>_. None), rq_head = 0, rq_tail = 0, rq_pending = [],
     rq_next = (if cur = UINT64_MAX then 0 else cur + 1), rq_committed = cur\<rparr>"

definition claim_range_slot :: "RangeQueue \<Rightarrow> (nat \<times> RangeQueue) option" where
  "claim_range_slot q =
     (if rq_tail q - rq_head q < kCompletedRangesRingCap
      then Some (rq_tail q, q\<lparr>rq_tail := rq_tail q + 1\<rparr>) else None)"

definition fill_range_slot :: "nat \<Rightarrow> CompletedRange \<Rightarrow> RangeQueue \<Rightarrow> RangeQueue" where
  "fill_range_slot i r q = q\<lparr>rq_ring := (rq_ring q)(i mod kCompletedRangesRingCap := Some r)\<rparr>"

text \<open>One iteration of the loop without other producers: \<open>None\<close> while the ring is full (the call waits).  When the threads are being
  stopped the loop ends and the range is dropped.\<close>

definition EnqueueCompletedRange :: "bool \<Rightarrow> nat \<Rightarrow> nat \<Rightarrow> RangeQueue \<Rightarrow> RangeQueue option" where
  "EnqueueCompletedRange stop_threads s e q =
     (if e \<le> s then Some q
      else if stop_threads then Some q
      else map_option (\<lambda>(i, q'). fill_range_slot i \<lparr>cr_start = s, cr_end = e\<rparr> q') (claim_range_slot q))"

text \<open>One iteration of the drain loop, and the loop: it stops at the tail or at a slot that was
  claimed and not yet filled.\<close>

function drain_ring :: "RangeQueue \<Rightarrow> bool \<times> RangeQueue" where
  "drain_ring q =
     (if rq_head q \<ge> rq_tail q then (False, q)
      else case rq_ring q (rq_head q mod kCompletedRangesRingCap) of
        None \<Rightarrow> (False, q)
      | Some r \<Rightarrow>
          let q' = q\<lparr>rq_pending := insort_key cr_start r (rq_pending q),
                     rq_ring := (rq_ring q)(rq_head q mod kCompletedRangesRingCap := None),
                     rq_head := rq_head q + 1\<rparr>
          in (True, snd (drain_ring q')))"
  by pat_completeness auto
termination
  by (relation "measure (\<lambda>q. rq_tail q - rq_head q)") auto

declare drain_ring.simps [simp del]

fun merge_ranges :: "nat \<Rightarrow> CompletedRange list \<Rightarrow> bool \<times> nat \<times> CompletedRange list" where
  "merge_ranges nxt [] = (False, nxt, [])"
| "merge_ranges nxt (r # rs) =
     (if cr_end r \<le> nxt then merge_ranges nxt rs
      else if cr_start r \<le> nxt then (True, snd (merge_ranges (cr_end r) rs))
      else (False, nxt, r # rs))"

text \<open>One pass of \<open>CommittedSeqUpdaterThread\<close>.\<close>

definition updater_pass :: "RangeQueue \<Rightarrow> RangeQueue" where
  "updater_pass q =
     (let q1 = snd (drain_ring q);
          (advanced, nxt, rest) = merge_ranges (rq_next q1) (rq_pending q1)
      in q1\<lparr>rq_next := nxt, rq_pending := rest,
            rq_committed := (if advanced \<and> nxt > 0 then nxt - 1 else rq_committed q1)\<rparr>)"

text \<open>The reachable states: \<open>claims\<close> are the claimed slots still to be filled and their ranges,
  \<open>filled\<close> the ranges whose enqueue has completed.  A producer may have read an older head, which
  only makes its test stricter; one that finds the threads stopped takes no step.\<close>

inductive range_reach :: "nat \<Rightarrow> RangeQueue \<Rightarrow> (nat \<times> CompletedRange) list \<Rightarrow> CompletedRange list \<Rightarrow> bool" for cur where
  start: "range_reach cur (updater_start cur) [] []"
| claim: "range_reach cur q claims filled \<Longrightarrow> cr_start r < cr_end r \<Longrightarrow> claim_range_slot q = Some (i, q') \<Longrightarrow>
          range_reach cur q' ((i, r) # claims) filled"
| fill: "range_reach cur q claims filled \<Longrightarrow> (i, r) \<in> set claims \<Longrightarrow>
         range_reach cur (fill_range_slot i r q) (remove1 (i, r) claims) (r # filled)"
| pass: "range_reach cur q claims filled \<Longrightarrow> range_reach cur (updater_pass q) claims filled"

subsection \<open>The merge\<close>

definition covered :: "CompletedRange list \<Rightarrow> nat set" where
  "covered rs = (\<Union>r\<in>set rs. {cr_start r..<cr_end r})"

lemma covered_simps [simp]:
  "covered [] = {}" "covered (r # rs) = {cr_start r..<cr_end r} \<union> covered rs"
  "covered (insort_key f r rs) = {cr_start r..<cr_end r} \<union> covered rs"
  by (auto simp: covered_def set_insort_key)

lemma merge_ranges_spec:
  assumes "merge_ranges nxt rs = (adv, nxt', rest)" "sorted (map cr_start rs)" "\<forall>r\<in>set rs. cr_start r < cr_end r"
  shows "nxt \<le> nxt' \<and> {nxt..<nxt'} \<subseteq> covered rs \<and> (adv \<longleftrightarrow> nxt < nxt') \<and>
     covered rest \<union> {..<nxt'} = covered rs \<union> {..<nxt'} \<and> set rest \<subseteq> set rs \<and> sorted (map cr_start rest) \<and>
     (\<forall>r\<in>set rest. nxt' < cr_start r)"
  using assms
proof (induction nxt rs arbitrary: adv nxt' rest rule: merge_ranges.induct)
  case (1 nxt)
  then show ?case by simp
next
  case (2 nxt r rs)
  consider (stale) "cr_end r \<le> nxt" | (join) "\<not> cr_end r \<le> nxt" "cr_start r \<le> nxt" | (gap) "nxt < cr_start r" "\<not> cr_end r \<le> nxt"
    by linarith
  then show ?case
  proof cases
    case stale
    have "merge_ranges nxt rs = (adv, nxt', rest)" using 2(3) stale by simp
    from 2(1)[OF stale this] 2(4,5)
    have ih: "nxt \<le> nxt'" "{nxt..<nxt'} \<subseteq> covered rs" "adv \<longleftrightarrow> nxt < nxt'" "covered rest \<union> {..<nxt'} = covered rs \<union> {..<nxt'}"
      "set rest \<subseteq> set rs" "sorted (map cr_start rest)" "\<forall>r\<in>set rest. nxt' < cr_start r" by simp_all
    have "{cr_start r..<cr_end r} \<subseteq> {..<nxt'}" using stale ih(1) by auto
    then have "covered rest \<union> {..<nxt'} = covered (r # rs) \<union> {..<nxt'}" using ih(4) by (simp add: Un_assoc) blast
    then show ?thesis using ih by auto
  next
    case join
    obtain a' where m: "merge_ranges (cr_end r) rs = (a', nxt', rest)" "adv" using 2(3) join by (cases "merge_ranges (cr_end r) rs") auto
    from 2(2)[OF join m(1)] 2(4,5)
    have ih: "cr_end r \<le> nxt'" "{cr_end r..<nxt'} \<subseteq> covered rs" "covered rest \<union> {..<nxt'} = covered rs \<union> {..<nxt'}"
      "set rest \<subseteq> set rs" "sorted (map cr_start rest)" "\<forall>r\<in>set rest. nxt' < cr_start r" by auto
    have "{nxt..<nxt'} \<subseteq> {cr_start r..<cr_end r} \<union> {cr_end r..<nxt'}" using join by auto
    then have "{nxt..<nxt'} \<subseteq> covered (r # rs)" using ih(2) by auto
    moreover have "{cr_start r..<cr_end r} \<subseteq> {..<nxt'}" using ih(1) by auto
    then have "covered rest \<union> {..<nxt'} = covered (r # rs) \<union> {..<nxt'}" using ih(3) by (simp add: Un_assoc) blast
    moreover have "nxt < nxt'" using ih(1) join(1) by linarith
    ultimately show ?thesis using ih(4-6) m(2) by (meson less_imp_le set_subset_Cons subset_trans)
  next
    case gap
    then have m: "adv = False" "nxt' = nxt" "rest = r # rs" using 2(3) by auto
    have "\<forall>x\<in>set (r # rs). nxt < cr_start x" using gap(1) 2(4) by fastforce
    then show ?thesis using 2(4) unfolding m by simp
  qed
qed

subsection \<open>The ring\<close>

abbreviation cell :: "nat \<Rightarrow> nat" where "cell i \<equiv> i mod kCompletedRangesRingCap"

lemma cell_inj:
  assumes "h \<le> i" "i < h + kCompletedRangesRingCap" "h \<le> j" "j < h + kCompletedRangesRingCap" "cell i = cell j"
  shows "i = j"
proof (rule ccontr)
  assume "i \<noteq> j"
  have "i < j \<Longrightarrow> False" if "cell i = cell j" "h \<le> i" "j < h + kCompletedRangesRingCap" for i j
  proof -
    assume "i < j"
    then have "kCompletedRangesRingCap dvd j - i" using that(1) by (metis mod_eq_dvd_iff_nat less_imp_le)
    then show False using \<open>i < j\<close> that(2,3) by (auto dest!: dvd_imp_le)
  qed
  then show False using assms \<open>i \<noteq> j\<close> by (metis linorder_neqE_nat)
qed

definition range_of :: "CompletedRange \<Rightarrow> nat set" where
  "range_of r = {cr_start r..<cr_end r}"

definition ring_covered :: "RangeQueue \<Rightarrow> nat set" where
  "ring_covered q = (\<Union>i\<in>{rq_head q..<rq_tail q}. case rq_ring q (cell i) of None \<Rightarrow> {} | Some r \<Rightarrow> range_of r)"

definition ring_ok :: "RangeQueue \<Rightarrow> (nat \<times> CompletedRange) list \<Rightarrow> bool" where
  "ring_ok q claims \<longleftrightarrow> rq_head q \<le> rq_tail q \<and> rq_tail q \<le> rq_head q + kCompletedRangesRingCap \<and>
     distinct (map fst claims) \<and>
     (\<forall>(i, r)\<in>set claims. rq_head q \<le> i \<and> i < rq_tail q \<and> cr_start r < cr_end r) \<and>
     (\<forall>i\<in>{rq_head q..<rq_tail q}. rq_ring q (cell i) = None \<longleftrightarrow> i \<in> fst ` set claims) \<and>
     (\<forall>x r. rq_ring q x = Some r \<longrightarrow> cr_start r < cr_end r) \<and>
     (\<forall>i\<in>{rq_tail q..<rq_head q + kCompletedRangesRingCap}. rq_ring q (cell i) = None)"

definition pending_ok :: "RangeQueue \<Rightarrow> bool" where
  "pending_ok q \<longleftrightarrow> sorted (map cr_start (rq_pending q)) \<and> (\<forall>r\<in>set (rq_pending q). cr_start r < cr_end r)"

lemma drain_step:
  assumes ok: "ring_ok q claims" "pending_ok q" and ne: "rq_head q < rq_tail q" and r: "rq_ring q (cell (rq_head q)) = Some r"
  defines "q' \<equiv> q\<lparr>rq_pending := insort_key cr_start r (rq_pending q), rq_ring := (rq_ring q)(cell (rq_head q) := None),
                 rq_head := rq_head q + 1\<rparr>"
  shows "ring_ok q' claims \<and> pending_ok q' \<and> covered (rq_pending q') \<union> ring_covered q' = covered (rq_pending q) \<union> ring_covered q"
proof -
  let ?h = "rq_head q" let ?t = "rq_tail q"
  have t: "?t \<le> ?h + kCompletedRangesRingCap" using ok(1) by (simp add: ring_ok_def)
  have cell_ne: "cell i \<noteq> cell ?h" if "?h < i" "i < ?h + kCompletedRangesRingCap" for i
    using cell_inj[of ?h i ?h] that ne by (auto simp: kCompletedRangesRingCap_def)
  have full: "cell (?h + kCompletedRangesRingCap) = cell ?h" by simp
  have other: "rq_ring q' (cell i) = rq_ring q (cell i)" if "i \<in> {Suc ?h..<?t}" for i
    using cell_ne[of i] that t by (auto simp: q'_def)
  have hc: "?h \<notin> fst ` set claims"
  proof
    assume "?h \<in> fst ` set claims"
    then have "rq_ring q (cell ?h) = None" using ok(1) ne unfolding ring_ok_def by (metis atLeastLessThan_iff order_refl)
    then show False using r by simp
  qed
  have ge: "Suc ?h \<le> i" if "(i, x) \<in> set claims" for i x
  proof -
    have "?h \<le> i" using ok(1) that unfolding ring_ok_def by fast
    moreover have "i \<noteq> ?h" using hc that by force
    ultimately show ?thesis by simp
  qed
  have "ring_ok q' claims"
    unfolding ring_ok_def
  proof (intro conjI)
    show "rq_head q' \<le> rq_tail q'" "rq_tail q' \<le> rq_head q' + kCompletedRangesRingCap" using ne t by (simp_all add: q'_def)
    show "distinct (map fst claims)" using ok(1) by (simp add: ring_ok_def)
    show "\<forall>(i, r)\<in>set claims. rq_head q' \<le> i \<and> i < rq_tail q' \<and> cr_start r < cr_end r"
      using ok(1) ge by (fastforce simp: ring_ok_def q'_def)
    show "\<forall>i\<in>{rq_head q'..<rq_tail q'}. rq_ring q' (cell i) = None \<longleftrightarrow> i \<in> fst ` set claims"
      using ok(1) other unfolding ring_ok_def by (simp add: q'_def)
    show "\<forall>x r. rq_ring q' x = Some r \<longrightarrow> cr_start r < cr_end r" using ok(1) by (auto simp: ring_ok_def q'_def)
    show "\<forall>i\<in>{rq_tail q'..<rq_head q' + kCompletedRangesRingCap}. rq_ring q' (cell i) = None"
    proof
      fix i assume i: "i \<in> {rq_tail q'..<rq_head q' + kCompletedRangesRingCap}"
      show "rq_ring q' (cell i) = None"
      proof (cases "i = ?h + kCompletedRangesRingCap")
        case True
        then show ?thesis using full by (simp add: q'_def)
      next
        case False
        then have "i \<in> {?t..<?h + kCompletedRangesRingCap}" using i by (auto simp: q'_def)
        then show ?thesis using ok(1) unfolding ring_ok_def by (simp add: q'_def)
      qed
    qed
  qed
  moreover have "cr_start r < cr_end r" using ok(1) r by (auto simp: ring_ok_def)
  then have "pending_ok q'" using ok(2) by (auto simp: pending_ok_def q'_def set_insort_key sorted_insort_key)
  moreover have "ring_covered q = range_of r \<union> ring_covered q'"
  proof -
    have "{?h..<?t} = insert ?h {Suc ?h..<?t}" using ne by auto
    then have "ring_covered q = range_of r \<union> (\<Union>i\<in>{Suc ?h..<?t}. case rq_ring q (cell i) of None \<Rightarrow> {} | Some r \<Rightarrow> range_of r)"
      using r by (simp add: ring_covered_def)
    also have "(\<Union>i\<in>{Suc ?h..<?t}. case rq_ring q (cell i) of None \<Rightarrow> {} | Some r \<Rightarrow> range_of r) = ring_covered q'"
      using other by (simp add: ring_covered_def q'_def)
    finally show ?thesis .
  qed
  then have "covered (rq_pending q') \<union> ring_covered q' = covered (rq_pending q) \<union> ring_covered q"
    by (simp add: q'_def range_of_def Un_assoc Un_left_commute)
  ultimately show ?thesis by blast
qed

lemma drain_ring_spec:
  assumes "ring_ok q claims" "pending_ok q"
  shows "ring_ok (snd (drain_ring q)) claims \<and> pending_ok (snd (drain_ring q)) \<and>
     covered (rq_pending (snd (drain_ring q))) \<union> ring_covered (snd (drain_ring q)) = covered (rq_pending q) \<union> ring_covered q \<and>
     rq_next (snd (drain_ring q)) = rq_next q \<and> rq_committed (snd (drain_ring q)) = rq_committed q \<and>
     (claims = [] \<longrightarrow> rq_head (snd (drain_ring q)) = rq_tail (snd (drain_ring q)))"
  using assms
proof (induction q rule: drain_ring.induct)
  case (1 q)
  show ?case
  proof (cases "rq_head q \<ge> rq_tail q")
    case True
    then have "drain_ring q = (False, q)" "rq_head q = rq_tail q" using 1(2) drain_ring.simps[of q] by (simp_all add: ring_ok_def)
    then show ?thesis using 1(2,3) by simp
  next
    case False
    show ?thesis
    proof (cases "rq_ring q (cell (rq_head q))")
      case None
      then have "rq_head q \<in> fst ` set claims" using 1(2) False by (auto simp: ring_ok_def)
      then have "claims \<noteq> []" by auto
      then show ?thesis using 1(2,3) None False by (simp add: drain_ring.simps[of q])
    next
      case (Some r)
      let ?q = "q\<lparr>rq_pending := insort_key cr_start r (rq_pending q), rq_ring := (rq_ring q)(cell (rq_head q) := None),
                 rq_head := rq_head q + 1\<rparr>"
      have d: "snd (drain_ring q) = snd (drain_ring ?q)" using Some False by (simp add: drain_ring.simps[of q])
      have st: "ring_ok ?q claims" "pending_ok ?q" "covered (rq_pending ?q) \<union> ring_covered ?q = covered (rq_pending q) \<union> ring_covered q"
        using drain_step[OF 1(2,3) _ Some] False by simp_all
      from 1(1)[OF False Some refl st(1,2)] st(3) show ?thesis unfolding d by simp
    qed
  qed
qed

definition first_missing :: "nat \<Rightarrow> nat" where
  "first_missing cur = (if cur = UINT64_MAX then 0 else cur + 1)"

definition queue_inv :: "nat \<Rightarrow> RangeQueue \<Rightarrow> (nat \<times> CompletedRange) list \<Rightarrow> CompletedRange list \<Rightarrow> bool" where
  "queue_inv cur q claims filled \<longleftrightarrow> ring_ok q claims \<and> pending_ok q \<and> first_missing cur \<le> rq_next q \<and>
     {first_missing cur..<rq_next q} \<subseteq> covered filled \<and>
     covered (rq_pending q) \<union> ring_covered q \<union> {..<rq_next q} = covered filled \<union> {..<rq_next q} \<and>
     rq_committed q = (if rq_next q = first_missing cur then cur else rq_next q - 1)"

lemma queue_inv_pass:
  assumes inv: "queue_inv cur q claims filled"
  shows "queue_inv cur (updater_pass q) claims filled \<and>
     (claims = [] \<longrightarrow> rq_next (updater_pass q) \<notin> covered filled)"
proof -
  let ?d = "snd (drain_ring q)"
  have ds: "ring_ok ?d claims" "pending_ok ?d" "covered (rq_pending ?d) \<union> ring_covered ?d = covered (rq_pending q) \<union> ring_covered q"
    "rq_next ?d = rq_next q" "rq_committed ?d = rq_committed q" "claims = [] \<longrightarrow> rq_head ?d = rq_tail ?d"
    using drain_ring_spec[of q claims] inv by (simp_all add: queue_inv_def)
  obtain adv nxt rest where m: "merge_ranges (rq_next ?d) (rq_pending ?d) = (adv, nxt, rest)"
    by (cases "merge_ranges (rq_next ?d) (rq_pending ?d)")
  note ms = merge_ranges_spec[OF m]
  have ms: "rq_next q \<le> nxt" "{rq_next q..<nxt} \<subseteq> covered (rq_pending ?d)" "adv \<longleftrightarrow> rq_next q < nxt"
    "covered rest \<union> {..<nxt} = covered (rq_pending ?d) \<union> {..<nxt}" "set rest \<subseteq> set (rq_pending ?d)"
    "sorted (map cr_start rest)" "\<forall>r\<in>set rest. nxt < cr_start r"
    using ms ds(2,4) by (simp_all add: pending_ok_def)
  let ?u = "updater_pass q"
  have u: "rq_next ?u = nxt" "rq_pending ?u = rest" "rq_ring ?u = rq_ring ?d" "rq_head ?u = rq_head ?d" "rq_tail ?u = rq_tail ?d"
    "rq_committed ?u = (if adv \<and> nxt > 0 then nxt - 1 else rq_committed q)"
    by (simp_all add: updater_pass_def m ds(5) Let_def)
  have rc: "ring_covered ?u = ring_covered ?d" by (simp add: ring_covered_def u)
  have iv: "first_missing cur \<le> rq_next q" "{first_missing cur..<rq_next q} \<subseteq> covered filled"
    "covered (rq_pending q) \<union> ring_covered q \<union> {..<rq_next q} = covered filled \<union> {..<rq_next q}"
    "rq_committed q = (if rq_next q = first_missing cur then cur else rq_next q - 1)"
    using inv by (simp_all add: queue_inv_def)
  have pf: "covered (rq_pending ?d) \<subseteq> covered filled \<union> {..<rq_next q}" using ds(3) iv(3) by blast
  have new: "{rq_next q..<nxt} \<subseteq> covered filled"
  proof
    fix x assume x: "x \<in> {rq_next q..<nxt}"
    then have "x \<in> covered filled \<union> {..<rq_next q}" using ms(2) pf by blast
    then show "x \<in> covered filled" using x by auto
  qed
  have sub: "{first_missing cur..<nxt} \<subseteq> covered filled"
  proof
    fix x assume "x \<in> {first_missing cur..<nxt}"
    then have "x \<in> {first_missing cur..<rq_next q} \<or> x \<in> {rq_next q..<nxt}" by auto
    then show "x \<in> covered filled" using iv(2) new by blast
  qed
  have lt: "{..<rq_next q} \<union> {..<nxt} = {..<nxt}" using ms(1) by auto
  have cov: "covered rest \<union> ring_covered ?d \<union> {..<nxt} = covered filled \<union> {..<nxt}"
  proof -
    have "covered rest \<union> ring_covered ?d \<union> {..<nxt} = (covered rest \<union> {..<nxt}) \<union> ring_covered ?d" by (simp add: Un_ac)
    also have "\<dots> = (covered (rq_pending ?d) \<union> ring_covered ?d) \<union> {..<nxt}" unfolding ms(4) by (simp add: Un_ac)
    also have "\<dots> = (covered (rq_pending q) \<union> ring_covered q \<union> {..<rq_next q}) \<union> {..<nxt}" unfolding ds(3) by (simp add: Un_assoc lt)
    also have "\<dots> = covered filled \<union> {..<nxt}" unfolding iv(3) by (simp add: Un_assoc lt)
    finally show ?thesis .
  qed
  have "queue_inv cur ?u claims filled"
    unfolding queue_inv_def u rc
  proof (intro conjI)
    show "ring_ok ?u claims" using ds(1) unfolding ring_ok_def u .
    show "pending_ok ?u" using ms(5,6) ds(2) by (auto simp: pending_ok_def u)
    show "first_missing cur \<le> nxt" using iv(1) ms(1) by linarith
    show "{first_missing cur..<nxt} \<subseteq> covered filled" "covered rest \<union> ring_covered ?d \<union> {..<nxt} = covered filled \<union> {..<nxt}" by fact+
    show "(if adv \<and> 0 < nxt then nxt - 1 else rq_committed q) = (if nxt = first_missing cur then cur else nxt - 1)"
      using ms(1,3) iv(1,4) by auto
  qed
  moreover have "nxt \<notin> covered filled" if "claims = []"
  proof
    assume "nxt \<in> covered filled"
    then have "nxt \<in> covered rest \<union> ring_covered ?d \<union> {..<nxt}" using cov by blast
    moreover have "ring_covered ?d = {}" using ds(6) that by (simp add: ring_covered_def)
    ultimately have "nxt \<in> covered rest" by auto
    then show False using ms(7) by (fastforce simp: covered_def)
  qed
  ultimately show ?thesis by (simp add: u)
qed

lemma queue_inv_start: "queue_inv cur (updater_start cur) [] []"
  by (simp add: queue_inv_def ring_ok_def pending_ok_def updater_start_def first_missing_def ring_covered_def)

lemma queue_inv_claim:
  assumes inv: "queue_inv cur q claims filled" and r: "cr_start r < cr_end r" and c: "claim_range_slot q = Some (i, q')"
  shows "queue_inv cur q' ((i, r) # claims) filled"
proof -
  have q': "i = rq_tail q" "q' = q\<lparr>rq_tail := rq_tail q + 1\<rparr>" "rq_tail q - rq_head q < kCompletedRangesRingCap"
    using c by (auto simp: claim_range_slot_def split: if_splits)
  have ok: "ring_ok q claims" using inv by (simp add: queue_inv_def)
  have lt: "rq_head q \<le> rq_tail q" "rq_tail q < rq_head q + kCompletedRangesRingCap" using ok q'(3) by (auto simp: ring_ok_def)
  have none: "rq_ring q (cell (rq_tail q)) = None" using ok lt unfolding ring_ok_def by (meson atLeastLessThan_iff order_refl)
  have fresh: "rq_tail q \<notin> fst ` set claims" using ok by (force simp: ring_ok_def)
  have "ring_ok q' ((i, r) # claims)"
    unfolding ring_ok_def
  proof (intro conjI)
    show "rq_head q' \<le> rq_tail q'" "rq_tail q' \<le> rq_head q' + kCompletedRangesRingCap" using lt by (simp_all add: q')
    show "distinct (map fst ((i, r) # claims))" using ok fresh by (simp add: ring_ok_def q'(1))
    show "\<forall>(i, r)\<in>set ((i, r) # claims). rq_head q' \<le> i \<and> i < rq_tail q' \<and> cr_start r < cr_end r"
      using ok lt r by (force simp: ring_ok_def q')
    show "\<forall>j\<in>{rq_head q'..<rq_tail q'}. rq_ring q' (cell j) = None \<longleftrightarrow> j \<in> fst ` set ((i, r) # claims)"
      using ok none by (auto simp: ring_ok_def q' less_Suc_eq)
    show "\<forall>x r. rq_ring q' x = Some r \<longrightarrow> cr_start r < cr_end r" using ok by (simp add: ring_ok_def q')
    show "\<forall>i\<in>{rq_tail q'..<rq_head q' + kCompletedRangesRingCap}. rq_ring q' (cell i) = None"
      using ok by (simp add: ring_ok_def q')
  qed
  moreover have "ring_covered q' = ring_covered q"
    using lt none by (simp add: ring_covered_def q' atLeastLessThanSuc)
  ultimately show ?thesis using inv by (simp add: queue_inv_def q' pending_ok_def)
qed

lemma queue_inv_fill:
  assumes inv: "queue_inv cur q claims filled" and c: "(i, r) \<in> set claims"
  shows "queue_inv cur (fill_range_slot i r q) (remove1 (i, r) claims) (r # filled)"
proof -
  let ?q = "fill_range_slot i r q"
  have ok: "ring_ok q claims" using inv by (simp add: queue_inv_def)
  then have i: "rq_head q \<le> i" "i < rq_tail q" "cr_start r < cr_end r" "rq_tail q \<le> rq_head q + kCompletedRangesRingCap"
    using c by (auto simp: ring_ok_def)
  have okd: "distinct (map fst claims)" "\<forall>(i, r)\<in>set claims. rq_head q \<le> i \<and> i < rq_tail q \<and> cr_start r < cr_end r"
    "\<forall>i\<in>{rq_tail q..<rq_head q + kCompletedRangesRingCap}. rq_ring q (cell i) = None"
    "\<forall>i\<in>{rq_head q..<rq_tail q}. rq_ring q (cell i) = None \<longleftrightarrow> i \<in> fst ` set claims" using ok unfolding ring_ok_def by simp_all
  have dc: "distinct claims" using ok by (simp add: ring_ok_def distinct_map)
  have uniq: "r' = r" if "(i, r') \<in> set claims" for r' using ok c that by (auto simp: ring_ok_def dest: eq_key_imp_eq_value)
  have rest: "fst ` set (remove1 (i, r) claims) = fst ` set claims - {i}" using dc uniq by force
  have cell_ne: "cell j \<noteq> cell i" if "j \<noteq> i" "rq_head q \<le> j" "j < rq_head q + kCompletedRangesRingCap" for j
    using cell_inj[of "rq_head q" j i] that i by auto
  have same: "rq_ring ?q (cell j) = rq_ring q (cell j)" if "j \<noteq> i" "rq_head q \<le> j" "j < rq_head q + kCompletedRangesRingCap" for j
    using cell_ne[OF that] by (simp add: fill_range_slot_def)
  have here: "rq_ring ?q (cell i) = Some r" by (simp add: fill_range_slot_def)
  have none: "rq_ring q (cell i) = None" using okd(4) c i by force
  have fr: "rq_head ?q = rq_head q" "rq_tail ?q = rq_tail q" "rq_pending ?q = rq_pending q" "rq_next ?q = rq_next q" "rq_committed ?q = rq_committed q"
    by (simp_all add: fill_range_slot_def)
  have "ring_ok ?q (remove1 (i, r) claims)"
    unfolding ring_ok_def fr
  proof (intro conjI)
    show "rq_head q \<le> rq_tail q" "rq_tail q \<le> rq_head q + kCompletedRangesRingCap" using ok by (simp_all add: ring_ok_def)
    show "distinct (map fst (remove1 (i, r) claims))" using okd(1) dc by (meson distinct_map distinct_remove1 inj_on_subset set_remove1_subset)
    show "\<forall>(j, x)\<in>set (remove1 (i, r) claims). rq_head q \<le> j \<and> j < rq_tail q \<and> cr_start x < cr_end x"
      using okd(2) set_remove1_subset[of "(i, r)" claims] by blast
    show "\<forall>j\<in>{rq_head q..<rq_tail q}. rq_ring ?q (cell j) = None \<longleftrightarrow> j \<in> fst ` set (remove1 (i, r) claims)"
    proof
      fix j assume j: "j \<in> {rq_head q..<rq_tail q}"
      show "rq_ring ?q (cell j) = None \<longleftrightarrow> j \<in> fst ` set (remove1 (i, r) claims)"
      proof (cases "j = i")
        case True
        then show ?thesis using here rest by simp
      next
        case False
        then have "rq_ring ?q (cell j) = rq_ring q (cell j)" using same j i(4) by simp
        then show ?thesis using ok j False unfolding rest by (simp add: ring_ok_def)
      qed
    qed
    show "\<forall>x y. rq_ring ?q x = Some y \<longrightarrow> cr_start y < cr_end y" using ok i(3) by (auto simp: ring_ok_def fill_range_slot_def)
    show "\<forall>j\<in>{rq_tail q..<rq_head q + kCompletedRangesRingCap}. rq_ring ?q (cell j) = None"
      using okd(3) same i by auto
  qed
  moreover have "ring_covered ?q = range_of r \<union> ring_covered q"
  proof -
    let ?f = "\<lambda>q j. case rq_ring q (cell j) of None \<Rightarrow> {} | Some r \<Rightarrow> range_of r"
    have ins: "{rq_head q..<rq_tail q} = insert i ({rq_head q..<rq_tail q} - {i})" using i by auto
    have "(\<Union>j\<in>{rq_head q..<rq_tail q} - {i}. ?f ?q j) = (\<Union>j\<in>{rq_head q..<rq_tail q} - {i}. ?f q j)"
      using same i(4) by (intro SUP_cong) auto
    moreover have "(\<Union>j\<in>{rq_head q..<rq_tail q}. ?f ?q j) = ?f ?q i \<union> (\<Union>j\<in>{rq_head q..<rq_tail q} - {i}. ?f ?q j)"
      "(\<Union>j\<in>{rq_head q..<rq_tail q}. ?f q j) = ?f q i \<union> (\<Union>j\<in>{rq_head q..<rq_tail q} - {i}. ?f q j)"
      using ins by (metis (no_types, lifting) UN_insert)+
    ultimately show ?thesis unfolding ring_covered_def fr by (simp add: here none)
  qed
  ultimately show ?thesis using inv by (auto simp: queue_inv_def pending_ok_def fr range_of_def)
qed

lemma range_reach_inv: "range_reach cur q claims filled \<Longrightarrow> queue_inv cur q claims filled"
  by (induction rule: range_reach.induct) (auto intro: queue_inv_start queue_inv_claim queue_inv_fill dest: queue_inv_pass)

text \<open>C8: the committed frontier is the contiguous prefix.  However producers claim and fill
  their ranges and whenever the updater runs, every sequence up to the published frontier (from
  the one it started at) was enqueued; and a pass after which no enqueue is in progress leaves the
  first sequence that was not enqueued as the next one, so that no completed range is left behind.\<close>

theorem committed_frontier_exact:
  assumes "range_reach cur q claims filled"
  shows "{first_missing cur..<rq_next q} \<subseteq> covered filled \<and>
     rq_committed q = (if rq_next q = first_missing cur then cur else rq_next q - 1) \<and>
     (claims = [] \<longrightarrow> rq_next (updater_pass q) \<notin> covered filled \<and> {first_missing cur..<rq_next (updater_pass q)} \<subseteq> covered filled)"
  using range_reach_inv[OF assms] queue_inv_pass[OF range_reach_inv[OF assms]] by (auto simp: queue_inv_def)

lemma committed_frontier_exact_witness:
  "\<exists>q. range_reach UINT64_MAX q [] [\<lparr>cr_start = 0, cr_end = 4\<rparr>, \<lparr>cr_start = 4, cr_end = 6\<rparr>] \<and>
       rq_next (updater_pass q) \<notin> covered [\<lparr>cr_start = 0, cr_end = 4\<rparr>, \<lparr>cr_start = 4, cr_end = 6\<rparr>]"
proof -
  let ?a = "\<lparr>cr_start = 4, cr_end = 6\<rparr>" and ?b = "\<lparr>cr_start = 0, cr_end = 4\<rparr>"
  let ?q0 = "updater_start UINT64_MAX"
  let ?q1 = "?q0\<lparr>rq_tail := 1\<rparr>" and ?q2 = "?q0\<lparr>rq_tail := 2\<rparr>"
  have c: "claim_range_slot ?q0 = Some (0, ?q1)" "claim_range_slot ?q1 = Some (1, ?q2)"
    by (simp_all add: claim_range_slot_def updater_start_def kCompletedRangesRingCap_def)
  have "range_reach UINT64_MAX ?q2 [(1, ?b), (0, ?a)] []"
    using range_reach.claim[OF range_reach.claim[OF range_reach.start _ c(1), of ?a] _ c(2), of ?b] by simp
  from range_reach.fill[OF range_reach.fill[OF this, of 0 ?a], of 1 ?b]
  have "range_reach UINT64_MAX (fill_range_slot 1 ?b (fill_range_slot 0 ?a ?q2)) [] [?b, ?a]" by simp
  with committed_frontier_exact[OF this] show ?thesis by blast
qed

end
