(* ===== verification/CvFlush.thy ===== *)
theory CvFlush
  imports Level5Sample
begin

text \<open>
  The completion vector (\<open>embarlet/topic_order5_commit.cc\<close>): the sequencer's frontier of each
  broker and, for topics without replication, the durable frontier it owns.  Compare-and-swap
  loops are linearised; flushes and fences, traces and the flight recorder are left out.
\<close>

definition kNoProgress :: nat where "kNoProgress = UINT64_MAX"

definition sequencer_owns_durable_cv :: "Topic \<Rightarrow> bool" where
  "sequencer_owns_durable_cv t \<longleftrightarrow> tp_replication_factor t \<le> 1"

definition upd_cv :: "int \<Rightarrow> (CompletionVectorEntry \<Rightarrow> CompletionVectorEntry) \<Rightarrow> Topic \<Rightarrow> Topic" where
  "upd_cv b f t = t\<lparr>tp_cv := (tp_cv t)(b := f (tp_cv t b))\<rparr>"

text \<open>\<open>compare_exchange\<close> loop raising a head that starts at the no-progress marker.\<close>

definition raise_head :: "nat \<Rightarrow> nat \<Rightarrow> nat" where
  "raise_head pbr_index cur = (if cur = kNoProgress \<or> pbr_index > cur then pbr_index else cur)"

definition AdvanceCVForSequencer :: "int \<Rightarrow> nat \<Rightarrow> nat \<Rightarrow> Topic \<Rightarrow> Topic" where
  "AdvanceCVForSequencer b pbr_index cumulative t =
     (if cumulative \<le> cv_sequencer_logical_offset (tp_cv t b) then t
      else upd_cv b (\<lambda>e. e\<lparr>cv_sequencer_logical_offset := cumulative,
             cv_completed_pbr_head := (if sequencer_owns_durable_cv t then raise_head pbr_index (cv_completed_pbr_head e)
                                       else cv_completed_pbr_head e)\<rparr>) t)"

definition AccumulateCVUpdate :: "nat \<Rightarrow> nat \<Rightarrow> nat \<Rightarrow> (int \<Rightarrow> nat) \<times> (int \<Rightarrow> nat) \<Rightarrow> (int \<Rightarrow> nat) \<times> (int \<Rightarrow> nat)" where
  "AccumulateCVUpdate b pbr_index cumulative acc =
     (case acc of (cum, pbr) \<Rightarrow>
        if int b \<ge> NUM_MAX_BROKERS then (cum, pbr)
        else (if cumulative > cum (int b) then cum(int b := cumulative) else cum,
              if pbr_index > pbr (int b) then pbr(int b := pbr_index) else pbr))"

definition logical_only_entry :: "bool \<Rightarrow> nat \<Rightarrow> nat \<Rightarrow> CompletionVectorEntry \<Rightarrow> CompletionVectorEntry" where
  "logical_only_entry owns cumulative pbr_plus_one e =
     e\<lparr>cv_sequencer_logical_offset := max cumulative (cv_sequencer_logical_offset e),
       cv_completed_logical_offset := (if owns then max cumulative (cv_completed_logical_offset e) else cv_completed_logical_offset e),
       cv_completed_pbr_head := (if owns \<and> pbr_plus_one \<noteq> 0 then raise_head (pbr_plus_one - 1) (cv_completed_pbr_head e)
                                 else cv_completed_pbr_head e)\<rparr>"

definition FlushAccumulatedCVLogicalOnly :: "(int \<Rightarrow> nat) \<Rightarrow> (int \<Rightarrow> nat) \<Rightarrow> Topic \<Rightarrow> Topic" where
  "FlushAccumulatedCVLogicalOnly cum pbr_plus_one t =
     (if tp_capacity_exhausted t then t
      else fold (\<lambda>b t. if cum b = 0 \<and> pbr_plus_one b = 0 then t
                       else upd_cv b (logical_only_entry (sequencer_owns_durable_cv t) (cum b) (pbr_plus_one b)) t)
             broker_ids t)"

definition flush_entry :: "bool \<Rightarrow> nat \<Rightarrow> nat \<Rightarrow> CompletionVectorEntry \<Rightarrow> CompletionVectorEntry" where
  "flush_entry owns cumulative pbr_val e =
     e\<lparr>cv_sequencer_logical_offset := max cumulative (cv_sequencer_logical_offset e),
       cv_completed_logical_offset := (if owns then max cumulative (cv_completed_logical_offset e) else cv_completed_logical_offset e),
       cv_completed_pbr_head := (if owns then raise_head pbr_val (cv_completed_pbr_head e) else cv_completed_pbr_head e)\<rparr>"

definition cv_touched :: "(int \<Rightarrow> bool) option \<Rightarrow> int \<Rightarrow> bool" where
  "cv_touched touched b = (case touched of None \<Rightarrow> True | Some tch \<Rightarrow> tch b)"

definition flush_broker :: "(int \<Rightarrow> nat) \<Rightarrow> (int \<Rightarrow> nat) \<Rightarrow> (int \<Rightarrow> bool) option \<Rightarrow> int \<Rightarrow> Topic \<Rightarrow> Topic" where
  "flush_broker cum pbr touched b t =
     (if \<not> cv_touched touched b then t
      else let e = tp_cv t b;
               e' = flush_entry (sequencer_owns_durable_cv t) (cum b) (pbr b) e;
           violation = tp_order t = 5 \<and> cv_completed_pbr_head e' > cv_completed_pbr_head e \<and>
                      cv_sequencer_logical_offset e' \<le> cv_sequencer_logical_offset e
      in (upd_cv b (\<lambda>_. e') t)\<lparr>tp_ack_order_violations :=
            (if violation then u64 (tp_ack_order_violations t + 1) else tp_ack_order_violations t)\<rparr>)"

definition FlushAccumulatedCV :: "(int \<Rightarrow> nat) \<Rightarrow> (int \<Rightarrow> nat) \<Rightarrow> (int \<Rightarrow> bool) option \<Rightarrow> Topic \<Rightarrow> Topic" where
  "FlushAccumulatedCV cum pbr touched t =
     (if tp_capacity_exhausted t then t else fold (flush_broker cum pbr touched) broker_ids t)"

subsection \<open>What a flush does to each entry\<close>

text \<open>\<open>t'\<close> differs from \<open>t\<close> only in the completion vector and its violation counter.\<close>

definition cv_only :: "Topic \<Rightarrow> Topic \<Rightarrow> bool" where
  "cv_only t t' \<longleftrightarrow> (\<exists>c v. t' = t\<lparr>tp_cv := c, tp_ack_order_violations := v\<rparr>)"

lemma cv_only_simps:
  assumes "cv_only t t'"
  shows "tp_goi t' = tp_goi t" "tp_replication_factor t' = tp_replication_factor t" "tp_headers t' = tp_headers t"
    "tp_offsets t' = tp_offsets t" "tp_capacity_exhausted t' = tp_capacity_exhausted t" "tp_global_seq t' = tp_global_seq t"
    "tp_global_batch_seq t' = tp_global_batch_seq t" "tp_per_client_ordered t' = tp_per_client_ordered t"
    "tp_completed_ranges t' = tp_completed_ranges t" "tp_session_table t' = tp_session_table t" "tp_order t' = tp_order t"
    "tp_BATCHHEADERS_SIZE t' = tp_BATCHHEADERS_SIZE t" "tp_committed_seq t' = tp_committed_seq t"
    "tp_stop_threads t' = tp_stop_threads t"
  using assms unfolding cv_only_def by (elim exE; simp)+

lemma cv_only_refl: "cv_only t t"
  unfolding cv_only_def by (intro exI[of _ "tp_cv t"] exI[of _ "tp_ack_order_violations t"]) simp

lemma cv_only_trans: "cv_only a b \<Longrightarrow> cv_only b c \<Longrightarrow> cv_only a c"
  unfolding cv_only_def by (elim exE) auto

lemma cv_only_upd: "cv_only t (t\<lparr>tp_cv := c, tp_ack_order_violations := v\<rparr>)"
  unfolding cv_only_def by blast

lemma flush_broker_spec:
  "cv_only t (flush_broker cum pbr touched b t)"
  "tp_cv (flush_broker cum pbr touched b t) = (if cv_touched touched b
     then (tp_cv t)(b := flush_entry (sequencer_owns_durable_cv t) (cum b) (pbr b) (tp_cv t b)) else tp_cv t)"
  unfolding flush_broker_def upd_cv_def Let_def using cv_only_refl cv_only_upd
  by simp_all

lemma fold_flush_broker:
  assumes "distinct bs"
  shows "cv_only t (fold (flush_broker cum pbr touched) bs t) \<and>
     tp_cv (fold (flush_broker cum pbr touched) bs t) =
       (\<lambda>b. if b \<in> set bs \<and> cv_touched touched b
            then flush_entry (sequencer_owns_durable_cv t) (cum b) (pbr b) (tp_cv t b) else tp_cv t b)"
  using assms
proof (induction bs arbitrary: t)
  case Nil
  then show ?case by (simp add: cv_only_refl)
next
  case (Cons x bs)
  let ?t = "flush_broker cum pbr touched x t"
  have o: "cv_only t ?t" by (rule flush_broker_spec)
  then have own: "sequencer_owns_durable_cv ?t = sequencer_owns_durable_cv t" by (simp add: sequencer_owns_durable_cv_def cv_only_simps)
  have x: "x \<notin> set bs" using Cons.prems by simp
  let ?z = "fold (flush_broker cum pbr touched) bs ?t"
  have ih: "cv_only ?t ?z" "tp_cv ?z = (\<lambda>b. if b \<in> set bs \<and> cv_touched touched b
            then flush_entry (sequencer_owns_durable_cv t) (cum b) (pbr b) (tp_cv ?t b) else tp_cv ?t b)"
    using Cons.IH[of ?t] Cons.prems unfolding own by simp_all
  have "tp_cv ?z b = (if b \<in> set (x # bs) \<and> cv_touched touched b
            then flush_entry (sequencer_owns_durable_cv t) (cum b) (pbr b) (tp_cv t b) else tp_cv t b)" for b
    unfolding ih(2) flush_broker_spec(2) using x by auto
  then show ?case using cv_only_trans[OF o ih(1)] by (simp add: fun_eq_iff)
qed

lemma FlushAccumulatedCV_spec:
  "cv_only t (FlushAccumulatedCV cum pbr touched t)"
  "tp_cv (FlushAccumulatedCV cum pbr touched t) b =
     (if \<not> tp_capacity_exhausted t \<and> valid_broker b \<and> cv_touched touched b
      then flush_entry (sequencer_owns_durable_cv t) (cum b) (pbr b) (tp_cv t b) else tp_cv t b)"
  using fold_flush_broker[OF broker_ids_distinct, of t cum pbr touched]
  by (simp_all add: FlushAccumulatedCV_def cv_only_refl set_broker_ids)

lemma fold_upd_cv:
  assumes "distinct bs"
  shows "cv_only t (fold (\<lambda>b t. if skip b then t else upd_cv b (f (sequencer_owns_durable_cv t) b) t) bs t) \<and>
     tp_cv (fold (\<lambda>b t. if skip b then t else upd_cv b (f (sequencer_owns_durable_cv t) b) t) bs t) =
       (\<lambda>b. if b \<in> set bs \<and> \<not> skip b then f (sequencer_owns_durable_cv t) b (tp_cv t b) else tp_cv t b)"
  using assms
proof (induction bs arbitrary: t)
  case Nil
  then show ?case by (simp add: cv_only_refl)
next
  case (Cons x bs)
  let ?g = "\<lambda>b t. if skip b then t else upd_cv b (f (sequencer_owns_durable_cv t) b) t"
  have o: "cv_only t (?g x t)" using cv_only_refl cv_only_upd[where t = t and v = "tp_ack_order_violations t"] by (simp add: upd_cv_def)
  then have own: "sequencer_owns_durable_cv (?g x t) = sequencer_owns_durable_cv t"
    by (simp only: sequencer_owns_durable_cv_def cv_only_simps)
  let ?z = "fold ?g bs (?g x t)"
  have ih: "cv_only (?g x t) ?z" "tp_cv ?z = (\<lambda>b. if b \<in> set bs \<and> \<not> skip b
       then f (sequencer_owns_durable_cv t) b (tp_cv (?g x t) b) else tp_cv (?g x t) b)"
    using Cons.IH[of "?g x t"] Cons.prems unfolding own by simp_all
  have "tp_cv ?z b = (if b \<in> set (x # bs) \<and> \<not> skip b then f (sequencer_owns_durable_cv t) b (tp_cv t b) else tp_cv t b)" for b
    unfolding ih(2) using Cons.prems by (auto simp: upd_cv_def)
  moreover have "fold ?g (x # bs) t = ?z" by simp
  ultimately show ?case using cv_only_trans[OF o ih(1)] by (simp only: fun_eq_iff) simp
qed

lemma FlushAccumulatedCVLogicalOnly_spec:
  "cv_only t (FlushAccumulatedCVLogicalOnly cum pbr t)"
  "tp_cv (FlushAccumulatedCVLogicalOnly cum pbr t) b =
     (if \<not> tp_capacity_exhausted t \<and> valid_broker b \<and> \<not> (cum b = 0 \<and> pbr b = 0)
      then logical_only_entry (sequencer_owns_durable_cv t) (cum b) (pbr b) (tp_cv t b) else tp_cv t b)"
  using fold_upd_cv[OF broker_ids_distinct, of t "\<lambda>b. cum b = 0 \<and> pbr b = 0" "\<lambda>own b. logical_only_entry own (cum b) (pbr b)"]
  by (auto simp: FlushAccumulatedCVLogicalOnly_def cv_only_refl set_broker_ids)

subsection \<open>Progress\<close>

definition cv_le :: "CompletionVectorEntry \<Rightarrow> CompletionVectorEntry \<Rightarrow> bool" where
  "cv_le e e' \<longleftrightarrow> cv_sequencer_logical_offset e \<le> cv_sequencer_logical_offset e' \<and>
     cv_completed_logical_offset e \<le> cv_completed_logical_offset e' \<and>
     (cv_completed_pbr_head e = kNoProgress \<or> cv_completed_pbr_head e \<le> cv_completed_pbr_head e')"

definition durable_same :: "CompletionVectorEntry \<Rightarrow> CompletionVectorEntry \<Rightarrow> bool" where
  "durable_same e e' \<longleftrightarrow> cv_completed_logical_offset e' = cv_completed_logical_offset e \<and>
     cv_completed_pbr_head e' = cv_completed_pbr_head e"

lemma flush_entry_progress:
  "cv_le e (flush_entry owns c p e)" "cv_le e (logical_only_entry owns c p e)"
  "durable_same e (flush_entry False c p e)" "durable_same e (logical_only_entry False c p e)"
  by (simp_all add: cv_le_def durable_same_def flush_entry_def logical_only_entry_def raise_head_def)

lemma cv_le_refl [simp]: "cv_le e e" and durable_same_refl [simp]: "durable_same e e"
  by (simp_all add: cv_le_def durable_same_def)

text \<open>C34: the completion vector only moves forward.  No operation of the sequencer lowers a
  broker's ACK frontier, durable frontier or completed head, and on a replicated topic none of
  them touches the durable fields, which the tail replica owns.\<close>

theorem completion_vector_monotone:
  assumes "t' = FlushAccumulatedCV cum pbr touched t \<or> t' = FlushAccumulatedCVLogicalOnly cum pbr t \<or>
     t' = AdvanceCVForSequencer b0 pbr_index cumulative t"
  shows "cv_le (tp_cv t b) (tp_cv t' b) \<and> (1 < tp_replication_factor t \<longrightarrow> durable_same (tp_cv t b) (tp_cv t' b))"
  using assms
proof (elim disjE)
  assume "t' = FlushAccumulatedCV cum pbr touched t"
  then show ?thesis using flush_entry_progress by (simp add: FlushAccumulatedCV_spec(2) sequencer_owns_durable_cv_def)
next
  assume "t' = FlushAccumulatedCVLogicalOnly cum pbr t"
  then show ?thesis using flush_entry_progress by (simp add: FlushAccumulatedCVLogicalOnly_spec(2) sequencer_owns_durable_cv_def)
next
  assume "t' = AdvanceCVForSequencer b0 pbr_index cumulative t"
  then show ?thesis
    by (simp add: AdvanceCVForSequencer_def upd_cv_def cv_le_def durable_same_def raise_head_def sequencer_owns_durable_cv_def)
qed

lemma completion_vector_monotone_witness:
  "cv_le (tp_cv (sample_topic\<lparr>tp_replication_factor := 2\<rparr>) 0)
     (tp_cv (FlushAccumulatedCV (\<lambda>_. 5) (\<lambda>_. 2) None (sample_topic\<lparr>tp_replication_factor := 2\<rparr>)) 0) \<and>
   durable_same (tp_cv (sample_topic\<lparr>tp_replication_factor := 2\<rparr>) 0)
     (tp_cv (FlushAccumulatedCV (\<lambda>_. 5) (\<lambda>_. 2) None (sample_topic\<lparr>tp_replication_factor := 2\<rparr>)) 0)"
  using completion_vector_monotone[OF disjI1[OF refl], where cum = "\<lambda>_. 5" and pbr = "\<lambda>_. 2" and touched = None
    and t = "sample_topic\<lparr>tp_replication_factor := 2\<rparr>" and b = 0]
  by simp

end
