(* ===== verification/HeldSlots.thy ===== *)
theory HeldSlots
  imports CvFlush Level5Shard Level5Sample
begin

text \<open>
  Which ring slots still belong to a batch the sequencer holds, and how far a ring may be consumed
  (\<open>topic_order5_sessions.cc\<close>: the held-slot queries; \<open>topic_order5_scanner.cc\<close>:
  \<open>AdvanceConsumedThroughForProcessedSlots\<close>).  A slot identity is broker, offset and PBR index.
\<close>

type_synonym slot_id = "int \<times> nat \<times> nat"

definition pending_slot :: "PendingBatch5 \<Rightarrow> slot_id" where
  "pending_slot p = (pb_broker_id p, pb_slot_offset p, pb_cached_pbr_absolute_index p)"

definition meta_slot :: "HoldBatchMetadata \<Rightarrow> slot_id" where
  "meta_slot m = (hm_broker_id m, hm_slot_offset m, hm_pbr_absolute_index m)"

definition identity_slot :: "Order5SlotIdentity \<Rightarrow> slot_id" where
  "identity_slot s = (os_broker_id s, os_slot_offset s, os_pbr_index s)"

definition CollectOrder5DeferredSlotIdentities :: "Level5ShardState list \<Rightarrow> slot_id list" where
  "CollectOrder5DeferredSlotIdentities shards =
     concat (map (\<lambda>sh. map pending_slot (sh_deferred sh) @ map identity_slot (sh_backpressured sh)) shards)"

definition hold_slots :: "Level5ShardState \<Rightarrow> slot_id list" where
  "hold_slots sh = concat (map (\<lambda>(key, held). map (\<lambda>(seq, e). meta_slot (he_meta e)) held) (sh_hold sh))"

definition CollectOrder5HeldSlotIdentities :: "Level5ShardState list \<Rightarrow> slot_id list" where
  "CollectOrder5HeldSlotIdentities shards =
     concat (map (\<lambda>sh. map pending_slot (sh_deferred sh) @ map identity_slot (sh_backpressured sh) @ hold_slots sh) shards)"

definition IsOrder5HeldSlot :: "Level5ShardState list \<Rightarrow> int \<Rightarrow> nat \<Rightarrow> nat \<Rightarrow> bool" where
  "IsOrder5HeldSlot shards b off pbr =
     list_ex (\<lambda>sh. list_ex (\<lambda>p. pending_slot p = (b, off, pbr)) (sh_deferred sh) \<or>
                   list_ex (\<lambda>s. Order5SlotMatches s b off pbr) (sh_backpressured sh) \<or>
                   list_ex (\<lambda>(key, held). list_ex (\<lambda>(seq, e). meta_slot (he_meta e) = (b, off, pbr)) held) (sh_hold sh)) shards"

definition stream_key :: "int \<Rightarrow> PendingBatch5 \<Rightarrow> 64 word" where
  "stream_key order p =
     (if UsesTrueClientChainOrdering order then MakeSessionKey (pb_client_id p) (pb_session_epoch p)
      else MakeClientBrokerStreamKey (pb_client_id p) (pb_session_epoch p) (pb_broker_id p))"

definition IsOrder5SlotHeldInHoldBuffer :: "int \<Rightarrow> Level5ShardState list \<Rightarrow> PendingBatch5 \<Rightarrow> bool" where
  "IsOrder5SlotHeldInHoldBuffer order shards p =
     (if shards = [] \<or> pb_client_id p = 0 \<or> pb_client_id p = SIZE_MAX then False
      else case om_find (sh_hold (shards ! (pb_client_id p mod length shards))) (stream_key order p) of
        None \<Rightarrow> False
      | Some held \<Rightarrow> (case om_find held (pb_batch_seq p) of
            None \<Rightarrow> False
          | Some e \<Rightarrow> meta_slot (he_meta e) = pending_slot p))"

text \<open>The slots of a broker that the epoch's batch list names and nothing holds.\<close>

definition slot_processed :: "Topic \<Rightarrow> Level5ShardState list \<Rightarrow> (int \<Rightarrow> bool) \<Rightarrow> PendingBatch5 list \<Rightarrow> int \<Rightarrow> nat \<Rightarrow> bool" where
  "slot_processed t shards seen batch_list b slot =
     list_ex (\<lambda>p. pb_broker_id p = b \<and> valid_broker b \<and> seen b \<and> pb_slot_offset p < tp_BATCHHEADERS_SIZE t \<and>
                  pb_slot_offset p mod sizeof_BatchHeader = 0 \<and>
                  \<not> (pending_slot p \<in> set (CollectOrder5DeferredSlotIdentities shards) \<or>
                      IsOrder5SlotHeldInHoldBuffer (tp_order t) shards p) \<and>
                  pb_slot_offset p div sizeof_BatchHeader = slot) batch_list"

fun advance_slots :: "(nat \<Rightarrow> bool) \<Rightarrow> nat \<Rightarrow> nat \<Rightarrow> nat \<Rightarrow> nat" where
  "advance_slots processed slot_count next_slot 0 = next_slot"
| "advance_slots processed slot_count next_slot (Suc n) =
     (if processed next_slot then advance_slots processed slot_count ((next_slot + 1) mod slot_count) n else next_slot)"

definition advance_consumed :: "(nat \<Rightarrow> bool) \<Rightarrow> nat \<Rightarrow> nat \<Rightarrow> nat" where
  "advance_consumed processed ring_size consumed =
     (let next_expected = (if consumed \<ge> ring_size then 0 else consumed)
      in if next_expected mod sizeof_BatchHeader \<noteq> 0 then consumed
         else let slot_count = ring_size div sizeof_BatchHeader;
                  next_slot = advance_slots processed slot_count (next_expected div sizeof_BatchHeader) slot_count
              in if next_slot = 0 then ring_size else next_slot * sizeof_BatchHeader)"

definition write_consumed :: "(int \<Rightarrow> bool) \<Rightarrow> (int \<Rightarrow> nat) \<Rightarrow> Topic \<Rightarrow> Topic" where
  "write_consumed seen contig t =
     fold (\<lambda>b t. if \<not> seen b then t
                 else t\<lparr>tp_offsets := (tp_offsets t)(b := (tp_offsets t b)\<lparr>oe_consumed_through := contig b\<rparr>)\<rparr>) broker_ids t"

text \<open>\<open>cv\<close> is the pair of arrays to flush, when the caller passes them.\<close>

definition AdvanceConsumedThroughForProcessedSlots ::
  "Level5ShardState list \<Rightarrow> PendingBatch5 list \<Rightarrow> (int \<Rightarrow> bool) \<Rightarrow> ((int \<Rightarrow> nat) \<times> (int \<Rightarrow> nat)) option \<Rightarrow>
   (int \<Rightarrow> nat) \<Rightarrow> Topic \<Rightarrow> (int \<Rightarrow> nat) \<times> Topic" where
  "AdvanceConsumedThroughForProcessedSlots shards batch_list seen cv contig t =
     (let flush = (\<lambda>t. case cv of None \<Rightarrow> t | Some (cum, pbr) \<Rightarrow> FlushAccumulatedCV cum pbr None t)
      in if tp_capacity_exhausted t then (contig, t)
         else if batch_list = [] then (contig, flush t)
         else let contig' = (\<lambda>b. if seen b \<and> b \<in> set broker_ids
                                 then advance_consumed (slot_processed t shards seen batch_list b) (tp_BATCHHEADERS_SIZE t) (contig b)
                                 else contig b)
              in (contig', flush (write_consumed seen contig' t)))"

subsection \<open>The keyed probe equals the sweep\<close>

text \<open>How the hold buffers are filed: an entry stands in the shard of its batch's client, under its
  stream key and batch sequence, with the metadata of that batch.\<close>

definition hold_filed :: "int \<Rightarrow> Level5ShardState list \<Rightarrow> bool" where
  "hold_filed order shards \<longleftrightarrow>
     (\<forall>j<length shards. om_ok (sh_hold (shards ! j)) \<and>
        (\<forall>(key, held)\<in>set (sh_hold (shards ! j)). om_ok held \<and>
           (\<forall>(seq, e)\<in>set held. meta_slot (he_meta e) = pending_slot (he_batch e) \<and>
              key = stream_key order (he_batch e) \<and> seq = pb_batch_seq (he_batch e) \<and>
              j = pb_client_id (he_batch e) mod length shards \<and> pb_client_id (he_batch e) \<noteq> 0 \<and>
              pb_client_id (he_batch e) \<noteq> SIZE_MAX)))"

definition same_batch :: "PendingBatch5 \<Rightarrow> PendingBatch5 \<Rightarrow> bool" where
  "same_batch p q \<longleftrightarrow> pb_client_id p = pb_client_id q \<and> pb_session_epoch p = pb_session_epoch q \<and>
     pb_batch_seq p = pb_batch_seq q \<and> pb_broker_id p = pb_broker_id q"

definition held_entry :: "Level5ShardState list \<Rightarrow> HoldEntry5 \<Rightarrow> bool" where
  "held_entry shards e \<longleftrightarrow> (\<exists>sh\<in>set shards. \<exists>(key, held)\<in>set (sh_hold sh). e \<in> snd ` set held)"

text \<open>A slot identity names one batch.\<close>

definition slot_names_batch :: "Level5ShardState list \<Rightarrow> PendingBatch5 \<Rightarrow> bool" where
  "slot_names_batch shards p \<longleftrightarrow>
     (\<forall>e. held_entry shards e \<and> meta_slot (he_meta e) = pending_slot p \<longrightarrow> same_batch p (he_batch e))"

lemma hold_probe_iff:
  assumes f: "hold_filed order shards" and u: "slot_names_batch shards p"
  shows "IsOrder5SlotHeldInHoldBuffer order shards p \<longleftrightarrow> (\<exists>e. held_entry shards e \<and> meta_slot (he_meta e) = pending_slot p)"
proof
  assume h: "IsOrder5SlotHeldInHoldBuffer order shards p"
  let ?sh = "shards ! (pb_client_id p mod length shards)"
  have ne: "shards \<noteq> []" using h by (auto simp: IsOrder5SlotHeldInHoldBuffer_def split: if_splits)
  then have "?sh \<in> set shards" by simp
  moreover obtain held e where "om_find (sh_hold ?sh) (stream_key order p) = Some held" "om_find held (pb_batch_seq p) = Some e"
    "meta_slot (he_meta e) = pending_slot p"
    using h by (auto simp: IsOrder5SlotHeldInHoldBuffer_def split: if_splits option.splits)
  ultimately show "\<exists>e. held_entry shards e \<and> meta_slot (he_meta e) = pending_slot p"
    unfolding held_entry_def by (force dest!: om_find_Some_set)
next
  assume "\<exists>e. held_entry shards e \<and> meta_slot (he_meta e) = pending_slot p"
  then obtain e sh key held seq where e: "meta_slot (he_meta e) = pending_slot p" "held_entry shards e"
    and m: "sh \<in> set shards" "(key, held) \<in> set (sh_hold sh)" "(seq, e) \<in> set held"
    unfolding held_entry_def by force
  then obtain j where j: "j < length shards" "sh = shards ! j" by (metis in_set_conv_nth)
  let ?q = "he_batch e"
  have fe: "om_ok (sh_hold sh)" "om_ok held" "key = stream_key order ?q" "seq = pb_batch_seq ?q"
    "j = pb_client_id ?q mod length shards" "pb_client_id ?q \<noteq> 0" "pb_client_id ?q \<noteq> SIZE_MAX"
    using f m j unfolding hold_filed_def by fastforce+
  have s: "same_batch p ?q" using u e unfolding slot_names_batch_def by blast
  then have k: "stream_key order p = key" "pb_batch_seq p = seq" "pb_client_id p mod length shards = j"
    using fe by (simp_all add: same_batch_def stream_key_def)
  have "om_find (sh_hold sh) key = Some held" "om_find held seq = Some e"
    using m fe(1,2) by (simp_all add: om_find_eq_Some)
  then show "IsOrder5SlotHeldInHoldBuffer order shards p"
    using k j fe(6,7) s e(1) by (auto simp: IsOrder5SlotHeldInHoldBuffer_def same_batch_def)
qed

lemma held_sweep_iff:
  "IsOrder5HeldSlot shards b off pbr \<longleftrightarrow> (b, off, pbr) \<in> set (CollectOrder5HeldSlotIdentities shards)"
  by (force simp: IsOrder5HeldSlot_def CollectOrder5HeldSlotIdentities_def list_ex_iff identity_slot_def
      Order5SlotMatches_def hold_slots_def image_iff split: prod.splits)

lemma held_collect_iff:
  "x \<in> set (CollectOrder5HeldSlotIdentities shards) \<longleftrightarrow>
     x \<in> set (CollectOrder5DeferredSlotIdentities shards) \<or> (\<exists>e. held_entry shards e \<and> meta_slot (he_meta e) = x)"
  by (force simp: CollectOrder5HeldSlotIdentities_def CollectOrder5DeferredSlotIdentities_def hold_slots_def held_entry_def image_iff)

text \<open>C35: the keyed held-slot test of the commit path decides what the full sweep and the
  per-slot scan decide: with hold entries filed under their batch's key, and a slot identity naming
  one batch, probing the batch's own stream plus the two short lists finds a slot held exactly when
  any hold structure of any shard has it.\<close>

theorem keyed_held_check_equals_sweep:
  assumes "hold_filed order shards" "slot_names_batch shards p"
  shows "(pending_slot p \<in> set (CollectOrder5DeferredSlotIdentities shards) \<or> IsOrder5SlotHeldInHoldBuffer order shards p) =
       (pending_slot p \<in> set (CollectOrder5HeldSlotIdentities shards)) \<and>
     IsOrder5HeldSlot shards (pb_broker_id p) (pb_slot_offset p) (pb_cached_pbr_absolute_index p) =
       (pending_slot p \<in> set (CollectOrder5HeldSlotIdentities shards))"
  unfolding hold_probe_iff[OF assms] held_collect_iff held_sweep_iff pending_slot_def by simp

definition sample_held :: "Level5ShardState list" where
  "sample_held = [Level5ShardState_init\<lparr>sh_hold := [(MakeSessionKey 7 1,
     [(3, \<lparr>he_batch = sample_batch 3, he_meta = hold_meta_of (sample_batch 3), he_hold_start_ns = 0\<rparr>)])]\<rparr>]"

lemma keyed_held_check_equals_sweep_witness:
  "IsOrder5SlotHeldInHoldBuffer 5 sample_held (sample_batch 3) \<and>
   pending_slot (sample_batch 3) \<in> set (CollectOrder5HeldSlotIdentities sample_held)"
proof -
  have f: "hold_filed 5 sample_held"
    by (simp add: hold_filed_def sample_held_def meta_slot_def pending_slot_def hold_meta_of_def stream_key_def
      UsesTrueClientChainOrdering_def sample_batch_def PendingBatch5_init_def SIZE_MAX_def UINT64_MAX_def om_ok_def)
  have u: "slot_names_batch sample_held (sample_batch 3)"
    by (auto simp: slot_names_batch_def held_entry_def sample_held_def same_batch_def)
  have "IsOrder5SlotHeldInHoldBuffer 5 sample_held (sample_batch 3)"
    by (simp add: IsOrder5SlotHeldInHoldBuffer_def sample_held_def meta_slot_def pending_slot_def hold_meta_of_def stream_key_def
      UsesTrueClientChainOrdering_def sample_batch_def PendingBatch5_init_def SIZE_MAX_def UINT64_MAX_def)
  with keyed_held_check_equals_sweep[OF f u] show ?thesis by blast
qed

subsection \<open>Consumption\<close>

lemma advance_slots_spec:
  assumes "s < c"
  shows "\<exists>k\<le>n. advance_slots P c s n = (s + k) mod c \<and> (\<forall>i<k. P ((s + i) mod c)) \<and> (k = n \<or> \<not> P ((s + k) mod c))"
  using assms
proof (induction n arbitrary: s)
  case 0
  then show ?case by simp
next
  case (Suc n)
  show ?case
  proof (cases "P s")
    case False
    then show ?thesis using Suc.prems by (intro exI[of _ 0]) simp
  next
    case True
    have "(s + 1) mod c < c" using Suc.prems by simp
    from Suc.IH[OF this] obtain k where k: "k \<le> n" "advance_slots P c ((s + 1) mod c) n = ((s + 1) mod c + k) mod c"
      "\<forall>i<k. P (((s + 1) mod c + i) mod c)" "k = n \<or> \<not> P (((s + 1) mod c + k) mod c)" by blast
    have sh: "((s + 1) mod c + i) mod c = (s + Suc i) mod c" for i by (simp add: mod_add_left_eq mod_Suc_eq)
    have "P ((s + i) mod c)" if "i < Suc k" for i
      using that True k(3) Suc.prems unfolding sh by (cases i) auto
    then show ?thesis using True k(1,2,4) unfolding sh by (intro exI[of _ "Suc k"]) simp
  qed
qed

lemma write_consumed_spec:
  "tp_offsets (write_consumed seen contig t) b =
     (if seen b \<and> valid_broker b then (tp_offsets t b)\<lparr>oe_consumed_through := contig b\<rparr> else tp_offsets t b) \<and>
   (\<exists>off. write_consumed seen contig t = t\<lparr>tp_offsets := off\<rparr>)"
proof -
  let ?g = "\<lambda>b t. if \<not> seen b then t
                 else t\<lparr>tp_offsets := (tp_offsets t)(b := (tp_offsets t b)\<lparr>oe_consumed_through := contig b\<rparr>)\<rparr>"
  have "(\<forall>b. tp_offsets (fold ?g bs t) b =
     (if seen b \<and> b \<in> set bs then (tp_offsets t b)\<lparr>oe_consumed_through := contig b\<rparr> else tp_offsets t b)) \<and>
     (\<exists>off. fold ?g bs t = t\<lparr>tp_offsets := off\<rparr>)" if "distinct bs" for bs
    using that
  proof (induction bs arbitrary: t)
    case Nil
    show ?case by (intro conjI exI[of _ "tp_offsets t"]) simp_all
  next
    case (Cons x bs)
    have "\<exists>off. fold ?g bs (?g x t) = (?g x t)\<lparr>tp_offsets := off\<rparr>" using Cons.IH[of "?g x t"] Cons.prems by simp
    then have "\<exists>off. fold ?g (x # bs) t = t\<lparr>tp_offsets := off\<rparr>" by (auto split: if_splits)
    moreover have "\<forall>b. tp_offsets (fold ?g bs (?g x t)) b =
      (if seen b \<and> b \<in> set bs then (tp_offsets (?g x t) b)\<lparr>oe_consumed_through := contig b\<rparr> else tp_offsets (?g x t) b)"
      using Cons.IH[of "?g x t"] Cons.prems by simp
    then have "tp_offsets (fold ?g (x # bs) t) b =
      (if seen b \<and> b \<in> set (x # bs) then (tp_offsets t b)\<lparr>oe_consumed_through := contig b\<rparr> else tp_offsets t b)" for b
      using Cons.prems by (cases "seen x"; cases "b = x"; simp)
    ultimately show ?case by blast
  qed
  from this[OF broker_ids_distinct] show ?thesis unfolding write_consumed_def by (simp add: set_broker_ids)
qed

text \<open>C18: a ring is consumed only through slots whose batches the sequencer is done with.  Starting
  at the next expected slot, the offset moves over consecutive slots (across the wrap-around), each
  of which carries a batch of the epoch that no hold structure keeps, stops at the first other slot
  or after one lap, and the shared offset of the broker is set to it.\<close>

theorem consumed_through_stops_at_held:
  fixes t :: Topic and shards :: "Level5ShardState list"
  assumes "\<not> tp_capacity_exhausted t" "batch_list \<noteq> []" "seen b" "valid_broker b"
    "tp_BATCHHEADERS_SIZE t = c * sizeof_BatchHeader" "0 < c"
    "contig b = s * sizeof_BatchHeader" "s \<le> c"
    "hold_filed (tp_order t) shards" "\<forall>p\<in>set batch_list. slot_names_batch shards p"
  defines "r \<equiv> AdvanceConsumedThroughForProcessedSlots shards batch_list seen None contig t"
  shows "\<exists>k\<le>c. fst r b = (if (s + k) mod c = 0 then c else (s + k) mod c) * sizeof_BatchHeader \<and>
     (\<forall>i<k. \<exists>p\<in>set batch_list. pb_broker_id p = b \<and> pb_slot_offset p = (s + i) mod c * sizeof_BatchHeader \<and>
        \<not> IsOrder5HeldSlot shards b (pb_slot_offset p) (pb_cached_pbr_absolute_index p)) \<and>
     (k = c \<or> (\<forall>p\<in>set batch_list. pb_broker_id p = b \<and> pb_slot_offset p = (s + k) mod c * sizeof_BatchHeader \<longrightarrow>
        IsOrder5HeldSlot shards b (pb_slot_offset p) (pb_cached_pbr_absolute_index p))) \<and>
     oe_consumed_through (tp_offsets (snd r) b) = fst r b"
proof -
  let ?P = "slot_processed t shards seen batch_list b"
  have pos: "0 < sizeof_BatchHeader" by (simp add: sizeof_BatchHeader_def)
  have sm: "(if contig b \<ge> tp_BATCHHEADERS_SIZE t then 0 else contig b) = s mod c * sizeof_BatchHeader"
    using assms(5-8) pos by (cases "s = c") auto
  have div: "tp_BATCHHEADERS_SIZE t div sizeof_BatchHeader = c" using assms(5) pos by simp
  have "s mod c < c" using assms(6) by simp
  from advance_slots_spec[OF this, of c ?P] obtain k where k: "k \<le> c" "advance_slots ?P c (s mod c) c = (s + k) mod c"
    "\<forall>i<k. ?P ((s + i) mod c)" "k = c \<or> \<not> ?P ((s + k) mod c)"
    unfolding mod_add_left_eq by blast
  have "advance_consumed ?P (tp_BATCHHEADERS_SIZE t) (contig b) =
      (if (s + k) mod c = 0 then c else (s + k) mod c) * sizeof_BatchHeader"
    unfolding advance_consumed_def Let_def sm div using k(2) pos assms(5) by simp
  then have fr: "fst r b = (if (s + k) mod c = 0 then c else (s + k) mod c) * sizeof_BatchHeader"
    using assms(1-4) by (simp add: r_def AdvanceConsumedThroughForProcessedSlots_def set_broker_ids Let_def)
  have held: "(pending_slot p \<in> set (CollectOrder5DeferredSlotIdentities shards) \<or> IsOrder5SlotHeldInHoldBuffer (tp_order t) shards p)
      \<longleftrightarrow> IsOrder5HeldSlot shards (pb_broker_id p) (pb_slot_offset p) (pb_cached_pbr_absolute_index p)" if "p \<in> set batch_list" for p
    using hold_probe_iff[OF assms(9)] assms(10) that unfolding held_sweep_iff held_collect_iff pending_slot_def by blast
  have P: "?P x \<longleftrightarrow> (\<exists>p\<in>set batch_list. pb_broker_id p = b \<and> pb_slot_offset p = x * sizeof_BatchHeader \<and>
        \<not> IsOrder5HeldSlot shards b (pb_slot_offset p) (pb_cached_pbr_absolute_index p))" if "x < c" for x
  proof -
    have "(y < c * sizeof_BatchHeader \<and> y mod sizeof_BatchHeader = 0 \<and> y div sizeof_BatchHeader = x) \<longleftrightarrow> y = x * sizeof_BatchHeader" for y
      using that pos by (auto simp: mult.commute)
    then show ?thesis unfolding slot_processed_def list_ex_iff assms(5) using held assms(3,4) by (metis (no_types, lifting))
  qed
  have m: "(s + i) mod c < c" for i using assms(6) by simp
  have "oe_consumed_through (tp_offsets (snd r) b) = fst r b"
    using assms(1-4) write_consumed_spec[of seen _ t b]
    by (simp add: r_def AdvanceConsumedThroughForProcessedSlots_def Let_def)
  then show ?thesis using k(1,3,4) fr unfolding P[OF m] by blast
qed

lemma consumed_through_stops_at_held_witness:
  "oe_consumed_through (tp_offsets (snd (AdvanceConsumedThroughForProcessedSlots sample_held
       [sample_batch 0, sample_batch 1, sample_batch 3] (\<lambda>_. True) None (\<lambda>_. 0) sample_topic)) 0) =
     fst (AdvanceConsumedThroughForProcessedSlots sample_held
       [sample_batch 0, sample_batch 1, sample_batch 3] (\<lambda>_. True) None (\<lambda>_. 0) sample_topic) 0"
proof -
  have f: "hold_filed (tp_order sample_topic) sample_held"
    by (simp add: hold_filed_def sample_held_def meta_slot_def pending_slot_def hold_meta_of_def stream_key_def sample_topic_def
      UsesTrueClientChainOrdering_def sample_batch_def PendingBatch5_init_def SIZE_MAX_def UINT64_MAX_def om_ok_def)
  have u: "\<forall>p\<in>set [sample_batch 0, sample_batch 1, sample_batch 3]. slot_names_batch sample_held p"
    by (auto simp: slot_names_batch_def held_entry_def sample_held_def same_batch_def meta_slot_def pending_slot_def
      hold_meta_of_def sample_batch_def)
  show ?thesis
    using consumed_through_stops_at_held[of sample_topic _ "\<lambda>_. True" 0 10 "\<lambda>_. 0" 0, OF _ _ _ _ _ _ _ _ f u]
    by (simp add: sample_topic_def valid_broker_def NUM_MAX_BROKERS_def sizeof_BatchHeader_def) blast
qed

end
