(* ===== verification/Commit.thy ===== *)
theory Commit
  imports HeldSlots SegmentLog
begin

unbundle bit_operations_syntax

text \<open>
  \<open>CommitEpoch\<close> and \<open>AssignOrder5\<close> (\<open>embarlet/topic_order5_commit.cc\<close>): the batches an epoch made
  ready pass the session guard, get a contiguous range of the global order index (GOI) and of the
  message order, their GOI entries and export descriptors are written, and the ordered counts, the
  session table, the completion vector, the committed ranges and the consumed offsets are
  published.  Pointers into the shared region are offsets from its base.  The publication gate
  and the export lock make a commit atomic; flushes, fences, profiling, traces and the debug-only
  commit-order assertion are left out.  A \<open>flat_hash_map\<close> is iterated in key order.
\<close>

definition kGOICapacity :: nat where "kGOICapacity = 256 * 1024 * 1024"

definition kGOITimestampRingSize :: nat where "kGOITimestampRingSize = 65536"

text \<open>What the commit works on besides the topic: the caller's per-broker arrays and the
  instrumentation it keeps.\<close>

record CommitCtx =
  cc_contig :: "int \<Rightarrow> nat"
  cc_cum :: "int \<Rightarrow> nat"
  cc_pbr :: "int \<Rightarrow> nat"
  cc_ts_pos :: nat
  cc_ts :: "nat \<Rightarrow> nat \<times> nat"
  cc_committed_batches :: "int \<Rightarrow> nat"
  cc_committed_msgs :: "int \<Rightarrow> nat"

text \<open>The fields of a ready batch: from the hold metadata when it was held, else its own.\<close>

definition commit_meta :: "PendingBatch5 \<Rightarrow> HoldBatchMetadata" where
  "commit_meta p = (if pb_from_hold p then pb_hold_meta p else hold_meta_of p)"

definition committed_batch :: "PendingBatch5 \<Rightarrow> bool" where
  "committed_batch p \<longleftrightarrow> \<not> (pb_skipped p \<or> pb_is_held_marker p)"

subsection \<open>Session guard\<close>

text \<open>Result: whether the batch is rejected, and whether the session table had no room for it.\<close>

definition spatial_guard_reject :: "PendingBatch5 \<Rightarrow> Topic \<Rightarrow> bool \<times> bool \<times> Topic" where
  "spatial_guard_reject p t =
     (if \<not> committed_batch p then (False, False, t)
      else let m = commit_meta p
           in if hm_session_epoch m = 0 then (False, False, t)
              else let key = MakeSessionKey (hm_client_id m) (hm_session_epoch m);
                       (found, table) = (case FindSessionEntry (tp_session_table t) key of
                                           Some i \<Rightarrow> (Some i, tp_session_table t)
                                         | None \<Rightarrow> FindOrCreateSessionEntry (tp_session_table t) key);
                       t1 = t\<lparr>tp_session_table := table\<rparr>
                   in case found of
                        None \<Rightarrow> (False, True, t1)
                      | Some i \<Rightarrow>
                          let entry = the table i
                          in if \<not> entry_active entry then (False, False, t1)
                             else if \<not> ShouldRejectOrder5SpatialGuard (entry_active entry) (entry_fenced entry)
                                         (hm_batch_seq m) (se_expected_seq entry)
                             then (False, False, t1)
                             else (True, False, InvalidateOrder5HeldSlot (pb_hdr p)
                                     (t1\<lparr>tp_spatial_guard_rejects := u64 (tp_spatial_guard_rejects t1 + 1)\<rparr>)))"

fun guard_ready :: "PendingBatch5 list \<Rightarrow> Topic \<Rightarrow> PendingBatch5 list \<times> bool \<times> Topic" where
  "guard_ready [] t = ([], False, t)"
| "guard_ready (p # ps) t =
     (let (rejected, failed, t1) = spatial_guard_reject p t;
          (kept, failed', t2) = guard_ready ps t1
      in (if rejected then kept else p # kept, failed \<or> failed', t2))"

subsection \<open>Reservation\<close>

text \<open>\<open>None\<close> is the overflow flag.\<close>

fun count_ready :: "PendingBatch5 list \<Rightarrow> nat \<Rightarrow> nat \<Rightarrow> (nat \<times> nat) option" where
  "count_ready [] total_msg num_goi = Some (total_msg, num_goi)"
| "count_ready (p # ps) total_msg num_goi =
     (if \<not> committed_batch p then count_ready ps total_msg num_goi
      else if (\<not> pb_from_hold p \<and> pb_hdr p = None) \<or> pb_num_msg p > SIZE_MAX - total_msg then None
      else count_ready ps (total_msg + pb_num_msg p) (num_goi + 1))"

subsection \<open>GOI entries\<close>

definition goi_entry_of :: "nat \<Rightarrow> nat \<Rightarrow> nat \<Rightarrow> nat \<Rightarrow> HoldBatchMetadata \<Rightarrow> GOIEntry" where
  "goi_entry_of batch_index next_order cumulative client_seq m =
     \<lparr>ge_global_seq = batch_index, ge_batch_id = hm_batch_id m, ge_total_order = next_order,
      ge_broker_id = broker16 (hm_broker_id m), ge_epoch_sequenced = hm_epoch_created m, ge_blog_offset = hm_log_idx m,
      ge_payload_size = u32 (hm_total_size m), ge_message_count = u32 (hm_num_msg m), ge_num_replicated = 0,
      ge_client_id = hm_client_id m, ge_client_seq = client_seq, ge_pbr_index = hm_pbr_absolute_index m,
      ge_cumulative_message_count = cumulative, ge_session_epoch = hm_session_epoch m\<rparr>"

text \<open>A tracker holds a broker's running message count, once it was read.\<close>

definition track :: "(int \<Rightarrow> nat option) \<Rightarrow> (int \<Rightarrow> nat) \<Rightarrow> int \<Rightarrow> nat \<Rightarrow> nat \<times> (int \<Rightarrow> nat option)" where
  "track tr base b n =
     (if valid_broker b
      then let c = u64 ((case tr b of Some c \<Rightarrow> c | None \<Rightarrow> base b) + n) in (c, tr(b := Some c))
      else (n, tr))"

definition ordered_base :: "Topic \<Rightarrow> int \<Rightarrow> nat" where
  "ordered_base t b = oe_ordered (tp_offsets t b)"

fun write_goi :: "nat \<Rightarrow> nat \<Rightarrow> (int \<Rightarrow> nat option) \<Rightarrow> PendingBatch5 list \<Rightarrow> Topic \<Rightarrow> Topic" where
  "write_goi batch_index next_order tr [] t = t"
| "write_goi batch_index next_order tr (p # ps) t =
     (if \<not> committed_batch p then write_goi batch_index next_order tr ps t
      else if \<not> pb_from_hold p \<and> pb_hdr p = None then write_goi (batch_index + 1) next_order tr ps t
      else let m = commit_meta p;
               (cumulative, tr') = track tr (ordered_base t) (hm_broker_id m) (hm_num_msg m);
               client_seq = (if pb_from_hold p then hm_batch_seq m else bh_batch_seq (tp_headers t (the (pb_hdr p))));
               hs = (if pb_from_hold p then tp_headers t
                     else (tp_headers t)(the (pb_hdr p) := (tp_headers t (the (pb_hdr p)))\<lparr>bh_total_order := next_order\<rparr>))
           in write_goi (batch_index + 1) (u64 (next_order + hm_num_msg m)) tr' ps
                (t\<lparr>tp_headers := hs,
                   tp_goi := (tp_goi t)(batch_index := goi_entry_of batch_index next_order cumulative client_seq m)\<rparr>))"

subsection \<open>Export descriptors\<close>

definition export_descriptor :: "nat \<Rightarrow> nat \<Rightarrow> HoldBatchMetadata \<Rightarrow> BatchHeader \<Rightarrow> BatchHeader" where
  "export_descriptor export_seq next_order m h =
     h\<lparr>bh_batch_seq := export_seq, bh_client_id := u32 (hm_client_id m), bh_broker_id := nat (hm_broker_id m),
       bh_epoch_created := hm_epoch_created m, bh_session_epoch := hm_session_epoch m mod 65536,
       bh_session_epoch32 := hm_session_epoch m, bh_batch_id := hm_batch_id m,
       bh_pbr_absolute_index := hm_pbr_absolute_index m, bh_start_logical_offset := hm_start_logical_offset m,
       bh_batch_off_to_export := 0, bh_log_idx := hm_log_idx m, bh_total_size := u32 (hm_total_size m),
       bh_num_msg := hm_num_msg m, bh_total_order := next_order, bh_ordered := 1, bh_batch_complete := 0,
       bh_publish_commit := kBatchHeaderPublishUncommitted, bh_flags := kBatchHeaderFlagRetired\<rparr>"

definition export_one :: "nat \<Rightarrow> HoldBatchMetadata \<Rightarrow> Topic \<Rightarrow> Topic" where
  "export_one next_order m t =
     (let b = hm_broker_id m; ring_start = oe_batch_headers_offset (tp_offsets t b)
      in if \<not> valid_broker b \<or> ring_start = 0 then t
         else let ring_end = ring_start + tp_BATCHHEADERS_SIZE t;
                  cur = (case tp_export_cursor t b of
                           Some c \<Rightarrow> if c < ring_start \<or> c \<ge> ring_end then ring_start else c
                         | None \<Rightarrow> ring_start);
                  export_seq = tp_export_sequence t b;
                  nxt = cur + sizeof_BatchHeader
              in t\<lparr>tp_export_sequence := (tp_export_sequence t)(b := u64 (export_seq + 1)),
                   tp_export_cursor := (tp_export_cursor t)(b := Some (if nxt \<ge> ring_end then ring_start else nxt)),
                   tp_headers := (tp_headers t)(cur := export_descriptor export_seq next_order m (tp_headers t cur))\<rparr>)"

fun write_export :: "nat \<Rightarrow> PendingBatch5 list \<Rightarrow> Topic \<Rightarrow> Topic" where
  "write_export next_order [] t = t"
| "write_export next_order (p # ps) t =
     (if \<not> committed_batch p then write_export next_order ps t
      else let m = commit_meta p
           in write_export (u64 (next_order + hm_num_msg m)) ps (InvalidateOrder5HeldSlot (pb_hdr p) (export_one next_order m t)))"

subsection \<open>Metadata\<close>

text \<open>The accumulators of the metadata loop.\<close>

record MetaAcc =
  ma_tracker :: "int \<Rightarrow> nat option"
  ma_ctx :: CommitCtx
  ma_increment :: "int \<Rightarrow> nat"
  ma_last_offset :: "int \<Rightarrow> nat"
  ma_seen :: "int \<Rightarrow> bool"
  ma_count :: "int \<Rightarrow> nat"
  ma_client_delta :: "(nat, nat) omap"
  ma_sessions :: "(64 word, SessionPublishSnapshot) omap"
  ma_index :: nat
  ma_tp :: Topic

definition MetaAcc_init :: "CommitCtx \<Rightarrow> nat \<Rightarrow> Topic \<Rightarrow> MetaAcc" where
  "MetaAcc_init cc base t = \<lparr>ma_tracker = (\<lambda>_. None), ma_ctx = cc, ma_increment = (\<lambda>_. 0), ma_last_offset = (\<lambda>_. 0),
     ma_seen = (\<lambda>_. False), ma_count = (\<lambda>_. 0), ma_client_delta = [], ma_sessions = [], ma_index = base, ma_tp = t\<rparr>"

definition cv_base :: "Topic \<Rightarrow> int \<Rightarrow> nat" where
  "cv_base t b = max (oe_ordered (tp_offsets t b))
     (max (cv_sequencer_logical_offset (tp_cv t b)) (cv_completed_logical_offset (tp_cv t b)))"

definition SessionPublishSnapshot_init :: SessionPublishSnapshot where
  "SessionPublishSnapshot_init = \<lparr>sp_session_epoch = 0, sp_expected_seq = 0, sp_committed_hwm = 0, sp_highest_sequenced = 0, sp_fenced = False\<rparr>"

definition record_session_publish :: "HoldBatchMetadata \<Rightarrow> (64 word, SessionPublishSnapshot) omap \<Rightarrow> (64 word, SessionPublishSnapshot) omap" where
  "record_session_publish m sessions =
     (if hm_session_epoch m = 0 then sessions
      else let key = MakeSessionKey (hm_client_id m) (hm_session_epoch m);
               s = om_get SessionPublishSnapshot_init sessions key;
               seq = hm_batch_seq m
           in om_put key (s\<lparr>sp_session_epoch := hm_session_epoch m, sp_expected_seq := max (sp_expected_seq s) (u64 (seq + 1)),
                            sp_committed_hwm := max (sp_committed_hwm s) seq,
                            sp_highest_sequenced := max (sp_highest_sequenced s) seq\<rparr>) sessions)"

definition next_consumed :: "nat \<Rightarrow> nat \<Rightarrow> nat \<Rightarrow> nat" where
  "next_consumed ring_size slot_offset expected =
     (if slot_offset = expected \<or> (expected = ring_size \<and> slot_offset = 0)
      then min ring_size (slot_offset + sizeof_BatchHeader) else expected)"

definition stamp_goi :: "nat \<Rightarrow> CommitCtx \<Rightarrow> Topic \<Rightarrow> CommitCtx \<times> Topic" where
  "stamp_goi batch_index cc t =
     (if tp_replication_factor t > 0
      then case SteadyNowNs t of (now, t1) \<Rightarrow>
        (cc\<lparr>cc_ts_pos := u64 (cc_ts_pos cc + 1), cc_ts := (cc_ts cc)(cc_ts_pos cc mod kGOITimestampRingSize := (batch_index, now))\<rparr>, t1)
      else (cc, t))"

definition meta_one :: "PendingBatch5 \<Rightarrow> MetaAcc \<Rightarrow> MetaAcc" where
  "meta_one p a =
     (if \<not> committed_batch p then a
      else let m = commit_meta p; b = hm_broker_id m;
               (cumulative, tr) = track (ma_tracker a) (cv_base (ma_tp a)) b (hm_num_msg m);
               (cum, pbr) = AccumulateCVUpdate (broker16 b) (hm_pbr_absolute_index m) cumulative (cc_cum (ma_ctx a), cc_pbr (ma_ctx a));
               (cc, t) = stamp_goi (ma_index a) ((ma_ctx a)\<lparr>cc_cum := cum, cc_pbr := pbr\<rparr>) (ma_tp a);
               a1 = a\<lparr>ma_tracker := tr, ma_tp := t, ma_index := ma_index a + 1,
                      ma_client_delta := om_add (u32 (hm_client_id m)) (hm_num_msg m) (ma_client_delta a),
                      ma_sessions := record_session_publish m (ma_sessions a)\<rparr>
           in if \<not> valid_broker b then a1\<lparr>ma_ctx := cc\<rparr>
              else a1\<lparr>ma_ctx := cc\<lparr>cc_contig := (cc_contig cc)(b := next_consumed (tp_BATCHHEADERS_SIZE t) (hm_slot_offset m) (cc_contig cc b))\<rparr>,
                      ma_increment := (ma_increment a)(b := u64 (ma_increment a b + hm_num_msg m)),
                      ma_last_offset := (ma_last_offset a)(b := (if pb_from_hold p then hm_log_idx m else the (pb_hdr p))),
                      ma_seen := (ma_seen a)(b := True), ma_count := (ma_count a)(b := ma_count a b + 1)\<rparr>)"

definition tinode_one :: "MetaAcc \<Rightarrow> int \<Rightarrow> CommitCtx \<times> Topic \<Rightarrow> CommitCtx \<times> Topic" where
  "tinode_one a b st =
     (case st of (cc, t) \<Rightarrow> if \<not> ma_seen a b then (cc, t)
      else (cc\<lparr>cc_committed_batches := (cc_committed_batches cc)(b := u64 (cc_committed_batches cc b + ma_count a b)),
               cc_committed_msgs := (cc_committed_msgs cc)(b := u64 (cc_committed_msgs cc b + ma_increment a b))\<rparr>,
            t\<lparr>tp_offsets := (tp_offsets t)(b := (tp_offsets t b)\<lparr>oe_ordered := u64 (oe_ordered (tp_offsets t b) + ma_increment a b),
                                                               oe_ordered_offset := ma_last_offset a b\<rparr>)\<rparr>))"

definition write_tinode :: "MetaAcc \<Rightarrow> CommitCtx \<times> Topic \<Rightarrow> CommitCtx \<times> Topic" where
  "write_tinode a st = fold (tinode_one a) broker_ids st"

definition write_clients :: "(nat, nat) omap \<Rightarrow> Topic \<Rightarrow> Topic" where
  "write_clients delta t = fold (\<lambda>(cid, cnt) t.
     t\<lparr>tp_per_client_ordered := om_add cid cnt (tp_per_client_ordered t),
       tp_per_client_ordered_epoch := om_put cid (tp_cached_epoch t) (tp_per_client_ordered_epoch t)\<rparr>) delta t"

fun publish_sessions :: "(64 word, SessionPublishSnapshot) omap \<Rightarrow> Topic \<Rightarrow> bool \<times> Topic" where
  "publish_sessions [] t = (True, t)"
| "publish_sessions ((key, snap) # rest) t =
     (case PublishSessionEntry (tp_session_table t) key snap of
        (ok, table) \<Rightarrow> let t1 = t\<lparr>tp_session_table := table\<rparr> in if ok then publish_sessions rest t1 else (False, t1))"

subsection \<open>CommitEpoch\<close>

text \<open>\<open>EnqueueCompletedRange\<close> as a commit sees it: its loop runs only while the threads are not being stopped, so a range
  that is enqueued while the stop flag is set is dropped.  The ring itself is modelled in the theory of the committed frontier.\<close>

definition enqueue_completed :: "nat \<Rightarrow> nat \<Rightarrow> Topic \<Rightarrow> Topic" where
  "enqueue_completed start stop t =
     (if stop \<le> start then t
      else if tp_stop_threads t then t
      else t\<lparr>tp_completed_ranges := tp_completed_ranges t @ [(start, stop)]\<rparr>)"

definition publish_epoch ::
  "Level5ShardState list \<Rightarrow> PendingBatch5 list \<Rightarrow> (int \<Rightarrow> bool) \<Rightarrow> PendingBatch5 list \<Rightarrow> nat \<Rightarrow> nat \<Rightarrow> nat \<Rightarrow> CommitCtx \<Rightarrow> Topic \<Rightarrow>
   CommitCtx \<times> Topic" where
  "publish_epoch shards batch_list seen ready base_index base_order num_goi cc t =
     (let t1 = write_export base_order ready (write_goi base_index base_order (\<lambda>_. None) ready t);
          a = fold meta_one ready (MetaAcc_init cc base_index t1);
          (cc1, t2) = write_tinode a (ma_ctx a, ma_tp a);
          (ok, t3) = publish_sessions (ma_sessions a) (write_clients (ma_client_delta a) t2)
      in if \<not> ok then (cc1, StopForCapacityExhaustion t3)
         else let t4 = FlushAccumulatedCV (cc_cum cc1) (cc_pbr cc1) (Some (ma_seen a)) t3;
                  (contig, t5) = AdvanceConsumedThroughForProcessedSlots shards batch_list seen None (cc_contig cc1) t4;
                  t6 = (if num_goi > 0 then enqueue_completed base_index (base_index + num_goi) t5 else t5)
              in (cc1\<lparr>cc_contig := contig\<rparr>, write_consumed seen contig t6))"

definition CommitEpoch ::
  "Level5ShardState list \<Rightarrow> PendingBatch5 list \<Rightarrow> (int \<Rightarrow> bool) \<Rightarrow> PendingBatch5 list \<Rightarrow> CommitCtx \<Rightarrow> Topic \<Rightarrow> CommitCtx \<times> Topic" where
  "CommitEpoch shards batch_list seen ready cc t =
     (if tp_capacity_exhausted t then (cc, t)
      else case guard_ready ready t of
        (kept, failed, t1) \<Rightarrow>
          if failed then (cc, StopForCapacityExhaustion t1)
          else if kept = []
          then (case AdvanceConsumedThroughForProcessedSlots shards batch_list seen (Some (cc_cum cc, cc_pbr cc)) (cc_contig cc) t1 of
                  (contig, t2) \<Rightarrow> (cc\<lparr>cc_contig := contig\<rparr>, t2))
          else (case count_ready kept 0 0 of
                  None \<Rightarrow> (cc, StopForCapacityExhaustion t1)
                | Some (total_msg, num_goi) \<Rightarrow>
                    (case TryReserveCommitRanges (tp_global_batch_seq t1) (tp_global_seq t1) kGOICapacity num_goi total_msg of
                       None \<Rightarrow> (cc, StopForCapacityExhaustion t1)
                     | Some (g, m) \<Rightarrow>
                         publish_epoch shards batch_list seen kept (tp_global_batch_seq t1) (tp_global_seq t1) num_goi cc
                           (t1\<lparr>tp_global_batch_seq := g, tp_global_seq := m\<rparr>))))"

subsection \<open>AssignOrder5\<close>

text \<open>The batch at address \<open>addr\<close> gets its order and its descriptor is written at \<open>sub\<close>; the new
  descriptor address is returned.\<close>

definition assigned_descriptor :: "BatchHeader \<Rightarrow> nat \<Rightarrow> BatchHeader \<Rightarrow> BatchHeader" where
  "assigned_descriptor h start_total_order d =
     d\<lparr>bh_total_order := start_total_order, bh_num_msg := u32 (bh_num_msg h), bh_total_size := u32 (bh_total_size h),
       bh_log_idx := bh_log_idx h, bh_pbr_absolute_index := bh_pbr_absolute_index h, bh_batch_id := bh_batch_id h,
       bh_client_id := bh_client_id h, bh_batch_seq := bh_batch_seq h, bh_broker_id := bh_broker_id h,
       bh_epoch_created := bh_epoch_created h, bh_batch_off_to_export := 0, bh_ordered := 1, bh_batch_complete := 1,
       bh_publish_commit := bh_pbr_absolute_index h, bh_flags := kBatchHeaderFlagClaimed OR kBatchHeaderFlagValid\<rparr>"

definition AssignOrder5 :: "nat \<Rightarrow> nat \<Rightarrow> nat \<Rightarrow> Topic \<Rightarrow> nat \<times> Topic" where
  "AssignOrder5 addr start_total_order sub t =
     (let h = tp_headers t addr; b = int (bh_broker_id h); n = bh_num_msg h
      in if n = 0 then (sub, t)
         else let cleared = ClearOrder5PublishState (h\<lparr>bh_total_order := start_total_order\<rparr>);
                  hs = (tp_headers t)(addr := cleared);
                  off = (tp_offsets t b)\<lparr>oe_ordered := u64 (oe_ordered (tp_offsets t b) + n), oe_ordered_offset := addr\<rparr>
              in (sub + sizeof_BatchHeader,
                  t\<lparr>tp_offsets := (tp_offsets t)(b := off),
                    tp_headers := hs(sub := assigned_descriptor cleared start_total_order (hs sub))\<rparr>))"

end
