(* ===== verification/CommitProps.thy ===== *)
theory CommitProps
  imports Commit Level5Props
begin

text \<open>What a commit of an epoch guarantees (\<open>CommitEpoch\<close>, \<open>topic_order5_commit.cc\<close>).\<close>

subsection \<open>The guard\<close>

definition batch_key :: "PendingBatch5 \<Rightarrow> 64 word" where
  "batch_key p = MakeSessionKey (hm_client_id (commit_meta p)) (hm_session_epoch (commit_meta p))"

definition guarded :: "PendingBatch5 \<Rightarrow> bool" where
  "guarded p \<longleftrightarrow> committed_batch p \<and> hm_session_epoch (commit_meta p) \<noteq> 0"

text \<open>A batch the session table forbids: its session is active and fenced, or has already
  published a frontier above its sequence.\<close>

definition guard_rejects :: "SessionTable option \<Rightarrow> PendingBatch5 \<Rightarrow> bool" where
  "guard_rejects table p \<longleftrightarrow> guarded p \<and>
     (case session_lookup table (batch_key p) of
        None \<Rightarrow> False
      | Some e \<Rightarrow> entry_active e \<and> (entry_fenced e \<or> hm_batch_seq (commit_meta p) < se_expected_seq e))"

text \<open>The guard only touches the session table, the reject counter and the rejected slots.\<close>

definition guard_only :: "Topic \<Rightarrow> Topic \<Rightarrow> bool" where
  "guard_only t t' \<longleftrightarrow> (\<exists>s r h. t' = t\<lparr>tp_session_table := s, tp_spatial_guard_rejects := r, tp_headers := h\<rparr>)"

lemma guard_onlyI: "guard_only t (t\<lparr>tp_session_table := s, tp_spatial_guard_rejects := r, tp_headers := h\<rparr>)"
  unfolding guard_only_def by blast

lemma guard_only_refl: "guard_only t t"
  using guard_onlyI[of t "tp_headers t" "tp_spatial_guard_rejects t" "tp_session_table t"] by simp

lemma guard_only_trans: "guard_only a b \<Longrightarrow> guard_only b c \<Longrightarrow> guard_only a c"
  unfolding guard_only_def by (elim exE) auto

lemma guard_only_table: "guard_only t (t\<lparr>tp_session_table := s\<rparr>)"
  using guard_onlyI[of t "tp_headers t" "tp_spatial_guard_rejects t" s] by simp

lemma guard_only_reject:
  "guard_only t (InvalidateOrder5HeldSlot hdr (t\<lparr>tp_session_table := s, tp_spatial_guard_rejects := r\<rparr>))"
  using guard_onlyI[of t "tp_headers t" r s] guard_onlyI[of t _ r s] by (cases hdr) (simp_all add: InvalidateOrder5HeldSlot_def)

lemma InvalidateOrder5HeldSlot_table: "tp_session_table (InvalidateOrder5HeldSlot hdr t) = tp_session_table t"
  by (cases hdr) (simp_all add: InvalidateOrder5HeldSlot_def)

text \<open>Two tables that agree for the guard: same lookups, up to entries that were just created.\<close>

definition guard_view :: "SessionTable option \<Rightarrow> SessionTable option \<Rightarrow> bool" where
  "guard_view a b \<longleftrightarrow> session_table_ok b \<and>
     (\<forall>k. session_lookup b k = session_lookup a k \<or> (session_lookup a k = None \<and> session_lookup b k = Some (session_fresh k)))"

lemma guard_view_trans: "guard_view a b \<Longrightarrow> guard_view b c \<Longrightarrow> guard_view a c"
  unfolding guard_view_def by (metis option.distinct(1))

lemma fresh_inactive: "\<not> entry_active (session_fresh k)"
  by (simp add: entry_active_def session_fresh_def SessionEntry_empty_def)

lemma guard_rejects_view: "guard_view a b \<Longrightarrow> guard_rejects b p = guard_rejects a p"
  using fresh_inactive[of "batch_key p"] unfolding guard_view_def guard_rejects_def
  by (metis (no_types, lifting) option.simps(4) option.simps(5))

lemma find_lookup: "FindSessionEntry table key = Some i \<Longrightarrow> session_lookup table key = Some (the table i)"
  by (cases table) (simp_all add: session_lookup_def FindSessionEntry_def)

lemma guard_step:
  assumes ok: "session_table_ok (tp_session_table t)" and g: "spatial_guard_reject p t = (rej, False, t1)"
  shows "rej = guard_rejects (tp_session_table t) p \<and> guard_only t t1 \<and> guard_view (tp_session_table t) (tp_session_table t1) \<and>
     (guarded p \<longrightarrow> session_lookup (tp_session_table t1) (batch_key p) \<noteq> None)"
proof (cases "guarded p")
  case False
  then have "spatial_guard_reject p t = (False, False, t)" by (auto simp: spatial_guard_reject_def guarded_def Let_def)
  then show ?thesis using g False ok by (simp add: guard_rejects_def guard_only_refl guard_view_def)
next
  case True
  let ?m = "commit_meta p" let ?k = "batch_key p"
  obtain found table where f: "(case FindSessionEntry (tp_session_table t) ?k of
      Some i \<Rightarrow> (Some i, tp_session_table t) | None \<Rightarrow> FindOrCreateSessionEntry (tp_session_table t) ?k) = (found, table)"
    by (metis surj_pair)
  let ?t1 = "t\<lparr>tp_session_table := table\<rparr>"
  have tr: "committed_batch p" "hm_session_epoch ?m \<noteq> 0" using True by (simp_all add: guarded_def)
  have sg: "spatial_guard_reject p t = (case found of
                        None \<Rightarrow> (False, True, ?t1)
                      | Some i \<Rightarrow>
                          if \<not> entry_active (the table i) then (False, False, ?t1)
                             else if \<not> ShouldRejectOrder5SpatialGuard (entry_active (the table i)) (entry_fenced (the table i))
                                         (hm_batch_seq ?m) (se_expected_seq (the table i))
                             then (False, False, ?t1)
                             else (True, False, InvalidateOrder5HeldSlot (pb_hdr p)
                                     (?t1\<lparr>tp_spatial_guard_rejects := u64 (tp_spatial_guard_rejects ?t1 + 1)\<rparr>)))"
    unfolding spatial_guard_reject_def Let_def f[unfolded batch_key_def] using tr by (simp split: option.split)
  obtain i where i: "found = Some i" using g sg by (cases found) auto
  have v: "guard_view (tp_session_table t) table \<and> session_lookup table ?k = Some (the table i)"
  proof (cases "FindSessionEntry (tp_session_table t) ?k")
    case None
    then have "FindOrCreateSessionEntry (tp_session_table t) ?k = (Some i, table)" using f i by simp
    from create_lookup[OF ok this] show ?thesis by (auto simp: guard_view_def)
  next
    case (Some j)
    then show ?thesis using f i ok find_lookup by (auto simp: guard_view_def)
  qed
  let ?e = "the table i"
  have rej: "guard_rejects (tp_session_table t) p \<longleftrightarrow> entry_active ?e \<and> (entry_fenced ?e \<or> hm_batch_seq ?m < se_expected_seq ?e)"
    using guard_rejects_view[of "tp_session_table t" table p] v True by (simp add: guard_rejects_def)
  have "rej = guard_rejects (tp_session_table t) p \<and> guard_only t t1 \<and> tp_session_table t1 = table"
    using g unfolding sg i rej
    by (auto simp: ShouldRejectOrder5SpatialGuard_def guard_only_table guard_only_reject InvalidateOrder5HeldSlot_table split: if_splits)
  then show ?thesis using v by simp
qed

lemma guard_ready_spec:
  assumes "session_table_ok (tp_session_table t)" "guard_ready ready t = (kept, False, t1)"
  shows "kept = filter (\<lambda>p. \<not> guard_rejects (tp_session_table t) p) ready \<and> guard_only t t1 \<and>
     guard_view (tp_session_table t) (tp_session_table t1) \<and>
     (\<forall>p\<in>set ready. guarded p \<longrightarrow> session_lookup (tp_session_table t1) (batch_key p) \<noteq> None)"
  using assms
proof (induction ready arbitrary: t kept t1)
  case Nil
  then show ?case by (simp add: guard_only_refl guard_view_def)
next
  case (Cons p ps)
  obtain rej f t2 where s: "spatial_guard_reject p t = (rej, f, t2)" by (cases "spatial_guard_reject p t")
  obtain k2 f2 t3 where r: "guard_ready ps t2 = (k2, f2, t3)" by (cases "guard_ready ps t2")
  have e: "\<not> f" "\<not> f2" "t1 = t3" "kept = (if rej then k2 else p # k2)" using Cons.prems(2) s r by auto
  have st: "rej = guard_rejects (tp_session_table t) p" "guard_only t t2" "guard_view (tp_session_table t) (tp_session_table t2)"
    "guarded p \<longrightarrow> session_lookup (tp_session_table t2) (batch_key p) \<noteq> None"
    using guard_step[OF Cons.prems(1)] s e(1) by auto
  have ok2: "session_table_ok (tp_session_table t2)" using st(3) by (simp add: guard_view_def)
  have ih: "k2 = filter (\<lambda>p. \<not> guard_rejects (tp_session_table t2) p) ps" "guard_only t2 t3"
    "guard_view (tp_session_table t2) (tp_session_table t3)"
    "\<forall>p\<in>set ps. guarded p \<longrightarrow> session_lookup (tp_session_table t3) (batch_key p) \<noteq> None"
    using Cons.IH[OF ok2] r e(2) by auto
  have "session_lookup (tp_session_table t3) (batch_key p) \<noteq> None" if "guarded p"
    using st(4) that ih(3) unfolding guard_view_def by (metis option.distinct(1))
  then show ?case
    using st ih e guard_only_trans[OF st(2) ih(2)] guard_view_trans[OF st(3) ih(3)] guard_rejects_view[OF st(3)] by simp
qed

subsection \<open>What each phase touches\<close>

lemma write_goi_frame: "\<exists>h g. write_goi i ord tr ps t = t\<lparr>tp_headers := h, tp_goi := g\<rparr>"
proof (induction i ord tr ps t rule: write_goi.induct)
  case (1 i ord tr t)
  show ?case by (intro exI[of _ "tp_headers t"] exI[of _ "tp_goi t"]) simp
next
  case (2 i ord tr p ps t)
  obtain c tr' where tk: "track tr (ordered_base t) (hm_broker_id (commit_meta p)) (hm_num_msg (commit_meta p)) = (c, tr')"
    by (metis surj_pair)
  show ?case
  proof (cases "\<not> committed_batch p \<or> (\<not> pb_from_hold p \<and> pb_hdr p = None)")
    case True
    then show ?thesis using 2(1,2) by (auto simp: Let_def)
  next
    case False
    then have "\<not> \<not> committed_batch p" "\<not> (\<not> pb_from_hold p \<and> pb_hdr p = None)" by auto
    from 2(3)[OF this refl tk[symmetric] refl refl refl] show ?thesis using False tk by (auto simp: Let_def)
  qed
qed

lemma export_one_frame: "\<exists>s h c. export_one ord m t = t\<lparr>tp_export_sequence := s, tp_export_cursor := c, tp_headers := h\<rparr>"
proof (cases "\<not> valid_broker (hm_broker_id m) \<or> oe_batch_headers_offset (tp_offsets t (hm_broker_id m)) = 0")
  case True
  then show ?thesis
    by (intro exI[of _ "tp_export_sequence t"] exI[of _ "tp_headers t"] exI[of _ "tp_export_cursor t"]) (simp add: export_one_def Let_def)
next
  case False
  then show ?thesis unfolding export_one_def Let_def by (simp only: if_False) blast
qed

lemma write_export_frame: "\<exists>s h c. write_export ord ps t = t\<lparr>tp_export_sequence := s, tp_export_cursor := c, tp_headers := h\<rparr>"
proof (induction ps arbitrary: ord t)
  case Nil
  show ?case by (intro exI[of _ "tp_export_sequence t"] exI[of _ "tp_headers t"] exI[of _ "tp_export_cursor t"]) simp
next
  case (Cons p ps)
  show ?case
  proof (cases "committed_batch p")
    case True
    let ?t = "InvalidateOrder5HeldSlot (pb_hdr p) (export_one ord (commit_meta p) t)"
    obtain s h c where e: "export_one ord (commit_meta p) t = t\<lparr>tp_export_sequence := s, tp_export_cursor := c, tp_headers := h\<rparr>"
      using export_one_frame by blast
    have "\<exists>s h c. ?t = t\<lparr>tp_export_sequence := s, tp_export_cursor := c, tp_headers := h\<rparr>"
      unfolding e InvalidateOrder5HeldSlot_def by (cases "pb_hdr p") auto
    then obtain s h c where t: "?t = t\<lparr>tp_export_sequence := s, tp_export_cursor := c, tp_headers := h\<rparr>" by blast
    have "write_export ord (p # ps) t = write_export (u64 (ord + hm_num_msg (commit_meta p))) ps ?t" using True by (simp add: Let_def)
    then show ?thesis using Cons.IH[of "u64 (ord + hm_num_msg (commit_meta p))" ?t] unfolding t by auto
  next
    case False
    then show ?thesis using Cons.IH by simp
  qed
qed

lemma stamp_frame: "\<exists>n. snd (stamp_goi i cc t) = t\<lparr>tp_ticks := n\<rparr>"
  by (cases "tp_replication_factor t > 0")
     (auto simp: stamp_goi_def SteadyNowNs_def intro: exI[of _ "tp_ticks t"])

lemma meta_one_tp: "ma_tp (meta_one p a) = (if committed_batch p then snd (stamp_goi (ma_index a)
     (snd (case AccumulateCVUpdate (broker16 (hm_broker_id (commit_meta p))) (hm_pbr_absolute_index (commit_meta p))
        (fst (track (ma_tracker a) (cv_base (ma_tp a)) (hm_broker_id (commit_meta p)) (hm_num_msg (commit_meta p)))) (cc_cum (ma_ctx a), cc_pbr (ma_ctx a))
      of (cum, pbr) \<Rightarrow> ((), (ma_ctx a)\<lparr>cc_cum := cum, cc_pbr := pbr\<rparr>))) (ma_tp a)) else ma_tp a)"
  by (simp add: meta_one_def Let_def split: prod.split)

lemma meta_tp_frame: "\<exists>n. ma_tp (fold meta_one ps a) = (ma_tp a)\<lparr>tp_ticks := n\<rparr>"
proof (induction ps arbitrary: a)
  case Nil
  show ?case by (intro exI[of _ "tp_ticks (ma_tp a)"]) simp
next
  case (Cons p ps)
  have "\<exists>n. ma_tp (meta_one p a) = (ma_tp a)\<lparr>tp_ticks := n\<rparr>"
    unfolding meta_one_tp using stamp_frame by (auto intro: exI[of _ "tp_ticks (ma_tp a)"])
  then obtain n where n: "ma_tp (meta_one p a) = (ma_tp a)\<lparr>tp_ticks := n\<rparr>" by blast
  show ?case using Cons.IH[of "meta_one p a"] unfolding n by auto
qed

lemma tinode_one_offsets:
  "tp_offsets (snd (tinode_one a x st)) b = (if b = x \<and> ma_seen a x then (tp_offsets (snd st) x)\<lparr>
       oe_ordered := u64 (oe_ordered (tp_offsets (snd st) x) + ma_increment a x), oe_ordered_offset := ma_last_offset a x\<rparr>
     else tp_offsets (snd st) b)"
  by (simp add: tinode_one_def split: prod.split)

lemma tinode_one_frame: "\<exists>off. snd (tinode_one a x st) = (snd st)\<lparr>tp_offsets := off\<rparr>"
  by (cases "ma_seen a x") (auto simp: tinode_one_def split: prod.split intro: exI[of _ "tp_offsets (snd st)"])

lemma write_tinode_spec:
  "(\<exists>off. snd (write_tinode a st) = (snd st)\<lparr>tp_offsets := off\<rparr>) \<and>
   tp_offsets (snd (write_tinode a st)) b = (if valid_broker b \<and> ma_seen a b then (tp_offsets (snd st) b)\<lparr>
       oe_ordered := u64 (oe_ordered (tp_offsets (snd st) b) + ma_increment a b), oe_ordered_offset := ma_last_offset a b\<rparr>
     else tp_offsets (snd st) b)"
proof -
  have "(\<exists>off. snd (fold (tinode_one a) bs st) = (snd st)\<lparr>tp_offsets := off\<rparr>) \<and>
    tp_offsets (snd (fold (tinode_one a) bs st)) b = (if b \<in> set bs \<and> ma_seen a b then (tp_offsets (snd st) b)\<lparr>
       oe_ordered := u64 (oe_ordered (tp_offsets (snd st) b) + ma_increment a b), oe_ordered_offset := ma_last_offset a b\<rparr>
     else tp_offsets (snd st) b)" if "distinct bs" for bs
    using that
  proof (induction bs arbitrary: st)
    case Nil
    show ?case by (intro conjI exI[of _ "tp_offsets (snd st)"]) simp_all
  next
    case (Cons x bs)
    obtain off where off: "snd (tinode_one a x st) = (snd st)\<lparr>tp_offsets := off\<rparr>" using tinode_one_frame by blast
    have "\<exists>off. snd (fold (tinode_one a) (x # bs) st) = (snd st)\<lparr>tp_offsets := off\<rparr>"
      using Cons.IH[of "tinode_one a x st"] Cons.prems off by auto
    moreover have "tp_offsets (snd (fold (tinode_one a) bs (tinode_one a x st))) b =
      (if b \<in> set bs \<and> ma_seen a b then (tp_offsets (snd (tinode_one a x st)) b)\<lparr>
         oe_ordered := u64 (oe_ordered (tp_offsets (snd (tinode_one a x st)) b) + ma_increment a b), oe_ordered_offset := ma_last_offset a b\<rparr>
       else tp_offsets (snd (tinode_one a x st)) b)"
      using Cons.IH[of "tinode_one a x st"] Cons.prems by simp
    ultimately show ?case using Cons.prems unfolding tinode_one_offsets by auto
  qed
  from this[OF broker_ids_distinct] show ?thesis by (simp add: write_tinode_def set_broker_ids)
qed

lemma write_clients_frame: "\<exists>x y. write_clients d t = t\<lparr>tp_per_client_ordered := x, tp_per_client_ordered_epoch := y\<rparr>"
  unfolding write_clients_def
proof (induction d arbitrary: t)
  case Nil
  show ?case by (intro exI[of _ "tp_per_client_ordered t"] exI[of _ "tp_per_client_ordered_epoch t"]) simp
next
  case (Cons x d)
  obtain c n where x: "x = (c, n)" by (cases x)
  show ?case using Cons[of "t\<lparr>tp_per_client_ordered := om_add c n (tp_per_client_ordered t),
       tp_per_client_ordered_epoch := om_put c (tp_cached_epoch t) (tp_per_client_ordered_epoch t)\<rparr>"] by (simp add: x)
qed

lemma write_clients_ordered:
  "tp_per_client_ordered (write_clients d t) = fold (\<lambda>(c, n). om_add c n) d (tp_per_client_ordered t)"
  unfolding write_clients_def
proof (induction d arbitrary: t)
  case (Cons x d)
  obtain c n where x: "x = (c, n)" by (cases x)
  show ?case unfolding x fold_Cons o_apply prod.case Cons.IH by simp
qed simp

lemma publish_sessions_frame: "\<exists>s. snd (publish_sessions ss t) = t\<lparr>tp_session_table := s\<rparr>"
proof (induction ss t rule: publish_sessions.induct)
  case (1 t)
  show ?case by (intro exI[of _ "tp_session_table t"]) simp
next
  case (2 key snap rest t)
  obtain ok table where p: "PublishSessionEntry (tp_session_table t) key snap = (ok, table)" by (metis surj_pair)
  show ?case
  proof (cases ok)
    case True
    then show ?thesis using 2[OF p[symmetric] refl] p by auto
  next
    case False
    then show ?thesis using p by auto
  qed
qed

lemma advance_frame: "\<exists>off. snd (AdvanceConsumedThroughForProcessedSlots shards bl seen None contig t) = t\<lparr>tp_offsets := off\<rparr>"
proof (cases "tp_capacity_exhausted t \<or> bl = []")
  case True
  then show ?thesis
    by (intro exI[of _ "tp_offsets t"]) (auto simp: AdvanceConsumedThroughForProcessedSlots_def)
next
  case False
  then show ?thesis using write_consumed_spec by (simp add: AdvanceConsumedThroughForProcessedSlots_def Let_def)
qed

lemma advance_cv_frame:
  "\<exists>off. cv_only (t\<lparr>tp_offsets := off\<rparr>) (snd (AdvanceConsumedThroughForProcessedSlots shards bl seen (Some (cum, pbr)) contig t))"
proof (cases "tp_capacity_exhausted t \<or> bl = []")
  case True
  then show ?thesis
    by (intro exI[of _ "tp_offsets t"])
       (auto simp: AdvanceConsumedThroughForProcessedSlots_def Let_def cv_only_refl FlushAccumulatedCV_spec(1))
next
  case False
  let ?c = "fst (AdvanceConsumedThroughForProcessedSlots shards bl seen (Some (cum, pbr)) contig t)"
  obtain off where w: "write_consumed seen ?c t = t\<lparr>tp_offsets := off\<rparr>" using write_consumed_spec[of seen ?c t] by blast
  have "snd (AdvanceConsumedThroughForProcessedSlots shards bl seen (Some (cum, pbr)) contig t) =
      FlushAccumulatedCV cum pbr None (write_consumed seen ?c t)"
    using False by (simp add: AdvanceConsumedThroughForProcessedSlots_def Let_def)
  then show ?thesis using FlushAccumulatedCV_spec(1) unfolding w by metis
qed

subsection \<open>Counting\<close>

abbreviation num :: "PendingBatch5 \<Rightarrow> nat" where "num p \<equiv> hm_num_msg (commit_meta p)"

text \<open>A batch that comes from the hold buffer carries the message count it was held with.\<close>

definition well_counted :: "PendingBatch5 \<Rightarrow> bool" where
  "well_counted p \<longleftrightarrow> num p = pb_num_msg p"

lemma well_counted_held: "he_meta e = hold_meta_of (he_batch e) \<Longrightarrow> well_counted (held_emission e)"
  by (simp add: well_counted_def commit_meta_def held_emission_def hold_meta_of_def)

lemma count_ready_spec:
  assumes "count_ready ps a n = Some (tot, k)"
  shows "tot = a + sum_list (map pb_num_msg (filter committed_batch ps)) \<and> k = n + length (filter committed_batch ps) \<and>
     (\<forall>p\<in>set (filter committed_batch ps). pb_from_hold p \<or> pb_hdr p \<noteq> None)"
  using assms by (induction ps a n rule: count_ready.induct) (auto split: if_splits)

lemma reserve_spec:
  assumes "TryReserveCommitRanges g m cap n cnt = Some (g', m')"
  shows "g' = g + n \<and> m' = m + cnt \<and> g + n \<le> cap \<and> m + cnt \<le> UINT64_MAX \<or> m > UINT64_MAX"
  using assms by (auto simp: TryReserveCommitRanges_def split: if_splits)

subsection \<open>Publishing the sessions cannot fail after the guard\<close>

lemma publish_keeps:
  assumes "session_table_ok table" "PublishSessionEntry table key snap = (True, table')"
  shows "session_table_ok table' \<and> (session_lookup table k \<noteq> None \<longrightarrow> session_lookup table' k \<noteq> None)"
proof (cases "sp_session_epoch snap = 0")
  case True
  then show ?thesis using assms by (simp add: PublishSessionEntry_def)
next
  case False
  then show ?thesis using publish_lookup[OF assms(1) False assms(2)] by simp
qed

lemma publish_sessions_ok:
  assumes "session_table_ok (tp_session_table t)" "\<forall>k\<in>om_keys ss. session_lookup (tp_session_table t) k \<noteq> None"
  shows "fst (publish_sessions ss t)"
  using assms
proof (induction ss t rule: publish_sessions.induct)
  case (2 key snap rest t)
  obtain ok table where p: "PublishSessionEntry (tp_session_table t) key snap = (ok, table)" by (metis surj_pair)
  have ok: "ok" using publish_present[OF 2(2), of key snap] 2(3) p by simp
  then have p': "PublishSessionEntry (tp_session_table t) key snap = (True, table)" using p by simp
  note k = publish_keeps[OF 2(2) p']
  have "fst (publish_sessions rest (t\<lparr>tp_session_table := table\<rparr>))"
    by (rule 2(1)[OF p[symmetric] refl ok]) (use k 2(3) in auto)
  then show ?case using p ok by simp
qed simp

lemma ma_sessions_keys:
  "om_keys (ma_sessions (fold meta_one ps a)) \<subseteq> om_keys (ma_sessions a) \<union> batch_key ` {p \<in> set ps. guarded p}"
proof (induction ps arbitrary: a)
  case (Cons p ps)
  have "ma_sessions (meta_one p a) = (if committed_batch p then record_session_publish (commit_meta p) (ma_sessions a) else ma_sessions a)"
    by (simp add: meta_one_def Let_def split: prod.split)
  then have "om_keys (ma_sessions (meta_one p a)) \<subseteq> om_keys (ma_sessions a) \<union> batch_key ` {q \<in> {p}. guarded q}"
    by (auto simp: record_session_publish_def guarded_def batch_key_def Let_def)
  then show ?case using Cons.IH[of "meta_one p a"] by auto
qed simp

subsection \<open>GOI entries\<close>

lemma write_goi_spec:
  assumes "\<forall>p\<in>set (filter committed_batch ps). pb_from_hold p \<or> pb_hdr p \<noteq> None"
    "ord + sum_list (map num (filter committed_batch ps)) \<le> UINT64_MAX"
  shows "(\<forall>i<length (filter committed_batch ps). \<exists>cumulative client_seq.
       tp_goi (write_goi idx ord tr ps t) (idx + i) =
         goi_entry_of (idx + i) (ord + sum_list (map num (take i (filter committed_batch ps)))) cumulative client_seq
           (commit_meta (filter committed_batch ps ! i)) \<and>
       (pb_from_hold (filter committed_batch ps ! i) \<longrightarrow> client_seq = hm_batch_seq (commit_meta (filter committed_batch ps ! i)))) \<and>
     (\<forall>x. x < idx \<or> idx + length (filter committed_batch ps) \<le> x \<longrightarrow> tp_goi (write_goi idx ord tr ps t) x = tp_goi t x)"
  using assms
proof (induction ps arbitrary: idx ord tr t)
  case Nil
  then show ?case by simp
next
  case (Cons p ps)
  show ?case
  proof (cases "committed_batch p")
    case False
    then show ?thesis using Cons.IH[of ord idx tr t] Cons.prems by simp
  next
    case True
    let ?m = "commit_meta p" and ?cs = "filter committed_batch ps"
    obtain c tr' where tk: "track tr (ordered_base t) (hm_broker_id ?m) (hm_num_msg ?m) = (c, tr')" by (metis surj_pair)
    define sq where "sq = (if pb_from_hold p then hm_batch_seq ?m else bh_batch_seq (tp_headers t (the (pb_hdr p))))"
    define hs where "hs = (if pb_from_hold p then tp_headers t
                     else (tp_headers t)(the (pb_hdr p) := (tp_headers t (the (pb_hdr p)))\<lparr>bh_total_order := ord\<rparr>))"
    define t' where "t' = t\<lparr>tp_headers := hs, tp_goi := (tp_goi t)(idx := goi_entry_of idx ord c sq ?m)\<rparr>"
    have o: "ord + num p + sum_list (map num ?cs) \<le> UINT64_MAX" using Cons.prems(2) True by simp
    then have u: "u64 (ord + num p) = ord + num p" by simp
    have w: "write_goi idx ord tr (p # ps) t = write_goi (idx + 1) (ord + num p) tr' ps t'"
    proof -
      have "\<not> (\<not> pb_from_hold p \<and> pb_hdr p = None)" using Cons.prems(1) True by auto
      then show ?thesis unfolding write_goi.simps Let_def tk prod.case u t'_def sq_def hs_def using True by auto
    qed
    have ih: "(\<forall>i<length ?cs. \<exists>cumulative client_seq. tp_goi (write_goi (idx + 1) (ord + num p) tr' ps t') (idx + 1 + i) =
         goi_entry_of (idx + 1 + i) (ord + num p + sum_list (map num (take i ?cs))) cumulative client_seq (commit_meta (?cs ! i)) \<and>
         (pb_from_hold (?cs ! i) \<longrightarrow> client_seq = hm_batch_seq (commit_meta (?cs ! i)))) \<and>
       (\<forall>x. x < idx + 1 \<or> idx + 1 + length ?cs \<le> x \<longrightarrow> tp_goi (write_goi (idx + 1) (ord + num p) tr' ps t') x = tp_goi t' x)"
      using Cons.IH[of "ord + num p" "idx + 1" tr' t'] Cons.prems(1) True o by simp
    have f: "filter committed_batch (p # ps) = p # ?cs" using True by simp
    show ?thesis unfolding f w
    proof (intro conjI allI impI)
      fix i assume i: "i < length (p # ?cs)"
      show "\<exists>cumulative client_seq. tp_goi (write_goi (idx + 1) (ord + num p) tr' ps t') (idx + i) =
         goi_entry_of (idx + i) (ord + sum_list (map num (take i (p # ?cs)))) cumulative client_seq (commit_meta ((p # ?cs) ! i)) \<and>
         (pb_from_hold ((p # ?cs) ! i) \<longrightarrow> client_seq = hm_batch_seq (commit_meta ((p # ?cs) ! i)))"
      proof (cases i)
        case 0
        have "tp_goi (write_goi (idx + 1) (ord + num p) tr' ps t') idx = goi_entry_of idx ord c sq ?m" using ih by (simp add: t'_def)
        then show ?thesis using 0 by (auto simp: sq_def)
      next
        case (Suc j)
        then have j: "j < length ?cs" using i by simp
        show ?thesis using ih[THEN conjunct1, rule_format, OF j] Suc by (simp add: add.assoc)
      qed
    next
      fix x assume "x < idx \<or> idx + length (p # ?cs) \<le> x"
      then show "tp_goi (write_goi (idx + 1) (ord + num p) tr' ps t') x = tp_goi t x"
        using ih[THEN conjunct2, rule_format, of x] by (auto simp: t'_def)
    qed
  qed
qed

subsection \<open>The outcome of an epoch\<close>

definition epoch_acc :: "PendingBatch5 list \<Rightarrow> nat \<Rightarrow> nat \<Rightarrow> CommitCtx \<Rightarrow> Topic \<Rightarrow> MetaAcc" where
  "epoch_acc ready base_index base_order cc t =
     fold meta_one ready (MetaAcc_init cc base_index (write_export base_order ready (write_goi base_index base_order (\<lambda>_. None) ready t)))"

lemma epoch_acc_tp:
  "\<exists>h s c n. ma_tp (epoch_acc ready bi bo cc t) =
     t\<lparr>tp_headers := h, tp_goi := tp_goi (write_goi bi bo (\<lambda>_. None) ready t), tp_export_sequence := s, tp_export_cursor := c, tp_ticks := n\<rparr>"
proof -
  let ?g = "write_goi bi bo (\<lambda>_. None) ready t"
  obtain h0 g0 where g: "?g = t\<lparr>tp_headers := h0, tp_goi := g0\<rparr>" using write_goi_frame by blast
  obtain s c h where e: "write_export bo ready ?g = ?g\<lparr>tp_export_sequence := s, tp_export_cursor := c, tp_headers := h\<rparr>"
    using write_export_frame by blast
  obtain n where "ma_tp (epoch_acc ready bi bo cc t) = (write_export bo ready ?g)\<lparr>tp_ticks := n\<rparr>"
    using meta_tp_frame[of ready "MetaAcc_init cc bi (write_export bo ready ?g)"] by (auto simp: epoch_acc_def MetaAcc_init_def)
  then have "ma_tp (epoch_acc ready bi bo cc t) = t\<lparr>tp_headers := h, tp_goi := tp_goi ?g, tp_export_sequence := s, tp_export_cursor := c, tp_ticks := n\<rparr>"
    unfolding e by (simp add: g)
  then show ?thesis by blast
qed

lemma publish_epoch_outcome:
  fixes cc :: CommitCtx and bo bi n :: nat and seen :: "int \<Rightarrow> bool" and bl :: "PendingBatch5 list" and shards :: "Level5ShardState list"
  assumes ok: "session_table_ok (tp_session_table t)" "\<forall>p\<in>set ready. guarded p \<longrightarrow> session_lookup (tp_session_table t) (batch_key p) \<noteq> None"
    and run: "\<not> tp_capacity_exhausted t"
  defines "r \<equiv> snd (publish_epoch shards bl seen ready bi bo n cc t)" and "a \<equiv> epoch_acc ready bi bo cc t"
  shows "\<not> tp_capacity_exhausted r" "tp_goi r = tp_goi (write_goi bi bo (\<lambda>_. None) ready t)"
    "tp_global_seq r = tp_global_seq t" "tp_global_batch_seq r = tp_global_batch_seq t" "tp_committed_seq r = tp_committed_seq t"
    "tp_completed_ranges r = tp_completed_ranges t @ (if n > 0 \<and> \<not> tp_stop_threads t then [(bi, bi + n)] else [])"
    "tp_per_client_ordered r = fold (\<lambda>(c, n). om_add c n) (ma_client_delta a) (tp_per_client_ordered t)"
    "oe_ordered (tp_offsets r b) = (if valid_broker b \<and> ma_seen a b then u64 (oe_ordered (tp_offsets t b) + ma_increment a b) else oe_ordered (tp_offsets t b))"
proof -
  obtain h s c k where a: "ma_tp a = t\<lparr>tp_headers := h, tp_goi := tp_goi (write_goi bi bo (\<lambda>_. None) ready t),
      tp_export_sequence := s, tp_export_cursor := c, tp_ticks := k\<rparr>"
    using epoch_acc_tp[of ready bi bo cc t] unfolding a_def by blast
  obtain cc1 t2 where tn: "write_tinode a (ma_ctx a, ma_tp a) = (cc1, t2)" by (metis surj_pair)
  have wt: "(\<exists>off. t2 = (ma_tp a)\<lparr>tp_offsets := off\<rparr>) \<and> tp_offsets t2 b = (if valid_broker b \<and> ma_seen a b then (tp_offsets (ma_tp a) b)\<lparr>
       oe_ordered := u64 (oe_ordered (tp_offsets (ma_tp a) b) + ma_increment a b), oe_ordered_offset := ma_last_offset a b\<rparr>
     else tp_offsets (ma_tp a) b)" for b
    using write_tinode_spec[of a "(ma_ctx a, ma_tp a)" b] unfolding tn snd_conv .
  then obtain off where t2: "t2 = (ma_tp a)\<lparr>tp_offsets := off\<rparr>" by blast
  note offs = conjunct2[OF wt]
  define wv where "wv = write_clients (ma_client_delta a) t2"
  obtain x y where w: "wv = t2\<lparr>tp_per_client_ordered := x, tp_per_client_ordered_epoch := y\<rparr>" using write_clients_frame unfolding wv_def by blast
  obtain okk t3 where ps: "publish_sessions (ma_sessions a) wv = (okk, t3)" by (metis surj_pair)
  obtain st where t3: "t3 = wv\<lparr>tp_session_table := st\<rparr>" using publish_sessions_frame[of "ma_sessions a" wv] ps by auto
  have tab: "tp_session_table wv = tp_session_table t" by (simp add: w t2 a)
  have "om_keys (ma_sessions a) \<subseteq> batch_key ` {p \<in> set ready. guarded p}"
    using ma_sessions_keys[of ready] unfolding a_def epoch_acc_def by (fastforce simp: MetaAcc_init_def)
  then have "fst (publish_sessions (ma_sessions a) wv)" using ok by (intro publish_sessions_ok) (auto simp: tab)
  then have okk: "okk" using ps by simp
  define t4 where "t4 = FlushAccumulatedCV (cc_cum cc1) (cc_pbr cc1) (Some (ma_seen a)) t3"
  note f4 = cv_only_simps[OF FlushAccumulatedCV_spec(1)[where t = t3 and cum = "cc_cum cc1" and pbr = "cc_pbr cc1" and touched = "Some (ma_seen a)"], folded t4_def]
  obtain contig t5 where ad: "AdvanceConsumedThroughForProcessedSlots shards bl seen None (cc_contig cc1) t4 = (contig, t5)" by (metis surj_pair)
  obtain off5 where t5: "t5 = t4\<lparr>tp_offsets := off5\<rparr>"
    using advance_frame[of shards bl seen "cc_contig cc1" t4] ad by auto
  have ord5: "oe_ordered (tp_offsets t5 b) = oe_ordered (tp_offsets t4 b)" for b
  proof -
    have "oe_ordered (tp_offsets (snd (AdvanceConsumedThroughForProcessedSlots shards bl seen None cg u)) b) = oe_ordered (tp_offsets u b)" for cg u
      using write_consumed_spec[of seen _ u b] by (simp add: AdvanceConsumedThroughForProcessedSlots_def Let_def)
    from this[of "cc_contig cc1" t4] show ?thesis by (simp only: ad snd_conv)
  qed
  have stop: "tp_stop_threads t5 = tp_stop_threads t" by (simp add: t5 f4 t3 w t2 a)
  let ?cr = "tp_completed_ranges t5 @ (if n > 0 \<and> \<not> tp_stop_threads t then [(bi, bi + n)] else [])"
  let ?t6 = "t5\<lparr>tp_completed_ranges := ?cr\<rparr>"
  have e6: "(if n > 0 then enqueue_completed bi (bi + n) t5 else t5) = ?t6" by (simp add: enqueue_completed_def stop)
  have r: "r = write_consumed seen contig ?t6"
    unfolding r_def publish_epoch_def Let_def epoch_acc_def[symmetric] a_def[symmetric] tn prod.case wv_def[symmetric] ps t4_def[symmetric] ad e6 using okk by simp
  obtain off6 where r6: "r = ?t6\<lparr>tp_offsets := off6\<rparr>" using write_consumed_spec[of seen contig ?t6] r by auto
  have ord6: "oe_ordered (tp_offsets r b) = oe_ordered (tp_offsets t5 b)" for b
    using write_consumed_spec[of seen contig ?t6 b] unfolding r by simp
  note frame = r6 t5 f4 t3 w t2 a
  show "\<not> tp_capacity_exhausted r" using run by (simp add: frame)
  show "tp_goi r = tp_goi (write_goi bi bo (\<lambda>_. None) ready t)" by (simp add: frame)
  show "tp_global_seq r = tp_global_seq t" "tp_global_batch_seq r = tp_global_batch_seq t" "tp_committed_seq r = tp_committed_seq t"
    by (simp_all add: frame)
  show "tp_completed_ranges r = tp_completed_ranges t @ (if n > 0 \<and> \<not> tp_stop_threads t then [(bi, bi + n)] else [])" by (simp add: frame)
  have "tp_per_client_ordered r = tp_per_client_ordered wv" by (simp add: r6 t5 f4 t3)
  also have "\<dots> = fold (\<lambda>(c, n). om_add c n) (ma_client_delta a) (tp_per_client_ordered t)"
    unfolding wv_def write_clients_ordered by (simp add: t2 a)
  finally show "tp_per_client_ordered r = fold (\<lambda>(c, n). om_add c n) (ma_client_delta a) (tp_per_client_ordered t)" .
  show "oe_ordered (tp_offsets r b) = (if valid_broker b \<and> ma_seen a b then u64 (oe_ordered (tp_offsets t b) + ma_increment a b) else oe_ordered (tp_offsets t b))"
    unfolding ord6 ord5 f4 using offs[of b] by (simp add: t3 w) (simp add: a)
qed

lemma guard_step_only: "guard_only t (snd (snd (spatial_guard_reject p t)))"
proof -
  obtain found table where f: "(case FindSessionEntry (tp_session_table t) (batch_key p) of
      Some i \<Rightarrow> (Some i, tp_session_table t) | None \<Rightarrow> FindOrCreateSessionEntry (tp_session_table t) (batch_key p)) = (found, table)"
    by (metis surj_pair)
  show ?thesis
    unfolding spatial_guard_reject_def Let_def f[unfolded batch_key_def]
    by (auto simp: guard_only_refl guard_only_table guard_only_reject split: option.split)
qed

lemma guard_ready_only: "guard_only t (snd (snd (guard_ready ready t)))"
proof (induction ready arbitrary: t)
  case Nil
  show ?case by (simp add: guard_only_refl)
next
  case (Cons p ps)
  obtain rej f t2 where s: "spatial_guard_reject p t = (rej, f, t2)" by (cases "spatial_guard_reject p t")
  have "guard_only t t2" using guard_step_only[of t p] s by simp
  from guard_only_trans[OF this Cons.IH[of t2]] show ?case
    using s by (cases "guard_ready ps t2") simp
qed

text \<open>What a refused commit leaves alone: everything a reader or a replica could see of it.\<close>

definition published_same :: "Topic \<Rightarrow> Topic \<Rightarrow> bool" where
  "published_same t t' \<longleftrightarrow> tp_goi t' = tp_goi t \<and> tp_cv t' = tp_cv t \<and> tp_offsets t' = tp_offsets t \<and>
     tp_per_client_ordered t' = tp_per_client_ordered t \<and> tp_completed_ranges t' = tp_completed_ranges t \<and>
     tp_committed_seq t' = tp_committed_seq t \<and> tp_export_sequence t' = tp_export_sequence t \<and>
     tp_global_seq t' = tp_global_seq t \<and> tp_global_batch_seq t' = tp_global_batch_seq t"

lemma guard_only_published: "guard_only t t' \<Longrightarrow> published_same t t' \<and> tp_capacity_exhausted t' = tp_capacity_exhausted t"
  unfolding guard_only_def published_same_def by (elim exE) simp

lemma commit_cases:
  fixes cc :: CommitCtx and seen :: "int \<Rightarrow> bool" and bl ready :: "PendingBatch5 list" and shards :: "Level5ShardState list"
  assumes run: "\<not> tp_capacity_exhausted t" and ok: "session_table_ok (tp_session_table t)"
  defines "r \<equiv> snd (CommitEpoch shards bl seen ready cc t)"
  defines "kept \<equiv> filter (\<lambda>p. \<not> guard_rejects (tp_session_table t) p) ready"
  defines "cs \<equiv> filter committed_batch kept"
  obtains (refused) "tp_capacity_exhausted r" "tp_stop_threads r" "published_same t r"
  | (idle) "\<not> tp_capacity_exhausted r" "kept = []" "tp_goi r = tp_goi t" "tp_global_seq r = tp_global_seq t"
      "tp_global_batch_seq r = tp_global_batch_seq t" "tp_completed_ranges r = tp_completed_ranges t"
  | (committed) t1 where "kept \<noteq> []" "guard_only t t1" "session_table_ok (tp_session_table t1)"
      "\<forall>p\<in>set kept. guarded p \<longrightarrow> session_lookup (tp_session_table t1) (batch_key p) \<noteq> None"
      "\<forall>p\<in>set cs. pb_from_hold p \<or> pb_hdr p \<noteq> None"
      "tp_global_seq t > UINT64_MAX \<or> tp_global_seq t + sum_list (map pb_num_msg cs) \<le> UINT64_MAX"
      "r = snd (publish_epoch shards bl seen kept (tp_global_batch_seq t) (tp_global_seq t) (length cs) cc
             (t1\<lparr>tp_global_batch_seq := tp_global_batch_seq t + length cs, tp_global_seq := tp_global_seq t + sum_list (map pb_num_msg cs)\<rparr>))"
proof -
  obtain k f t1 where g: "guard_ready ready t = (k, f, t1)" by (cases "guard_ready ready t")
  have go: "guard_only t t1" using guard_ready_only[of t ready] g by simp
  note ps = guard_only_published[OF go]
  have stop: "published_same t (StopForCapacityExhaustion t1)" "tp_capacity_exhausted (StopForCapacityExhaustion t1)"
    "tp_stop_threads (StopForCapacityExhaustion t1)"
    using ps by (simp_all add: published_same_def StopForCapacityExhaustion_def)
  show thesis
  proof (cases f)
    case True
    then have "r = StopForCapacityExhaustion t1" using run g by (simp add: r_def CommitEpoch_def)
    then show thesis using stop by (intro refused) simp_all
  next
    case False
    have gs: "k = kept" "guard_view (tp_session_table t) (tp_session_table t1)"
      "\<forall>p\<in>set ready. guarded p \<longrightarrow> session_lookup (tp_session_table t1) (batch_key p) \<noteq> None"
      using guard_ready_spec[OF ok, of ready k t1] g False by (simp_all add: kept_def)
    have gq: "tp_global_batch_seq t1 = tp_global_batch_seq t" "tp_global_seq t1 = tp_global_seq t" "tp_goi t1 = tp_goi t"
      "tp_completed_ranges t1 = tp_completed_ranges t"
      using ps by (simp_all add: published_same_def)
    show thesis
    proof (cases "kept = []")
      case True
      obtain contig t2 where ad: "AdvanceConsumedThroughForProcessedSlots shards bl seen (Some (cc_cum cc, cc_pbr cc)) (cc_contig cc) t1 = (contig, t2)"
        by (metis surj_pair)
      have "r = t2" using run g False True gs(1) ad by (simp add: r_def CommitEpoch_def)
      moreover have "\<exists>off. cv_only (t1\<lparr>tp_offsets := off\<rparr>) t2"
        using advance_cv_frame[of t1 shards bl seen "cc_cum cc" "cc_pbr cc" "cc_contig cc"] unfolding ad snd_conv .
      then obtain u off where u: "cv_only u t2" "u = t1\<lparr>tp_offsets := off\<rparr>" by blast
      ultimately show thesis using True gq run ps cv_only_simps[OF u(1)] by (intro idle) (simp_all add: u(2))
    next
      case ne: False
      show thesis
      proof (cases "count_ready kept 0 0")
        case None
        then have "r = StopForCapacityExhaustion t1" using run g False ne gs(1) by (simp add: r_def CommitEpoch_def)
        then show thesis using stop by (intro refused) simp_all
      next
        case (Some tn)
        obtain tot n where tn: "tn = (tot, n)" by (cases tn)
        have c: "tot = sum_list (map pb_num_msg cs)" "n = length cs" "\<forall>p\<in>set cs. pb_from_hold p \<or> pb_hdr p \<noteq> None"
          using count_ready_spec[of kept 0 0 tot n] Some tn by (simp_all add: cs_def)
        show thesis
        proof (cases "TryReserveCommitRanges (tp_global_batch_seq t1) (tp_global_seq t1) kGOICapacity n tot")
          case None
          then have "r = StopForCapacityExhaustion t1" using run g False ne gs(1) Some tn by (simp add: r_def CommitEpoch_def)
          then show thesis using stop by (intro refused) simp_all
        next
          case re: (Some gm)
          obtain g' m' where gm: "gm = (g', m')" by (cases gm)
          have rs: "g' = tp_global_batch_seq t + n" "m' = tp_global_seq t + tot"
            "tp_global_seq t > UINT64_MAX \<or> tp_global_seq t + tot \<le> UINT64_MAX"
            using re gm gq by (auto simp: TryReserveCommitRanges_def split: if_splits)
          have "r = snd (publish_epoch shards bl seen kept (tp_global_batch_seq t) (tp_global_seq t) n cc (t1\<lparr>tp_global_batch_seq := g', tp_global_seq := m'\<rparr>))"
            using run g False ne gs(1) Some tn re gm gq by (simp add: r_def CommitEpoch_def)
          then show thesis using ne go gs c rs by (intro committed[of t1]) (auto simp: kept_def guard_view_def)
        qed
      qed
    qed
  qed
qed

subsection \<open>Accumulated counts\<close>

definition client_share :: "nat \<Rightarrow> PendingBatch5 \<Rightarrow> nat" where
  "client_share c p = (if u32 (hm_client_id (commit_meta p)) = c then num p else 0)"

definition broker_share :: "int \<Rightarrow> PendingBatch5 \<Rightarrow> nat" where
  "broker_share b p = (if hm_broker_id (commit_meta p) = b then num p else 0)"

lemma share_le: "sum_list (map (client_share c) ps) \<le> sum_list (map num ps)" "sum_list (map (broker_share b) ps) \<le> sum_list (map num ps)"
  by (induction ps) (auto simp: client_share_def broker_share_def)

lemma meta_one_counts:
  "ma_client_delta (meta_one p a) = (if committed_batch p then om_add (u32 (hm_client_id (commit_meta p))) (num p) (ma_client_delta a) else ma_client_delta a)"
  "ma_increment (meta_one p a) b = (if committed_batch p \<and> valid_broker b \<and> hm_broker_id (commit_meta p) = b
     then u64 (ma_increment a b + num p) else ma_increment a b)"
  "ma_seen (meta_one p a) b = (ma_seen a b \<or> (committed_batch p \<and> valid_broker b \<and> hm_broker_id (commit_meta p) = b))"
  by (auto simp: meta_one_def Let_def split: prod.split)

lemma meta_client_delta:
  assumes "om_ok (ma_client_delta a)" "\<forall>c. om_get 0 (ma_client_delta a) c + sum_list (map num (filter committed_batch ps)) \<le> UINT64_MAX"
  shows "om_ok (ma_client_delta (fold meta_one ps a)) \<and>
     (\<forall>c. om_get 0 (ma_client_delta (fold meta_one ps a)) c =
        om_get 0 (ma_client_delta a) c + sum_list (map (client_share c) (filter committed_batch ps)))"
  using assms
proof (induction ps arbitrary: a)
  case (Cons p ps)
  show ?case
  proof (cases "committed_batch p")
    case False
    then show ?thesis using Cons.IH[of "meta_one p a"] Cons.prems by (simp add: meta_one_counts)
  next
    case True
    have b: "om_get 0 (ma_client_delta a) c + num p + sum_list (map num (filter committed_batch ps)) \<le> UINT64_MAX" for c
      using Cons.prems(2)[rule_format, of c] True by simp
    then have "om_get 0 (ma_client_delta a) c + num p \<le> UINT64_MAX" for c by (meson add_leD1)
    then have g: "om_get 0 (ma_client_delta (meta_one p a)) c = om_get 0 (ma_client_delta a) c + client_share c p" for c
      using True by (simp add: meta_one_counts client_share_def)
    have "client_share c p \<le> num p" for c by (simp add: client_share_def)
    then have "\<forall>c. om_get 0 (ma_client_delta (meta_one p a)) c + sum_list (map num (filter committed_batch ps)) \<le> UINT64_MAX"
      unfolding g using b by (smt (verit) add_mono_thms_linordered_semiring(1) order_refl order_trans)
    from Cons.IH[OF _ this] show ?thesis using Cons.prems(1) True unfolding g by (simp add: meta_one_counts add.assoc)
  qed
qed simp

lemma meta_increment:
  assumes "valid_broker b" "ma_increment a b + sum_list (map num (filter committed_batch ps)) \<le> UINT64_MAX"
  shows "ma_increment (fold meta_one ps a) b = ma_increment a b + sum_list (map (broker_share b) (filter committed_batch ps)) \<and>
     (ma_seen (fold meta_one ps a) b \<longleftrightarrow> ma_seen a b \<or> (\<exists>p\<in>set (filter committed_batch ps). hm_broker_id (commit_meta p) = b))"
  using assms(2)
proof (induction ps arbitrary: a)
  case (Cons p ps)
  show ?case
  proof (cases "committed_batch p")
    case False
    then show ?thesis using Cons.IH[of "meta_one p a"] Cons.prems by (simp add: meta_one_counts)
  next
    case True
    have b: "ma_increment a b + num p + sum_list (map num (filter committed_batch ps)) \<le> UINT64_MAX" using Cons.prems True by simp
    then have "ma_increment a b + num p \<le> UINT64_MAX" by linarith
    then have g: "ma_increment (meta_one p a) b = ma_increment a b + broker_share b p"
      using True assms(1) by (simp add: meta_one_counts broker_share_def)
    have "broker_share b p \<le> num p" by (simp add: broker_share_def)
    then have "ma_increment (meta_one p a) b + sum_list (map num (filter committed_batch ps)) \<le> UINT64_MAX" unfolding g using b by linarith
    from Cons.IH[OF this] show ?thesis using True assms(1) unfolding g by (auto simp: meta_one_counts)
  qed
qed simp

lemma no_share: "\<not> (\<exists>p\<in>set ps. hm_broker_id (commit_meta p) = b) \<Longrightarrow> sum_list (map (broker_share b) ps) = 0"
  by (induction ps) (auto simp: broker_share_def)

subsection \<open>Properties\<close>

abbreviation accepted :: "SessionTable option \<Rightarrow> PendingBatch5 list \<Rightarrow> PendingBatch5 list" where
  "accepted table ready \<equiv> filter committed_batch (filter (\<lambda>p. \<not> guard_rejects table p) ready)"

lemma commit_outcome:
  fixes cc :: CommitCtx and seen :: "int \<Rightarrow> bool" and bl ready :: "PendingBatch5 list" and shards :: "Level5ShardState list"
  assumes "\<not> tp_capacity_exhausted t" "session_table_ok (tp_session_table t)" "tp_global_seq t \<le> UINT64_MAX"
    "\<forall>p\<in>set ready. well_counted p"
  defines "r \<equiv> snd (CommitEpoch shards bl seen ready cc t)" and "cs \<equiv> accepted (tp_session_table t) ready"
  assumes "\<not> tp_capacity_exhausted r"
  shows "(\<forall>i<length cs. \<exists>cumulative client_seq. tp_goi r (tp_global_batch_seq t + i) =
       goi_entry_of (tp_global_batch_seq t + i) (tp_global_seq t + sum_list (map num (take i cs))) cumulative client_seq (commit_meta (cs ! i))) \<and>
     tp_global_batch_seq r = tp_global_batch_seq t + length cs \<and> tp_global_seq r = tp_global_seq t + sum_list (map num cs) \<and>
     (\<forall>x. x < tp_global_batch_seq t \<or> tp_global_batch_seq r \<le> x \<longrightarrow> tp_goi r x = tp_goi t x) \<and>
     tp_completed_ranges r = tp_completed_ranges t @
       (if cs = [] \<or> tp_stop_threads t then [] else [(tp_global_batch_seq t, tp_global_batch_seq r)]) \<and>
     tp_global_seq r \<le> UINT64_MAX"
  using assms(1,2)
proof (cases rule: commit_cases[of t shards bl seen ready cc])
  case refused
  then show ?thesis using assms(7) by (simp add: r_def)
next
  case idle
  then show ?thesis using assms(3) by (simp add: cs_def r_def)
next
  case (committed t1)
  let ?kept = "filter (\<lambda>p. \<not> guard_rejects (tp_session_table t) p) ready"
  let ?t = "t1\<lparr>tp_global_batch_seq := tp_global_batch_seq t + length cs, tp_global_seq := tp_global_seq t + sum_list (map pb_num_msg cs)\<rparr>"
  have nums: "map pb_num_msg cs = map num cs" using assms(4) by (simp add: cs_def well_counted_def)
  have g1: "tp_goi t1 = tp_goi t" "tp_completed_ranges t1 = tp_completed_ranges t" "tp_capacity_exhausted t1 = tp_capacity_exhausted t"
    using guard_only_published[OF committed(2)] by (simp_all add: published_same_def)
  have stop: "tp_stop_threads t1 = tp_stop_threads t" using committed(2) by (auto simp: guard_only_def)
  have r: "r = snd (publish_epoch shards bl seen ?kept (tp_global_batch_seq t) (tp_global_seq t) (length cs) cc ?t)"
    using committed(7) by (simp add: r_def cs_def)
  have tab: "tp_session_table ?t = tp_session_table t1" by simp
  note out = publish_epoch_outcome[of ?t ?kept shards bl seen "tp_global_batch_seq t" "tp_global_seq t" "length cs" cc, folded r, unfolded tab,
      OF committed(3,4)]
  have ne: "\<not> tp_capacity_exhausted ?t" using g1 assms(1) by simp
  have bound: "tp_global_seq t + sum_list (map num cs) \<le> UINT64_MAX"
    using committed(6)[folded cs_def] assms(3) unfolding nums by linarith
  note ws = write_goi_spec[of ?kept "tp_global_seq t" "tp_global_batch_seq t" "\<lambda>_. None" ?t, folded cs_def]
  have W: "(\<forall>i<length cs. \<exists>cumulative client_seq. tp_goi r (tp_global_batch_seq t + i) =
       goi_entry_of (tp_global_batch_seq t + i) (tp_global_seq t + sum_list (map num (take i cs))) cumulative client_seq (commit_meta (cs ! i)))"
    "\<forall>x. x < tp_global_batch_seq t \<or> tp_global_batch_seq t + length cs \<le> x \<longrightarrow> tp_goi r x = tp_goi t x"
    using ws[OF committed(5)[folded cs_def] bound] unfolding out(2)[OF ne] using g1(1) by fastforce+
  moreover have "tp_global_batch_seq r = tp_global_batch_seq t + length cs" "tp_global_seq r = tp_global_seq t + sum_list (map num cs)"
    using out(3,4)[OF ne] nums by simp_all
  moreover have "tp_completed_ranges r = tp_completed_ranges t @
      (if cs = [] \<or> tp_stop_threads t then [] else [(tp_global_batch_seq t, tp_global_batch_seq t + length cs)])"
    using out(6)[OF ne] g1(2) stop by simp
  ultimately show ?thesis using bound by simp
qed

text \<open>C4: a commit orders its batches without gaps.  The batches that get a place are exactly the
  ready ones that are neither skipped nor held and that the session table does not forbid (a fenced
  session, or a sequence below the published frontier).  They occupy consecutive GOI entries from the
  old counter, in the order given, each valid (its index published in the entry), their message
  ranges tile the total order from the old message counter to the new one, and no other GOI entry
  changes.  Exactly this GOI range is handed to the committed frontier while the threads run; a commit made
  with the stop flag set, as in the shutdown drain, hands over nothing.\<close>

theorem commit_orders_without_gaps:
  fixes cc :: CommitCtx and seen :: "int \<Rightarrow> bool" and bl ready :: "PendingBatch5 list" and shards :: "Level5ShardState list"
  assumes "\<not> tp_capacity_exhausted t" "session_table_ok (tp_session_table t)" "tp_global_seq t \<le> UINT64_MAX"
    "\<forall>p\<in>set ready. well_counted p"
  defines "r \<equiv> snd (CommitEpoch shards bl seen ready cc t)" and "cs \<equiv> accepted (tp_session_table t) ready"
  assumes "\<not> tp_capacity_exhausted r" "cs \<noteq> []"
  shows "(\<forall>i<length cs. \<exists>cumulative client_seq. tp_goi r (tp_global_batch_seq t + i) =
       goi_entry_of (tp_global_batch_seq t + i) (tp_global_seq t + sum_list (map num (take i cs))) cumulative client_seq (commit_meta (cs ! i))) \<and>
     tp_global_batch_seq r = tp_global_batch_seq t + length cs \<and> tp_global_seq r = tp_global_seq t + sum_list (map num cs) \<and>
     (\<forall>x. x < tp_global_batch_seq t \<or> tp_global_batch_seq r \<le> x \<longrightarrow> tp_goi r x = tp_goi t x) \<and>
     tp_completed_ranges r = tp_completed_ranges t @ (if tp_stop_threads t then [] else [(tp_global_batch_seq t, tp_global_batch_seq r)])"
  using commit_outcome[of t ready shards bl seen cc] assms by (simp add: r_def cs_def)


lemma commit_refusal:
  fixes cc :: CommitCtx and seen :: "int \<Rightarrow> bool" and bl ready :: "PendingBatch5 list" and shards :: "Level5ShardState list"
  assumes "\<not> tp_capacity_exhausted t" "session_table_ok (tp_session_table t)"
  defines "r \<equiv> snd (CommitEpoch shards bl seen ready cc t)"
  assumes "tp_capacity_exhausted r"
  shows "tp_stop_threads r \<and> published_same t r"
  using assms(1,2)
proof (cases rule: commit_cases[of t shards bl seen ready cc])
  case refused
  then show ?thesis by (simp add: r_def)
next
  case idle
  then show ?thesis using assms(4) by (simp add: r_def)
next
  case (committed t1)
  let ?kept = "filter (\<lambda>p. \<not> guard_rejects (tp_session_table t) p) ready"
  have "\<not> tp_capacity_exhausted t1" using guard_only_published[OF committed(2)] assms(1) by simp
  then have "\<not> tp_capacity_exhausted r"
    unfolding r_def committed(7) using committed(3,4) by (intro publish_epoch_outcome(1)) simp_all
  then show ?thesis using assms(4) by simp
qed

text \<open>C13: a commit is all or nothing.  When it latches the capacity failure (no room in the session
  table, a message count that overflows, a missing header, no room in the GOI or in the message
  order), the topic is stopped and nothing was published: GOI, completion vector, offsets, client
  counts, committed ranges, export sequence and both counters are as before; in particular, once the
  ranges are reserved no later step fails.\<close>

theorem commit_refusal_publishes_nothing:
  fixes cc :: CommitCtx and seen :: "int \<Rightarrow> bool" and bl ready :: "PendingBatch5 list" and shards :: "Level5ShardState list"
  assumes "\<not> tp_capacity_exhausted t" "session_table_ok (tp_session_table t)"
  defines "r \<equiv> snd (CommitEpoch shards bl seen ready cc t)"
  assumes "tp_capacity_exhausted r"
  shows "tp_stop_threads r \<and> published_same t r"
  using commit_refusal[OF assms(1,2)] assms(4) by (simp add: r_def)

text \<open>C36: the counts a commit publishes are those of the batches it ordered: each client's ordered
  count grows by the messages of its accepted batches, and each broker's ordered count by those of
  the batches it owns.\<close>

theorem commit_counts_exact:
  fixes cc :: CommitCtx and seen :: "int \<Rightarrow> bool" and bl ready :: "PendingBatch5 list" and shards :: "Level5ShardState list"
  assumes "\<not> tp_capacity_exhausted t" "session_table_ok (tp_session_table t)"
  defines "r \<equiv> snd (CommitEpoch shards bl seen ready cc t)" and "cs \<equiv> accepted (tp_session_table t) ready"
  assumes "\<not> tp_capacity_exhausted r" "cs \<noteq> []" "valid_broker b"
    "\<forall>c. GetClientOrdered t c + sum_list (map num cs) \<le> UINT64_MAX" "oe_ordered (tp_offsets t b) + sum_list (map num cs) \<le> UINT64_MAX"
  shows "GetClientOrdered r c = GetClientOrdered t c + sum_list (map (client_share c) cs) \<and>
     oe_ordered (tp_offsets r b) = oe_ordered (tp_offsets t b) + sum_list (map (broker_share b) cs)"
  using assms(1,2)
proof (cases rule: commit_cases[of t shards bl seen ready cc])
  case refused
  then show ?thesis using assms(5) by (simp add: r_def)
next
  case idle
  then show ?thesis using assms(6) by (simp add: cs_def)
next
  case (committed t1)
  let ?kept = "filter (\<lambda>p. \<not> guard_rejects (tp_session_table t) p) ready"
  let ?t = "t1\<lparr>tp_global_batch_seq := tp_global_batch_seq t + length cs, tp_global_seq := tp_global_seq t + sum_list (map pb_num_msg cs)\<rparr>"
  have g1: "tp_per_client_ordered t1 = tp_per_client_ordered t" "tp_offsets t1 = tp_offsets t" "tp_capacity_exhausted t1 = tp_capacity_exhausted t"
    using guard_only_published[OF committed(2)] by (simp_all add: published_same_def)
  have stop: "tp_stop_threads t1 = tp_stop_threads t" using committed(2) by (auto simp: guard_only_def)
  have r: "r = snd (publish_epoch shards bl seen ?kept (tp_global_batch_seq t) (tp_global_seq t) (length cs) cc ?t)"
    using committed(7) by (simp add: r_def cs_def)
  have tab: "tp_session_table ?t = tp_session_table t1" by simp
  note out = publish_epoch_outcome[of ?t ?kept shards bl seen "tp_global_batch_seq t" "tp_global_seq t" "length cs" cc, folded r, unfolded tab,
      OF committed(3,4)]
  have ne: "\<not> tp_capacity_exhausted ?t" using g1 assms(1) by simp
  let ?a = "epoch_acc ?kept (tp_global_batch_seq t) (tp_global_seq t) cc ?t"
  have go: "GetClientOrdered u c = om_get 0 (tp_per_client_ordered u) c" for u c by (simp add: GetClientOrdered_def om_get_def)
  have tot: "sum_list (map num cs) \<le> UINT64_MAX" using assms(9) by simp
  obtain a0 where a: "?a = fold meta_one ?kept a0" and a0: "ma_client_delta a0 = []" "ma_increment a0 b = 0" "\<not> ma_seen a0 b"
    by (rule that[of "MetaAcc_init cc (tp_global_batch_seq t) (write_export (tp_global_seq t) ?kept
          (write_goi (tp_global_batch_seq t) (tp_global_seq t) (\<lambda>_. None) ?kept ?t))"]) (simp_all add: epoch_acc_def MetaAcc_init_def)
  have d: "om_ok (ma_client_delta ?a)" "\<And>c. om_get 0 (ma_client_delta ?a) c = sum_list (map (client_share c) cs)"
    using meta_client_delta[of a0 ?kept, folded cs_def] tot unfolding a by (simp_all add: a0 om_get_def)
  have i: "ma_increment ?a b = sum_list (map (broker_share b) cs)" "ma_seen ?a b \<longleftrightarrow> (\<exists>p\<in>set cs. hm_broker_id (commit_meta p) = b)"
    using meta_increment[OF assms(7), of a0 ?kept, folded cs_def] tot unfolding a by (simp_all add: a0)
  have le: "\<forall>c. om_get 0 (tp_per_client_ordered t) c + om_get 0 (ma_client_delta ?a) c \<le> UINT64_MAX"
    unfolding d(2) using assms(8) share_le(1)[of _ cs] unfolding go by (meson add_left_mono order_trans)
  have "tp_per_client_ordered r = fold (\<lambda>(c, n). om_add c n) (ma_client_delta ?a) (tp_per_client_ordered t)"
    using out(7)[OF ne] g1(1) by simp
  then have "GetClientOrdered r c = GetClientOrdered t c + sum_list (map (client_share c) cs)"
    unfolding go using fold_om_add[OF d(1) le] d(2) by simp
  moreover have "oe_ordered (tp_offsets t b) + sum_list (map (broker_share b) cs) \<le> UINT64_MAX"
    using assms(9) share_le(2)[of b cs] by linarith
  then have "oe_ordered (tp_offsets r b) = oe_ordered (tp_offsets t b) + sum_list (map (broker_share b) cs)"
    using out(8)[OF ne, of b] assms(7) no_share[of cs b] g1(2) by (simp add: i)
  ultimately show ?thesis by blast
qed


subsection \<open>A sample commit\<close>

text \<open>Two fresh batches of a client without session and one the pipeline skipped.\<close>

definition sample_ready :: "PendingBatch5 list" where
  "sample_ready = map (\<lambda>n. (sample_batch n)\<lparr>pb_session_epoch := 0, pb_hdr := Some (128 * n), pb_skipped := (n = 1)\<rparr>) [0, 1, 2]"

definition sample_ctx :: CommitCtx where
  "sample_ctx = \<lparr>cc_contig = (\<lambda>_. 0), cc_cum = (\<lambda>_. 0), cc_pbr = (\<lambda>_. 0), cc_ts_pos = 0, cc_ts = (\<lambda>_. (0, 0)),
     cc_committed_batches = (\<lambda>_. 0), cc_committed_msgs = (\<lambda>_. 0)\<rparr>"

abbreviation sample_commit :: "Topic \<Rightarrow> Topic" where
  "sample_commit t \<equiv> snd (CommitEpoch [] sample_ready (\<lambda>_. False) sample_ready sample_ctx t)"

lemmas eval_commit = sample_ready_def commit_meta_def committed_batch_def spatial_guard_reject_def guarded_def guard_rejects_def
  count_ready.simps TryReserveCommitRanges_def kGOICapacity_def eval5

lemma sample_ready_facts:
  "guard_ready sample_ready t = (sample_ready, False, t)" "count_ready sample_ready 0 0 = Some (20, 2)" "sample_ready \<noteq> []"
  "\<forall>p\<in>set sample_ready. \<not> guarded p \<and> well_counted p" "map num (accepted table sample_ready) = [10, 10]"
  "map hm_broker_id (map commit_meta (accepted table sample_ready)) = [0, 0]"
  "map hm_client_id (map commit_meta (accepted table sample_ready)) = [7, 7]"
  by (simp_all add: eval_commit well_counted_def Let_def cong: if_weak_cong let_weak_cong)

lemma sample_topic_starts: "\<not> tp_capacity_exhausted sample_topic" "session_table_ok (tp_session_table sample_topic)"
  "tp_global_seq sample_topic \<le> UINT64_MAX" "tp_global_batch_seq sample_topic = 0" "tp_global_seq sample_topic = 0"
  "GetClientOrdered sample_topic c = 0" "oe_ordered (tp_offsets sample_topic b) = 0"
  by (simp_all add: sample_topic_def session_table_ok_empty GetClientOrdered_def)

lemma sample_commits: "\<not> tp_capacity_exhausted (sample_commit sample_topic)"
proof -
  have "CommitEpoch [] sample_ready (\<lambda>_. False) sample_ready sample_ctx sample_topic =
     publish_epoch [] sample_ready (\<lambda>_. False) sample_ready 0 0 2 sample_ctx (sample_topic\<lparr>tp_global_batch_seq := 2, tp_global_seq := 20\<rparr>)"
    by (simp add: CommitEpoch_def sample_ready_facts sample_topic_starts TryReserveCommitRanges_def kGOICapacity_def UINT64_MAX_def flip: numeral_2_eq_2)
  then show ?thesis
    using sample_ready_facts(4) by (simp, intro publish_epoch_outcome(1)) (auto simp: sample_topic_def session_table_ok_empty)
qed

lemma sample_accepted_some: "accepted table sample_ready \<noteq> []" "length (accepted table sample_ready) = 2"
  using sample_ready_facts(5)[of table] by (auto dest: arg_cong[where f = length])

lemma sample_shares:
  "sum_list (map (client_share 7) (accepted table sample_ready)) = 20" "sum_list (map (broker_share 0) (accepted table sample_ready)) = 20"
  by (simp_all add: client_share_def broker_share_def eval_commit Let_def cong: if_weak_cong let_weak_cong)

lemma commit_orders_without_gaps_witness:
  "tp_global_batch_seq (sample_commit sample_topic) = 2 \<and> tp_global_seq (sample_commit sample_topic) = 20 \<and>
   tp_completed_ranges (sample_commit sample_topic) = [(0, 2)]"
  using commit_orders_without_gaps[OF sample_topic_starts(1-3) _ sample_commits sample_accepted_some(1)] sample_ready_facts(4)
  by (simp only: sample_topic_starts sample_accepted_some(2) sample_ready_facts(5)) (simp add: sample_topic_def)

lemma commit_refusal_publishes_nothing_witness:
  "tp_stop_threads (sample_commit (sample_topic\<lparr>tp_global_batch_seq := kGOICapacity\<rparr>)) \<and>
   published_same (sample_topic\<lparr>tp_global_batch_seq := kGOICapacity\<rparr>) (sample_commit (sample_topic\<lparr>tp_global_batch_seq := kGOICapacity\<rparr>))"
  by (rule commit_refusal_publishes_nothing)
    (simp_all add: sample_topic_starts CommitEpoch_def sample_ready_facts TryReserveCommitRanges_def StopForCapacityExhaustion_def)

lemma commit_counts_exact_witness:
  "GetClientOrdered (sample_commit sample_topic) 7 = 20 \<and> oe_ordered (tp_offsets (sample_commit sample_topic) 0) = 20"
  using commit_counts_exact[OF sample_topic_starts(1,2) sample_commits sample_accepted_some(1), of 0 7]
  by (simp add: sample_topic_starts sample_ready_facts(5) sample_shares valid_broker_def NUM_MAX_BROKERS_def UINT64_MAX_def del: filter_filter)


end
