(* ===== verification/Level5Frame.thy ===== *)
theory Level5Frame
  imports CommitProps
begin

text \<open>
  What a pass of the classifier leaves alone: the global order index, both order counters and the
  completed ranges are written by commits only, and the session table stays well formed.
\<close>

definition keeps_log :: "Topic \<Rightarrow> Topic \<Rightarrow> bool" where
  "keeps_log t t' \<longleftrightarrow> tp_goi t' = tp_goi t \<and> tp_global_seq t' = tp_global_seq t \<and> tp_global_batch_seq t' = tp_global_batch_seq t \<and>
     tp_completed_ranges t' = tp_completed_ranges t \<and> tp_order t' = tp_order t \<and> tp_bypass_session_fifo t' = tp_bypass_session_fifo t \<and>
     (tp_capacity_exhausted t \<longrightarrow> tp_capacity_exhausted t') \<and>
     (\<not> tp_capacity_exhausted t' \<and> session_table_ok (tp_session_table t) \<longrightarrow> session_table_ok (tp_session_table t'))"

lemma keeps_log_refl [simp, intro]: "keeps_log t t"
  by (simp add: keeps_log_def)

lemma keeps_log_trans: "keeps_log t t' \<Longrightarrow> keeps_log t' t'' \<Longrightarrow> keeps_log t t''"
  unfolding keeps_log_def by (elim conjE, intro conjI) auto

abbreviation keeps :: "L5 \<Rightarrow> L5 \<Rightarrow> bool" where "keeps c c' \<equiv> keeps_log (lx_tp c) (lx_tp c')"

lemma keeps_trans: "keeps c c' \<Longrightarrow> keeps c' c'' \<Longrightarrow> keeps c c''"
  by (rule keeps_log_trans)

lemma keeps_same: "lx_tp c' = lx_tp c \<Longrightarrow> keeps c c'"
  by simp

lemma keeps_fold: "(\<And>x c. x \<in> set xs \<Longrightarrow> keeps c (f x c)) \<Longrightarrow> keeps c (fold f xs c)"
proof (induction xs arbitrary: c)
  case (Cons x xs)
  have "keeps c (f x c)" "keeps (f x c) (fold f xs (f x c))" using Cons by auto
  then show ?case by (auto intro: keeps_trans)
qed simp

lemma keeps_log_fold: "(\<And>x t. keeps_log t (f x t)) \<Longrightarrow> keeps_log t (fold f xs t)"
proof (induction xs arbitrary: t)
  case (Cons x xs)
  then show ?case using keeps_log_trans[of t "f x t"] by simp
qed simp

subsection \<open>Functions that leave the topic alone\<close>

lemma pressure_tp [simp]: "lx_tp (upd_pressure cid f c) = lx_tp c" "lx_tp (record_hold_insert cid m c) = lx_tp c"
  "lx_tp (record_expiry cid c) = lx_tp c" "lx_tp (record_forced_skip cid c) = lx_tp c" "lx_tp (record_late_drop cid c) = lx_tp c"
  by (simp_all add: upd_pressure_def record_hold_insert_def record_expiry_def record_forced_skip_def record_late_drop_def)

lemma accumulate_tp [simp]: "lx_tp (accumulate_logical_only b s n p c) = lx_tp c"
  by (simp add: accumulate_logical_only_def Let_def)

lemma check_tp: "CheckAndInsertBatchId i c = (d, c') \<Longrightarrow> lx_tp c' = lx_tp c"
  by (auto simp: CheckAndInsertBatchId_def split: prod.splits)

lemma terminalize_tp [simp]: "lx_tp (terminalize_already_emitted a b d e f g c) = lx_tp c" "lx_tp (terminalize_pending p c) = lx_tp c"
  "lx_tp (terminalize_held he c) = lx_tp c"
  by (simp_all add: terminalize_already_emitted_def terminalize_pending_def terminalize_held_def Let_def)
    (metis (no_types, opaque_lifting) accumulate_tp check_tp pressure_tp(5) prod.collapse)+

lemma prepare_tp [simp]: "lx_tp (prepare_stream key skey epoch c) = lx_tp c"
  by (simp add: prepare_stream_def)

lemma add_expired_tp [simp]: "lx_tp (add_expired key n c) = lx_tp c"
  by (simp add: add_expired_def)

lemma sweep_tp [simp]: "lx_tp (sweep_key now lease key c) = lx_tp c"
  by (simp add: sweep_key_def Let_def split: option.splits)

subsection \<open>Functions on the topic\<close>

lemma keeps_log_now: "keeps_log t (snd (SteadyNowNs t))" "SteadyNowNs t = (now, t') \<Longrightarrow> keeps_log t t'"
  by (auto simp: SteadyNowNs_def keeps_log_def)

lemma keeps_log_retire: "keeps_log t (RetireOrder5HeldSlotAndAdvance hdr b slot t)"
  by (auto simp: keeps_log_def RetireOrder5HeldSlotAndAdvance_def InvalidateOrder5HeldSlot_def Let_def split: option.splits)

lemma keeps_log_hold_size: "keeps_log t (t\<lparr>tp_total_hold_size := n\<rparr>)" "keeps_log t (t\<lparr>tp_fifo_violations := n\<rparr>)"
  "keeps_log t (t\<lparr>tp_hold_timeout_skips := n\<rparr>)"
  "keeps_log t (t\<lparr>tp_per_client_ordered := x, tp_per_client_ordered_epoch := y\<rparr>)"
  by (simp_all add: keeps_log_def)

lemma keeps_log_stop: "keeps_log t (StopForCapacityExhaustion (t\<lparr>tp_session_table := x\<rparr>))"
  by (simp add: keeps_log_def StopForCapacityExhaustion_def)

lemma keeps_log_table: "(session_table_ok (tp_session_table t) \<Longrightarrow> session_table_ok x) \<Longrightarrow> keeps_log t (t\<lparr>tp_session_table := x\<rparr>)"
  by (simp add: keeps_log_def)

lemma keeps_log_notify: "keeps_log t (notify_fence key st ce t)"
  by (auto simp: keeps_log_def notify_fence_def CurrentControlEpoch_def SteadyNowNs_def PublishSessionFenceNotification_def
      Let_def split: prod.splits)

lemma keeps_drop_hold: "keeps c (drop_hold_count c)"
  by (simp add: drop_hold_count_def keeps_log_hold_size)

lemma keeps_retire_held: "keeps c (retire_held he c)"
  by (simp add: retire_held_def keeps_log_retire)

lemma keeps_fifo_violation: "keeps c (count_fifo_violation c)"
  by (simp add: count_fifo_violation_def keeps_log_hold_size)

lemma keeps_purge: "keeps c (purge_fenced_session key c)"
proof (cases "om_find (sh_hold (lx_sh c)) key")
  case None
  then show ?thesis by (simp add: purge_fenced_session_def)
next
  case (Some held)
  let ?t = "fold (\<lambda>(b, slot, hdr). RetireOrder5HeldSlotAndAdvance hdr b slot) (retire_list (lx_tp c) held) (lx_tp c)"
  have "keeps_log (lx_tp c) ?t" by (rule keeps_log_fold) (auto simp: keeps_log_retire split: prod.splits)
  then show ?thesis using Some by (auto simp: purge_fenced_session_def Let_def intro: keeps_log_trans keeps_log_hold_size)
qed

lemma keeps_record_fence: "keeps c (record_fence key c)"
proof -
  let ?st = "get_state key c"
  obtain r table where f: "FindOrCreateSessionEntry (tp_session_table (lx_tp c)) key = (r, table)" by fastforce
  show ?thesis
  proof (cases "\<not> true_client_chain c \<or> \<not> CanFenceSessionEpoch (session_epoch ?st) \<or> r = None \<or> table = None")
    case True
    then show ?thesis using f by (auto simp: record_fence_def Let_def keeps_log_stop split: option.splits)
  next
    case False
    then obtain i tbl where r: "r = Some i" "table = Some tbl" by (cases r; cases table) auto
    define st1 where "st1 = (fence ?st)\<lparr>committed_hwm := se_committed_hwm (tbl i)\<rparr>"
    define c2 where "c2 = put_state key st1 (upd_tp (\<lambda>t. t\<lparr>tp_session_table := Some tbl\<rparr>) c)"
    define snap where "snap = \<lparr>sp_session_epoch = session_epoch st1, sp_expected_seq = se_expected_seq (tbl i),
       sp_committed_hwm = committed_hwm st1, sp_highest_sequenced = highest_sequenced st1, sp_fenced = True\<rparr>"
    have k2: "keeps c c2" using create_lookup[of "tp_session_table (lx_tp c)" key i "Some tbl"] f r by (auto simp: c2_def intro: keeps_log_table)
    obtain b tbl' where p: "PublishSessionEntry (Some tbl) key snap = (b, tbl')" by fastforce
    show ?thesis
    proof (cases b)
      case fb: False
      then have "record_fence key c = upd_tp (\<lambda>t. StopForCapacityExhaustion (t\<lparr>tp_session_table := tbl'\<rparr>)) c2"
        using False f r p by (simp add: record_fence_def Let_def st1_def[symmetric] snap_def[symmetric] c2_def[symmetric])
      then show ?thesis using keeps_log_trans[OF k2 keeps_log_stop] by simp
    next
      case True
      define c3 where "c3 = upd_tp (\<lambda>t. t\<lparr>tp_session_table := tbl'\<rparr>) c2"
      have "session_table_ok (Some tbl) \<Longrightarrow> session_table_ok tbl'" using publish_keeps[of "Some tbl" key snap tbl'] p True by simp
      then have "keeps c2 c3" by (auto simp: c3_def c2_def keeps_log_def)
      then have k3: "keeps c c3" by (rule keeps_trans[OF k2])
      define c4 where "c4 = (if \<not> fenced ?st then upd_tp (notify_fence key st1 (se_expected_seq (tbl i))) c3 else c3)"
      have "keeps c3 c4" using keeps_log_notify by (simp add: c4_def)
      then have k4: "keeps c c4" by (rule keeps_trans[OF k3])
      have "record_fence key c = purge_fenced_session key c4"
        using False f r p True by (simp add: record_fence_def Let_def st1_def[symmetric] snap_def[symmetric] c2_def[symmetric] c3_def[symmetric] c4_def)
      then show ?thesis using keeps_trans[OF k4 keeps_purge] by simp
    qed
  qed
qed

subsection \<open>The pass\<close>

lemma keeps_emit_if_new: "keeps c (emit_if_new key p c)"
  by (auto simp: emit_if_new_def split: prod.splits dest: check_tp)

lemma keeps_classify_ahead: "keeps c (classify_ahead key tcc p c)"
proof -
  define c1 where "c1 = (if tcc then (case SteadyNowNs (lx_tp c) of
      (now, t) \<Rightarrow> put_state key (note_gap (get_state key c) now) (upd_tp (\<lambda>_. t) c)) else c)"
  have k1: "keeps c c1" by (auto simp: c1_def intro: keeps_log_now split: prod.splits)
  obtain now t where n: "SteadyNowNs (lx_tp c1) = (now, t)" by fastforce
  then have t: "keeps_log (lx_tp c1) (t\<lparr>tp_total_hold_size := x\<rparr>)" for x
    using keeps_log_trans[OF keeps_log_now(2)[OF n] keeps_log_hold_size(1)] by blast
  have "keeps c1 (classify_ahead key tcc p c)"
    unfolding classify_ahead_def c1_def[symmetric] Let_def using n t by simp
  then show ?thesis using keeps_trans[OF k1] by blast
qed

lemma keeps_classify_one: "keeps c (classify_one key tcc p c)"
proof -
  have e: "keeps c (emit_if_new key p (put_state key st c))" for st using keeps_emit_if_new[of "put_state key st c"] by simp
  have v: "keeps_log (lx_tp c) (t\<lparr>tp_fifo_violations := n\<rparr>)" if "t = lx_tp c" for t n using keeps_log_hold_size(2) that by simp
  show ?thesis
    unfolding classify_one_def Let_def
    by (simp add: e keeps_classify_ahead count_fifo_violation_def split: prod.splits) (auto dest!: check_tp intro: v)
qed

lemma keeps_classify_stream: "keeps c (classify_stream key skey epoch ps c)"
  using keeps_fold[of ps "classify_one key (true_client_chain c)" "prepare_stream key skey epoch c"] keeps_classify_one
  by (simp add: classify_stream_def)

lemma keeps_classify_group: "keeps c (classify_group g c)"
  by (auto simp: classify_group_def Let_def intro: keeps_fold keeps_classify_stream)

lemma keeps_paths: "keeps c (fast_path l5 c)" "keeps c (general_path l5 c)"
  by (auto simp: fast_path_def general_path_def Let_def intro!: keeps_fold keeps_classify_stream keeps_classify_group)

lemma keeps_process_skip: "keeps c (process_skip p c)"
proof -
  have "keeps c (record_fence key (put_state key st c))" for key st using keeps_record_fence[of "put_state key st c"] by simp
  then show ?thesis by (simp add: process_skip_def Let_def)
qed

lemma keeps_drain_entry: "keeps c (drain_entry second key he c)"
proof -
  have r: "keeps c (retire_held he c')" if "lx_tp c' = lx_tp c" for c' using keeps_retire_held[of c' he] that by simp
  have v: "keeps c (count_fifo_violation c')" if "lx_tp c' = lx_tp c" for c' using keeps_fifo_violation[of c'] that by simp
  have d: "keeps c (drop_hold_count c')" if "keeps c c'" for c' by (rule keeps_trans[OF that keeps_drop_hold])
  show ?thesis
    unfolding drain_entry_def Let_def
    by (auto intro!: d r v split: prod.splits dest!: check_tp)
qed

lemma keeps_drain_loop: "drain_loop second key cmap c = (cmap', c') \<Longrightarrow> keeps c c'"
proof (induction second key cmap c rule: drain_loop.induct)
  case (1 second key cmap c)
  then show ?case
    by (cases "om_find cmap (next_expected (get_state key c))")
      (auto simp: drain_loop.simps[of second key cmap c] intro: keeps_trans[OF keeps_drain_entry])
qed

lemma keeps_drain_key: "keeps c (drain_key second key c)"
  by (auto simp: drain_key_def Let_def split: option.splits prod.splits dest!: keeps_drain_loop)

lemma keeps_drains: "keeps c (first_drain c)" "keeps c (second_drain c)"
  by (auto simp: first_drain_def second_drain_def drain_all_def intro: keeps_fold keeps_drain_key)

lemma keeps_expire_key: "keeps c (expire_key km c)"
proof -
  let ?c = "record_expiry (client_of_key (fst km)) (upd_tp (\<lambda>t. t\<lparr>tp_hold_timeout_skips := u64 (tp_hold_timeout_skips t + 1)\<rparr>)
     (put_state (fst km) ((get_state (fst km) c)\<lparr>last_epoch := tp_current_epoch_for_hold (lx_tp c)\<rparr>) c))"
  have "keeps c ?c" by (simp add: keeps_log_hold_size)
  then have "keeps c (record_fence (fst km) ?c)" by (rule keeps_trans[OF _ keeps_record_fence])
  then show ?thesis by (simp add: expire_key_def Let_def)
qed

lemma keeps_expiry_sweep: "keeps c (expiry_sweep c)"
proof -
  obtain now t where n: "SteadyNowNs (lx_tp c) = (now, t)" by fastforce
  define c0 where "c0 = upd_sh (\<lambda>sh. sh\<lparr>sh_expired_keys := []\<rparr>) (upd_tp (\<lambda>_. t) c)"
  have k: "keeps c c0" using keeps_log_now(2)[OF n] by (simp add: c0_def)
  have f: "keeps c0 (fold (sweep_key now l) ks c0)" for l ks by (rule keeps_fold) simp
  have e: "keeps x (fold expire_key es x)" for es x by (rule keeps_fold) (rule keeps_expire_key)
  show ?thesis unfolding expiry_sweep_def n prod.case Let_def c0_def[symmetric] by (rule keeps_trans[OF keeps_trans[OF k f] e])
qed

lemma keeps_credit: "keeps c (credit_terminalized c)"
  unfolding credit_terminalized_def lx_upd by (rule keeps_log_fold) (auto simp: keeps_log_hold_size split: prod.splits)

lemma keeps_gc: "keeps c (ClientGc c)"
proof -
  have "keeps c (gc_evict k c)" for k c by (simp add: gc_evict_def Let_def keeps_log_hold_size)
  then show ?thesis by (auto simp: ClientGc_def Let_def intro: keeps_fold)
qed

lemma begin_pass_tp: "begin_shard_pass l5 c = (l, c') \<Longrightarrow> lx_tp c' = lx_tp c"
  by (auto simp: begin_shard_pass_def clear_backpressured_def Let_def)

lemma ProcessLevel5BatchesShard_keeps: "keeps_log t (lx_tp (ProcessLevel5BatchesShard sh t level5 ready))"
proof -
  obtain l5 c where b: "begin_shard_pass level5 \<lparr>lx_sh = sh, lx_tp = t, lx_ready = ready, lx_delta = []\<rparr> = (l5, c)" by fastforce
  then have c: "lx_tp c = t" by (auto dest: begin_pass_tp)
  define c1 where "c1 = fold process_skip (filter pb_skipped l5) c"
  define rest where "rest = filter (\<lambda>p. \<not> pb_skipped p) l5"
  have k1: "keeps c c1" unfolding c1_def by (rule keeps_fold) (rule keeps_process_skip)
  have fast: "keeps c1 (ClientGc (fast_path rest c1))" by (rule keeps_trans[OF keeps_paths(1) keeps_gc])
  define c5 where "c5 = second_drain (expiry_sweep (first_drain (general_path rest c1)))"
  have k5: "keeps c1 c5" unfolding c5_def
    by (rule keeps_trans[OF keeps_trans[OF keeps_trans[OF keeps_paths(2) keeps_drains(1)] keeps_expiry_sweep] keeps_drains(2)])
  have slow: "keeps c1 (ClientGc (credit_terminalized c5))" by (rule keeps_trans[OF keeps_trans[OF k5 keeps_credit] keeps_gc])
  have "keeps c1 (ProcessLevel5BatchesShard sh t level5 ready)"
    unfolding ProcessLevel5BatchesShard_def b prod.case Let_def c1_def[symmetric] rest_def[symmetric] c5_def[symmetric] using fast k5 slow by simp
  then show ?thesis using keeps_trans[OF k1] c by simp
qed

lemma process_shards_keeps: "process_shards n i l5 shs t = (shs', t', r) \<Longrightarrow> keeps_log t t'"
proof (induction shs arbitrary: i t shs' t' r)
  case (Cons sh shs)
  let ?r = "ProcessLevel5BatchesShard sh t (filter (\<lambda>p. pb_client_id p mod n = i) l5) []"
  obtain s2 t2 r2 where p: "process_shards n (i + 1) l5 shs (lx_tp ?r) = (s2, t2, r2)" by (metis surj_pair)
  have "t' = t2" using Cons.prems p by (simp add: Let_def)
  then show ?case using keeps_log_trans[OF ProcessLevel5BatchesShard_keeps Cons.IH[OF p]] by simp
qed simp

lemma ProcessLevel5Batches_keeps:
  assumes "ProcessLevel5Batches shards t level5 ready = Some (shards', t', r)"
  shows "keeps_log t t'"
proof -
  obtain s2 t2 r2 where p: "process_shards (length shards) 0 level5 shards t = (s2, t2, r2)" by (metis surj_pair)
  have "t' = t \<or> (\<exists>sh. t' = lx_tp (ProcessLevel5BatchesShard sh t level5 ready)) \<or> t' = t2"
    using assms p by (auto simp: ProcessLevel5Batches_def Let_def simp del: process_shards.simps split: if_splits list.splits)
  then show ?thesis using ProcessLevel5BatchesShard_keeps process_shards_keeps[OF p] by auto
qed

end
