(* ===== verification/Level5Types.thy ===== *)
theory Level5Types
  imports Level5Frame
begin

text \<open>
  The typing of the batches that flow through the classifier: what a scanner delivers, what the hold buffer and the deferred list
  store, and what reaches the commit stage.  Every function of a pass preserves it, for true client
  chains and for legacy streams alike, so a commit never meets a batch without a header or with
  metadata that disagrees with the batch.
\<close>

text \<open>A batch as a scanner builds it: a header unless it is a skip marker, fields within their widths.\<close>

definition fields_in_width :: "PendingBatch5 \<Rightarrow> bool" where
  "fields_in_width p \<longleftrightarrow> pb_client_id p < 2 ^ 64 \<and> pb_num_msg p < 2 ^ 32 \<and> pb_batch_seq p < 2 ^ 64"

definition typed_batch :: "PendingBatch5 \<Rightarrow> bool" where
  "typed_batch p \<longleftrightarrow> \<not> pb_from_hold p \<and> (pb_skipped p \<or> pb_hdr p \<noteq> None) \<and> fields_in_width p"

definition typed_entry :: "nat \<Rightarrow> HoldEntry5 \<Rightarrow> bool" where
  "typed_entry s he \<longleftrightarrow> pb_batch_seq (he_batch he) = s \<and> typed_batch (he_batch he) \<and> he_meta he = hold_meta_of (he_batch he)"

text \<open>A batch as the commit stage expects it: its metadata is that of the batch, and it has a
  header unless it comes from the hold buffer.\<close>

definition typed_ready :: "PendingBatch5 \<Rightarrow> bool" where
  "typed_ready p \<longleftrightarrow> commit_meta p = hold_meta_of p \<and>
     (committed_batch p \<longrightarrow> (pb_from_hold p \<or> pb_hdr p \<noteq> None) \<and> fields_in_width p)"

definition typed_map :: "(nat, HoldEntry5) omap \<Rightarrow> bool" where
  "typed_map cmap \<longleftrightarrow> (\<forall>s he. om_find cmap s = Some he \<longrightarrow> typed_entry s he)"

definition typed_shard :: "Level5ShardState \<Rightarrow> bool" where
  "typed_shard sh \<longleftrightarrow> (\<forall>k cmap. om_find (sh_hold sh) k = Some cmap \<longrightarrow> typed_map cmap) \<and> list_all typed_batch (sh_deferred sh)"

definition typed :: "L5 \<Rightarrow> bool" where
  "typed c \<longleftrightarrow> typed_shard (lx_sh c) \<and> list_all typed_ready (lx_ready c)"

lemma typed_shard_init: "typed_shard Level5ShardState_init"
  by (simp add: typed_shard_def Level5ShardState_init_def)

lemma typed_map_Nil [simp]: "typed_map []"
  by (simp add: typed_map_def)

lemma typed_map_put: "typed_map m \<Longrightarrow> typed_entry s he \<Longrightarrow> typed_map (om_put s he m)"
  by (simp add: typed_map_def)

lemma typed_map_erase: "typed_map m \<Longrightarrow> typed_map (om_erase s m)"
  by (simp add: typed_map_def)

lemma typed_ready_batch: "typed_batch p \<Longrightarrow> typed_ready p"
  by (auto simp: typed_batch_def typed_ready_def commit_meta_def committed_batch_def)

lemma typed_ready_held: "typed_entry s he \<Longrightarrow> typed_ready (held_emission he)"
  by (auto simp: typed_entry_def typed_batch_def typed_ready_def commit_meta_def held_emission_def hold_meta_of_def fields_in_width_def)

lemma typed_ready_marker: "typed_ready (held_marker p)"
  by (simp add: typed_ready_def committed_batch_def held_marker_def commit_meta_def PendingBatch5_init_def)

subsection \<open>Functions that leave buffers and output alone\<close>

definition view :: "L5 \<Rightarrow> (64 word, (nat, HoldEntry5) omap) omap \<times> PendingBatch5 list \<times> PendingBatch5 list" where
  "view c = (sh_hold (lx_sh c), sh_deferred (lx_sh c), lx_ready c)"

lemma typed_by_view: "view c' = view c \<Longrightarrow> typed c \<Longrightarrow> typed c'"
  by (simp add: view_def typed_def typed_shard_def)

lemma view_upd_tp [simp]: "view (upd_tp f c) = view c"
  by (simp add: view_def upd_tp_def)

lemma view_put [simp]: "view (put_state k st c) = view c" "view (put_emitted k tr c) = view c"
  by (simp_all add: view_def put_state_def put_emitted_def upd_sh_def)

lemma view_pressure [simp]: "view (upd_pressure cid f c) = view c" "view (record_hold_insert cid m c) = view c"
  "view (record_expiry cid c) = view c" "view (record_forced_skip cid c) = view c" "view (record_late_drop cid c) = view c"
  by (simp_all add: view_def upd_pressure_def record_hold_insert_def record_expiry_def record_forced_skip_def record_late_drop_def upd_sh_def)

lemma view_accumulate [simp]: "view (accumulate_logical_only b s n p c) = view c"
  by (simp add: view_def accumulate_logical_only_def Let_def upd_sh_def)

lemma view_check: "CheckAndInsertBatchId i c = (d, c') \<Longrightarrow> view c' = view c"
  by (auto simp: CheckAndInsertBatchId_def view_def upd_sh_def split: prod.splits)

lemma view_check_snd [simp]: "view (snd (CheckAndInsertBatchId i c)) = view c"
  by (cases "CheckAndInsertBatchId i c") (auto dest: view_check)

lemma view_terminalize [simp]: "view (terminalize_already_emitted a b d e f g c) = view c" "view (terminalize_pending p c) = view c"
  "view (terminalize_held he c) = view c"
  by (simp_all add: terminalize_already_emitted_def terminalize_pending_def terminalize_held_def Let_def)

lemma view_misc [simp]: "view (prepare_stream key skey epoch c) = view c" "view (count_fifo_violation c) = view c"
  "view (retire_held he c) = view c" "view (drop_hold_count c) = view c" "view (add_expired key n c) = view c"
  "view (c\<lparr>lx_delta := d\<rparr>) = view c" "view (credit_terminalized c) = view c"
  by (simp_all add: prepare_stream_def count_fifo_violation_def retire_held_def drop_hold_count_def add_expired_def credit_terminalized_def)
    (simp_all add: view_def upd_sh_def)

lemma view_hold_size [simp]: "view (upd_sh (\<lambda>sh. sh\<lparr>sh_hold_size := f sh, sh_held_keys := g sh\<rparr>) c) = view c"
  by (simp add: view_def upd_sh_def)

lemma view_sweep [simp]: "view (sweep_key now lease key c) = view c"
  by (simp add: sweep_key_def Let_def split: option.splits)

subsection \<open>Functions that change them\<close>

lemma typed_push_iff [simp]: "typed (push_ready p c) \<longleftrightarrow> typed c \<and> typed_ready p"
  by (auto simp: typed_def push_ready_def)

lemma typed_eq_view: "view c' = view c \<Longrightarrow> typed c' = typed c"
  using typed_by_view[of c' c] typed_by_view[of c c'] by auto

lemma typed_frame [simp]: "typed (put_state k st c) = typed c" "typed (put_emitted k tr c) = typed c" "typed (upd_tp f c) = typed c"
  "typed (count_fifo_violation c) = typed c" "typed (retire_held he c) = typed c" "typed (drop_hold_count c) = typed c"
  "typed (terminalize_pending p c) = typed c" "typed (terminalize_held he c) = typed c" "typed (c\<lparr>lx_delta := d\<rparr>) = typed c"
  "typed (record_late_drop cid c) = typed c" "typed (record_forced_skip cid c) = typed c" "typed (record_expiry cid c) = typed c"
  "typed (accumulate_logical_only b sl n i c) = typed c" "typed (prepare_stream key skey epoch c) = typed c"
  "typed (credit_terminalized c) = typed c" "typed (sweep_key now lease key c) = typed c"
  by (rule typed_eq_view, simp)+

lemma typed_check: "CheckAndInsertBatchId i c = (d, c') \<Longrightarrow> typed c' = typed c"
  by (rule typed_eq_view, rule view_check)

lemma typed_fold: "(\<And>x c. x \<in> set xs \<Longrightarrow> typed c \<Longrightarrow> typed (f x c)) \<Longrightarrow> typed c \<Longrightarrow> typed (fold f xs c)"
  by (induction xs arbitrary: c) auto

lemma typed_upd_sh:
  assumes "typed c" "typed_shard (lx_sh c) \<Longrightarrow> typed_shard (f (lx_sh c))"
  shows "typed (upd_sh f c)"
  using assms by (simp add: typed_def upd_sh_def)

lemma typed_put_hold: "typed c \<Longrightarrow> typed_map m \<Longrightarrow> typed (upd_sh (\<lambda>sh. sh\<lparr>sh_hold := om_put key m (sh_hold sh)\<rparr>) c)"
  by (erule typed_upd_sh) (auto simp: typed_shard_def)

lemma typed_hold_map: "typed c \<Longrightarrow> typed_map (om_get [] (sh_hold (lx_sh c)) key)"
  by (auto simp: typed_def typed_shard_def om_get_def split: option.splits)

lemma typed_purge: "typed c \<Longrightarrow> typed (purge_fenced_session key c)"
proof -
  assume t: "typed c"
  have "view (purge_fenced_session key c) = (om_erase key (sh_hold (lx_sh c)),
      filter (\<lambda>p. MakeSessionKey (pb_client_id p) (pb_session_epoch p) \<noteq> key) (sh_deferred (lx_sh c)), lx_ready c)"
    by (auto simp: purge_fenced_session_def view_def upd_sh_def upd_tp_def Let_def om_find_None_iff split: option.split)
  then show ?thesis using t by (auto simp: view_def typed_def typed_shard_def list_all_iff)
qed

lemma typed_record_fence: "typed c \<Longrightarrow> typed (record_fence key c)"
proof -
  have v: "typed c \<Longrightarrow> typed (purge_fenced_session key c')" if "view c' = view c" for c'
    using typed_purge typed_by_view[OF that] by blast
  show "typed c \<Longrightarrow> typed (record_fence key c)"
    unfolding record_fence_def Let_def
    by (auto intro!: v elim: typed_by_view[rotated] split: option.splits prod.splits bool.splits)
qed


lemma typed_emit_if_new: "typed c \<Longrightarrow> typed_batch p \<Longrightarrow> typed (emit_if_new key p c)"
  by (auto simp: emit_if_new_def typed_ready_batch split: prod.splits dest!: typed_check)

lemma typed_classify_ahead:
  assumes "typed c" "typed_batch p"
  shows "typed (classify_ahead key tcc p c)"
proof -
  define c1 where "c1 = (if tcc then (case SteadyNowNs (lx_tp c) of
      (now, t) \<Rightarrow> put_state key (note_gap (get_state key c) now) (upd_tp (\<lambda>_. t) c)) else c)"
  have "view c1 = view c" by (simp add: c1_def split: prod.split)
  then have t1: "typed c1" using assms(1) by (rule typed_by_view)
  define m where "m = om_get [] (sh_hold (lx_sh c1)) key"
  define c2 where "c2 = upd_sh (\<lambda>sh. sh\<lparr>sh_hold := om_put key m (sh_hold sh)\<rparr>) c1"
  have m: "typed_map m" using typed_hold_map[OF t1] by (simp add: m_def)
  have t2: "typed c2" unfolding c2_def by (rule typed_put_hold[OF t1 m])
  obtain now t where n: "SteadyNowNs (lx_tp c2) = (now, t)" by fastforce
  define he where "he = \<lparr>he_batch = p, he_meta = hold_meta_of p, he_hold_start_ns = now\<rparr>"
  have "typed_map (om_put (pb_batch_seq p) he m)" by (rule typed_map_put[OF m]) (simp add: he_def typed_entry_def assms(2))
  moreover have "typed (upd_tp (\<lambda>_. t) c2)" using t2 by (rule typed_by_view[rotated]) simp
  ultimately have t3: "typed (upd_sh (\<lambda>sh. sh\<lparr>sh_hold := om_put key (om_put (pb_batch_seq p) he m) (sh_hold sh)\<rparr>) (upd_tp (\<lambda>_. t) c2))"
    (is "typed ?c3") by (intro typed_put_hold)
  have fin: "typed x \<and> typed_ready (held_marker p)" if "view x = view ?c3" for x
    using typed_by_view[OF that t3] by (simp add: typed_ready_marker)
  have d: "typed (upd_sh (\<lambda>sh. sh\<lparr>sh_deferred := sh_deferred sh @ [p]\<rparr>) c1)"
    by (rule typed_upd_sh[OF t1]) (simp add: typed_shard_def assms(2))
  have b: "typed (upd_sh (\<lambda>sh. sh\<lparr>sh_backpressured := f sh\<rparr>) c1)" for f
    by (rule typed_by_view[OF _ t1]) (simp add: view_def upd_sh_def)
  show ?thesis
    unfolding classify_ahead_def c1_def[symmetric] Let_def m_def[symmetric] c2_def[symmetric] n prod.case he_def[symmetric]
    by (simp add: d b t1 t2 fin)
qed

lemma typed_classify_one: "typed c \<Longrightarrow> typed_batch p \<Longrightarrow> typed (classify_one key tcc p c)"
  unfolding classify_one_def Let_def
  by (auto simp: typed_emit_if_new typed_classify_ahead typed_ready_batch split: prod.splits dest: typed_check)

lemma typed_classify_stream: "typed c \<Longrightarrow> list_all typed_batch ps \<Longrightarrow> typed (classify_stream key skey epoch ps c)"
  by (auto simp: classify_stream_def list_all_iff intro!: typed_fold typed_classify_one)

lemma typed_group_runs: "list_all typed_batch xs \<Longrightarrow> g \<in> set (group_runs f xs) \<Longrightarrow> list_all typed_batch g"
  using group_runs_spec[of g f xs] by (auto simp: list_all_iff)

lemma typed_classify_group: "typed c \<Longrightarrow> list_all typed_batch g \<Longrightarrow> typed (classify_group g c)"
  by (auto simp: classify_group_def Let_def intro!: typed_fold typed_classify_stream)
     (erule typed_group_runs[rotated], simp add: list_all_iff)

lemma collect_streams_typed:
  "(\<forall>(k, v)\<in>set m. list_all typed_batch v) \<Longrightarrow> list_all typed_batch ps \<Longrightarrow>
   \<forall>(k, v)\<in>set (collect_streams cid ps m). list_all typed_batch v"
proof (induction cid ps m rule: collect_streams.induct)
  case (2 cid p ps m)
  let ?k = "MakeClientBrokerStreamKey cid (pb_session_epoch p) (pb_broker_id p)"
  have put: "set (om_put k v m) \<subseteq> insert (k, v) (set m)" for k v by (induction k v m rule: om_put.induct) auto
  have "list_all typed_batch (om_get [] m ?k @ [p])"
    using 2(2,3) by (auto simp: om_get_def dest!: om_find_Some_set split: option.splits)
  then have "\<forall>(k, v)\<in>set (om_put ?k (om_get [] m ?k @ [p]) m). list_all typed_batch v" using 2(2) put by blast
  then show ?case using 2(1)[OF refl] 2(3) by (simp add: Let_def)
qed simp

lemma typed_paths: "typed c \<Longrightarrow> list_all typed_batch l5 \<Longrightarrow> typed (fast_path l5 c)" "typed c \<Longrightarrow> list_all typed_batch l5 \<Longrightarrow> typed (general_path l5 c)"
proof -
  assume t: "typed c" and l: "list_all typed_batch l5"
  have cs: "typed_batch x" if "(k, v) \<in> set (collect_streams cid l5 [])" "x \<in> set v" for cid k v x
    using collect_streams_typed[of "[]" l5 cid] l that by (auto simp: list_all_iff)
  show "typed (fast_path l5 c)"
    using t l by (auto simp: fast_path_def Let_def list_all_iff intro!: typed_fold typed_classify_stream cs)
  have "\<forall>p\<in>set l5. pb_client_id p < 2 ^ 64" using l by (simp add: list_all_iff typed_batch_def fields_in_width_def)
  from sort_by_client_id_spec[OF this, of "sort_key pb_client_id" "[]"]
  have "set (sort_by_client_id (sort_key pb_client_id) pb_client_id [] l5) = set l5" by (metis mset_eq_setD mset_sort sorted_sort_key)
  then show "typed (general_path l5 c)"
    using t l by (auto simp: general_path_def Let_def list_all_iff intro!: typed_fold typed_classify_group dest!: typed_group_runs[rotated])
qed

lemma typed_process_skip: "typed c \<Longrightarrow> typed_batch p \<Longrightarrow> typed (process_skip p c)"
  by (simp add: process_skip_def Let_def typed_record_fence typed_ready_batch)


lemma typed_drain_entry: "typed c \<Longrightarrow> typed_entry s he \<Longrightarrow> typed (drain_entry second key he c)"
  by (auto simp: drain_entry_def Let_def typed_ready_held split: prod.splits dest: typed_check)

lemma typed_drain_loop:
  "drain_loop second key cmap c = (cmap', c') \<Longrightarrow> typed c \<Longrightarrow> typed_map cmap \<Longrightarrow> typed c' \<and> typed_map cmap'"
proof (induction second key cmap c rule: drain_loop.induct)
  case (1 second key cmap c)
  let ?n = "next_expected (get_state key c)"
  show ?case
  proof (cases "om_find cmap ?n")
    case None
    then show ?thesis using 1(2-4) by (simp add: drain_loop.simps[of second key cmap c])
  next
    case (Some he)
    then have e: "typed_entry ?n he" using 1(4) by (simp add: typed_map_def)
    have "drain_loop second key (om_erase ?n cmap) (drain_entry second key he c) = (cmap', c')"
      using 1(2) Some by (simp add: drain_loop.simps[of second key cmap c])
    then show ?thesis using 1(1)[OF Some] typed_drain_entry[OF 1(3) e] typed_map_erase[OF 1(4)] by blast
  qed
qed

lemma typed_erase_hold:
  "typed c \<Longrightarrow> typed (upd_sh (\<lambda>sh. sh\<lparr>sh_hold := om_erase key (sh_hold sh), sh_held_keys := g sh\<rparr>) c)"
  by (erule typed_upd_sh) (auto simp: typed_shard_def)

lemma typed_drain_key:
  assumes "typed c"
  shows "typed (drain_key second key c)"
proof (cases "om_find (sh_hold (lx_sh c)) key")
  case None
  have "typed (upd_sh (\<lambda>sh. sh\<lparr>sh_held_keys := f sh\<rparr>) c)" for f by (rule typed_by_view[OF _ assms]) (simp add: view_def upd_sh_def)
  then show ?thesis using None by (simp add: drain_key_def)
next
  case (Some cmap0)
  then have m: "typed_map cmap0" using assms by (auto simp: typed_def typed_shard_def)
  define c1 where "c1 = put_emitted key (get_emitted key c)
     (put_state key ((get_state key c)\<lparr>last_epoch := tp_current_epoch_for_hold (lx_tp c)\<rparr>) c)"
  obtain cmap c2 where d: "drain_loop second key cmap0 c1 = (cmap, c2)" by fastforce
  have t: "typed c2" "typed_map cmap" using typed_drain_loop[OF d _ m] assms by (simp_all add: c1_def)
  show ?thesis
    unfolding drain_key_def Some option.case Let_def c1_def[symmetric] d prod.case by (simp add: typed_erase_hold typed_put_hold t)
qed

lemma typed_drains: "typed c \<Longrightarrow> typed (first_drain c)" "typed c \<Longrightarrow> typed (second_drain c)"
  by (auto simp: first_drain_def second_drain_def Level5Shard.drain_all_def intro!: typed_fold typed_drain_key)

lemma typed_expire_key: "typed c \<Longrightarrow> typed (expire_key km c)"
  by (simp add: expire_key_def Let_def typed_record_fence)

lemma typed_expiry_sweep:
  assumes "typed c"
  shows "typed (expiry_sweep c)"
proof -
  have "typed (upd_sh (\<lambda>sh. sh\<lparr>sh_expired_keys := []\<rparr>) (upd_tp f c))" for f
    by (rule typed_by_view[OF _ assms]) (simp add: view_def upd_sh_def upd_tp_def)
  then show ?thesis by (auto simp: expiry_sweep_def Let_def split: prod.split intro!: typed_fold typed_expire_key)
qed

lemma typed_gc: "typed c \<Longrightarrow> typed (ClientGc c)"
proof -
  have "typed (gc_evict k c)" if "typed c" for k c
    using that by (auto simp: gc_evict_def Let_def typed_def typed_shard_def upd_sh_def upd_tp_def)
  then show "typed c \<Longrightarrow> typed (ClientGc c)" by (auto simp: ClientGc_def Let_def intro: typed_fold)
qed

lemma typed_pass:
  assumes "typed_shard sh" "list_all typed_batch level5" "list_all typed_ready ready"
  shows "typed (ProcessLevel5BatchesShard sh t level5 ready)"
proof -
  obtain l5 c where b: "begin_shard_pass level5 \<lparr>lx_sh = sh, lx_tp = t, lx_ready = ready, lx_delta = []\<rparr> = (l5, c)" by fastforce
  then have l: "list_all typed_batch l5" and c: "typed c"
    using assms by (auto simp: begin_shard_pass_def clear_backpressured_def Let_def upd_sh_def typed_def typed_shard_def)
  define c1 where "c1 = fold process_skip (filter pb_skipped l5) c"
  have c1: "typed c1" unfolding c1_def by (rule typed_fold[OF _ c]) (use l in \<open>auto simp: list_all_iff typed_process_skip\<close>)
  define rest where "rest = filter (\<lambda>p. \<not> pb_skipped p) l5"
  have r: "list_all typed_batch rest" using l by (auto simp: rest_def list_all_iff)
  note p = typed_paths[OF c1 r]
  define c5 where "c5 = second_drain (expiry_sweep (first_drain (general_path rest c1)))"
  have c5: "typed c5" unfolding c5_def by (intro typed_drains typed_expiry_sweep p(2))
  show ?thesis
    unfolding ProcessLevel5BatchesShard_def b prod.case Let_def c1_def[symmetric] rest_def[symmetric] c5_def[symmetric]
    using p(1) c5 by (auto intro: typed_gc)
qed


lemma typed_process_shards:
  "process_shards n i level5 shs t = (shs', t', r) \<Longrightarrow> list_all typed_shard shs \<Longrightarrow> list_all typed_batch level5 \<Longrightarrow>
   list_all typed_shard shs' \<and> list_all typed_ready r"
proof (induction shs arbitrary: i t shs' t' r)
  case (Cons sh shs)
  let ?l = "filter (\<lambda>p. pb_client_id p mod n = i) level5"
  let ?r = "ProcessLevel5BatchesShard sh t ?l []"
  obtain s2 t2 r2 where p: "process_shards n (i + 1) level5 shs (lx_tp ?r) = (s2, t2, r2)" by (metis surj_pair)
  have "typed ?r" using Cons.prems by (intro typed_pass) (auto simp: list_all_iff)
  moreover have "shs' = lx_sh ?r # s2" "r = (if tp_capacity_exhausted (lx_tp ?r) then [] else lx_ready ?r @ r2)" using Cons.prems(1) p by (simp_all add: Let_def)
  ultimately show ?case using Cons.IH[OF p] Cons.prems(2,3) by (simp add: typed_def)
qed simp

lemma ProcessLevel5Batches_typed:
  assumes "list_all typed_shard shards" "list_all typed_batch level5" "ProcessLevel5Batches shards t level5 [] = Some (shards', t', ready)"
  shows "list_all typed_shard shards' \<and> list_all typed_ready ready"
proof -
  obtain s2 t2 r2 where p: "process_shards (length shards) 0 level5 shards t = (s2, t2, r2)" by (metis surj_pair)
  have q: "typed (ProcessLevel5BatchesShard sh t level5 [])" if "typed_shard sh" for sh
    by (rule typed_pass[OF that assms(2)]) simp
  show ?thesis
    using assms(1,3) p q typed_process_shards[OF p assms(1,2)]
    by (auto simp: ProcessLevel5Batches_def typed_def Let_def simp del: process_shards.simps split: if_splits list.splits)
qed

lemma typed_count:
  assumes "list_all typed_ready ps" "tot + length ps * 2 ^ 32 \<le> SIZE_MAX"
  shows "count_ready ps tot k \<noteq> None"
  using assms
proof (induction ps arbitrary: tot k)
  case (Cons p ps)
  show ?case
  proof (cases "committed_batch p")
    case True
    then have "pb_num_msg p < 2 ^ 32" "pb_from_hold p \<or> pb_hdr p \<noteq> None"
      using Cons.prems(1) by (auto simp: typed_ready_def fields_in_width_def)
    moreover have "tot + 2 ^ 32 + length ps * 2 ^ 32 \<le> SIZE_MAX" using Cons.prems(2) by simp
    ultimately have "\<not> pb_num_msg p > SIZE_MAX - tot" "tot + pb_num_msg p + length ps * 2 ^ 32 \<le> SIZE_MAX" by linarith+
    then show ?thesis using Cons.IH[of "tot + pb_num_msg p" "k + 1"] Cons.prems(1) True \<open>pb_from_hold p \<or> pb_hdr p \<noteq> None\<close> by auto
  next
    case False
    then show ?thesis using Cons.IH[of tot k] Cons.prems by simp
  qed
qed simp

subsection \<open>Properties\<close>

text \<open>C15: typing is preserved by a pass over all shards, in either ordering mode and from any topic
  state: if the shards are well typed and the scanners deliver well typed batches, the shards stay well typed and every batch
  handed to the commit stage carries metadata that agrees with it and, unless it is a marker, a header
  or a copy from the hold buffer.  Hence the count of a commit of fewer than \<open>2 ^ 31\<close> batches never fails, neither for a missing header nor for
  an overflowing message count.\<close>

theorem classifier_well_typed:
  assumes "list_all typed_shard shards" "list_all typed_batch level5" "ProcessLevel5Batches shards t level5 [] = Some (shards', t', ready)"
  shows "list_all typed_shard shards' \<and> list_all typed_ready ready \<and> (length ready < 2 ^ 31 \<longrightarrow> count_ready ready 0 0 \<noteq> None)"
proof -
  have "length ready * 2 ^ 32 \<le> SIZE_MAX" if "length ready < 2 ^ 31"
    using that by (simp add: SIZE_MAX_def UINT64_MAX_def)
  then show ?thesis using ProcessLevel5Batches_typed[OF assms] typed_count[of ready 0 0] by simp
qed

definition header_batch :: "nat \<Rightarrow> PendingBatch5" where
  "header_batch n = (sample_batch n)\<lparr>pb_hdr := Some n, pb_cached_log_idx := 4096 * n\<rparr>"

theorem classifier_well_typed_witness:
  "list_all typed_shard [Level5ShardState_init] \<and> list_all typed_batch [header_batch 0] \<and>
   (\<exists>shards t ready. ProcessLevel5Batches [Level5ShardState_init] sample_topic [header_batch 0] [] = Some (shards, t, ready) \<and>
      map pb_hdr ready = [Some 0] \<and> list_all typed_shard shards \<and> list_all typed_ready ready)"
proof -
  have s: "list_all typed_shard [Level5ShardState_init]" by (simp add: typed_shard_init)
  have b: "list_all typed_batch [header_batch 0]"
    by (simp add: header_batch_def sample_batch_def typed_batch_def fields_in_width_def PendingBatch5_init_def)
  define r where "r = ProcessLevel5BatchesShard Level5ShardState_init sample_topic [header_batch 0] []"
  have r: "ProcessLevel5Batches [Level5ShardState_init] sample_topic [header_batch 0] [] = Some ([lx_sh r], lx_tp r, lx_ready r)"
    by (simp add: ProcessLevel5Batches_def Let_def sample_topic_def r_def)
  have h: "map pb_hdr (lx_ready r) = [Some 0]"
    by (simp add: r_def header_batch_def eval5 Let_def cong: if_weak_cong let_weak_cong)
  show ?thesis using classifier_well_typed[OF s b r] s b r h by auto
qed

end
