(* ===== verification/EpochBuffer.thy ===== *)
theory EpochBuffer
  imports Level5State
begin

text \<open>
  The epoch buffer between the broker scanners and the sequencer (\<open>EpochBuffer5\<close>, \<open>topic.h\<close>): a
  state word, one activity flag and one queue per broker.  Scanners enter, push and exit, any thread may
  seal or restart, the sequencer drains a sealed buffer.  The operations come first as functions,
  then as the atomic steps of concurrent threads; over every interleaving no batch is lost,
  repeated or reordered within its broker.
\<close>

subsection \<open>The buffer\<close>

datatype EpochPhase = IDLE | RESETTING | COLLECTING | SEALING | SEALED

record 'a EpochBuffer5 =
  eb_state :: EpochPhase
  eb_active :: "int \<Rightarrow> bool"
  eb_queue :: "int \<Rightarrow> 'a list"
  eb_start_ns :: nat

definition EpochBuffer5_init :: "'a EpochBuffer5" where
  "EpochBuffer5_init = \<lparr>eb_state = IDLE, eb_active = (\<lambda>_. False), eb_queue = (\<lambda>_. []), eb_start_ns = 0\<rparr>"

definition collectors_active :: "'a EpochBuffer5 \<Rightarrow> bool" where
  "collectors_active e \<longleftrightarrow> list_ex (eb_active e) broker_ids"

definition enter_collection :: "int \<Rightarrow> 'a EpochBuffer5 \<Rightarrow> bool \<times> 'a EpochBuffer5" where
  "enter_collection b e =
     (if \<not> valid_broker b then (False, e)
      else if eb_state e \<noteq> COLLECTING then (False, e)
      else (True, e\<lparr>eb_active := (eb_active e)(b := True)\<rparr>))"

definition exit_collection :: "int \<Rightarrow> 'a EpochBuffer5 \<Rightarrow> 'a EpochBuffer5" where
  "exit_collection b e = (if \<not> valid_broker b then e else e\<lparr>eb_active := (eb_active e)(b := False)\<rparr>)"

definition push_back :: "int \<Rightarrow> 'a \<Rightarrow> 'a EpochBuffer5 \<Rightarrow> 'a EpochBuffer5" where
  "push_back b x e = e\<lparr>eb_queue := (eb_queue e)(b := eb_queue e b @ [x])\<rparr>"

text \<open>Sealing with no other thread running: the wait ends at once when no scanner is inside, and times
  out otherwise.\<close>

definition seal_begin :: "'a EpochBuffer5 \<Rightarrow> bool \<times> 'a EpochBuffer5" where
  "seal_begin e = (if eb_state e = COLLECTING then (True, e\<lparr>eb_state := SEALING\<rparr>) else (False, e))"

definition seal_end :: "bool \<Rightarrow> 'a EpochBuffer5 \<Rightarrow> 'a EpochBuffer5" where
  "seal_end quiesced e = e\<lparr>eb_state := (if quiesced then SEALED else COLLECTING)\<rparr>"

definition seal :: "'a EpochBuffer5 \<Rightarrow> bool \<times> 'a EpochBuffer5" where
  "seal e = (case seal_begin e of (ok, e1) \<Rightarrow>
     if \<not> ok then (False, e1) else let quiesced = \<not> collectors_active e1 in (quiesced, seal_end quiesced e1))"

definition clear_queue :: "int \<Rightarrow> 'a EpochBuffer5 \<Rightarrow> 'a EpochBuffer5" where
  "clear_queue b e = e\<lparr>eb_queue := (eb_queue e)(b := [])\<rparr>"

definition clear_active :: "int \<Rightarrow> 'a EpochBuffer5 \<Rightarrow> 'a EpochBuffer5" where
  "clear_active b e = e\<lparr>eb_active := (eb_active e)(b := False)\<rparr>"

definition reset_and_start :: "'a EpochBuffer5 \<Rightarrow> bool \<times> 'a EpochBuffer5" where
  "reset_and_start e =
     (if eb_state e \<noteq> IDLE then (False, e)
      else let e1 = fold clear_queue broker_ids (e\<lparr>eb_state := RESETTING\<rparr>);
               e2 = fold clear_active broker_ids e1
           in (True, e2\<lparr>eb_state := COLLECTING\<rparr>))"

definition CanDrainAt :: "nat \<Rightarrow> nat \<Rightarrow> 'a EpochBuffer5 \<Rightarrow> bool" where
  "CanDrainAt next_to_extract current_epoch e \<longleftrightarrow>
     next_to_extract < current_epoch \<or> next_to_extract = current_epoch \<and> eb_state e = SEALED"

definition is_available :: "'a EpochBuffer5 \<Rightarrow> bool" where
  "is_available e \<longleftrightarrow> eb_state e = IDLE"

text \<open>The extraction of the sequencer: None while the buffer is not sealed or a scanner is inside.\<close>

definition drain_queue :: "int \<Rightarrow> 'a list \<times> 'a EpochBuffer5 \<Rightarrow> 'a list \<times> 'a EpochBuffer5" where
  "drain_queue b s = (fst s @ eb_queue (snd s) b, clear_queue b (snd s))"

definition extract_epoch :: "'a EpochBuffer5 \<Rightarrow> ('a list \<times> 'a EpochBuffer5) option" where
  "extract_epoch e =
     (if eb_state e \<noteq> SEALED then None
      else if collectors_active e then None
      else case fold drain_queue broker_ids ([], e) of (batch_list, e1) \<Rightarrow> Some (batch_list, e1\<lparr>eb_state := IDLE\<rparr>))"

subsection \<open>Concurrent threads\<close>

text \<open>
  The buffer with its threads: the scanners between \<open>enter_collection\<close> and \<open>exit_collection\<close>, how far the
  thread that holds RESETTING has come (first the queues, then the flags), how far the sequencer has come with
  the batches it has taken.  The last three fields record history: every push, what the
  current and what each finished extraction took from each broker.
\<close>

record 'a EpochSys =
  ey_buf :: "'a EpochBuffer5"
  ey_inside :: "int \<Rightarrow> bool"
  ey_reset :: nat
  ey_drain :: "(nat \<times> 'a list) option"
  ey_lists :: "'a list list"
  ey_pushed :: "int \<Rightarrow> 'a list"
  ey_taken :: "int \<Rightarrow> 'a list"
  ey_epochs :: "(int \<Rightarrow> 'a list) list"

definition EpochSys_init :: "'a EpochSys" where
  "EpochSys_init = \<lparr>ey_buf = EpochBuffer5_init, ey_inside = (\<lambda>_. False), ey_reset = 0, ey_drain = None, ey_lists = [],
     ey_pushed = (\<lambda>_. []), ey_taken = (\<lambda>_. []), ey_epochs = []\<rparr>"

abbreviation num_brokers :: nat where "num_brokers \<equiv> length broker_ids"

inductive epoch_step :: "'a EpochSys \<Rightarrow> 'a EpochSys \<Rightarrow> bool" where
  enter: "\<not> ey_inside s b \<Longrightarrow> enter_collection b (ey_buf s) = (True, e) \<Longrightarrow>
    epoch_step s (s\<lparr>ey_buf := e, ey_inside := (ey_inside s)(b := True)\<rparr>)"
| push: "ey_inside s b \<Longrightarrow>
    epoch_step s (s\<lparr>ey_buf := push_back b x (ey_buf s), ey_pushed := (ey_pushed s)(b := ey_pushed s b @ [x])\<rparr>)"
| exit: "ey_inside s b \<Longrightarrow>
    epoch_step s (s\<lparr>ey_buf := exit_collection b (ey_buf s), ey_inside := (ey_inside s)(b := False)\<rparr>)"
| seal_start: "seal_begin (ey_buf s) = (True, e) \<Longrightarrow> epoch_step s (s\<lparr>ey_buf := e\<rparr>)"
| seal_done: "eb_state (ey_buf s) = SEALING \<Longrightarrow> \<not> collectors_active (ey_buf s) \<Longrightarrow>
    epoch_step s (s\<lparr>ey_buf := seal_end True (ey_buf s)\<rparr>)"
| seal_timeout: "eb_state (ey_buf s) = SEALING \<Longrightarrow> epoch_step s (s\<lparr>ey_buf := seal_end False (ey_buf s)\<rparr>)"
| reset_begin: "eb_state (ey_buf s) = IDLE \<Longrightarrow>
    epoch_step s (s\<lparr>ey_buf := (ey_buf s)\<lparr>eb_state := RESETTING\<rparr>, ey_reset := 0\<rparr>)"
| reset_queue: "eb_state (ey_buf s) = RESETTING \<Longrightarrow> ey_reset s < num_brokers \<Longrightarrow>
    epoch_step s (s\<lparr>ey_buf := clear_queue (broker_ids ! ey_reset s) (ey_buf s), ey_reset := ey_reset s + 1\<rparr>)"
| reset_flag: "eb_state (ey_buf s) = RESETTING \<Longrightarrow> num_brokers \<le> ey_reset s \<Longrightarrow> ey_reset s < 2 * num_brokers \<Longrightarrow>
    epoch_step s (s\<lparr>ey_buf := clear_active (broker_ids ! (ey_reset s - num_brokers)) (ey_buf s), ey_reset := ey_reset s + 1\<rparr>)"
| reset_end: "eb_state (ey_buf s) = RESETTING \<Longrightarrow> ey_reset s = 2 * num_brokers \<Longrightarrow>
    epoch_step s (s\<lparr>ey_buf := (ey_buf s)\<lparr>eb_state := COLLECTING\<rparr>, ey_reset := 0\<rparr>)"
| drain_begin: "ey_drain s = None \<Longrightarrow> eb_state (ey_buf s) = SEALED \<Longrightarrow> \<not> collectors_active (ey_buf s) \<Longrightarrow>
    epoch_step s (s\<lparr>ey_drain := Some (0, [])\<rparr>)"
| drain_one: "ey_drain s = Some (n, acc) \<Longrightarrow> n < num_brokers \<Longrightarrow> drain_queue (broker_ids ! n) (acc, ey_buf s) = (acc', e) \<Longrightarrow>
    epoch_step s (s\<lparr>ey_buf := e, ey_drain := Some (n + 1, acc'),
      ey_taken := (ey_taken s)(broker_ids ! n := eb_queue (ey_buf s) (broker_ids ! n))\<rparr>)"
| drain_end: "ey_drain s = Some (num_brokers, acc) \<Longrightarrow>
    epoch_step s (s\<lparr>ey_buf := (ey_buf s)\<lparr>eb_state := IDLE\<rparr>, ey_drain := None, ey_lists := ey_lists s @ [acc],
      ey_taken := (\<lambda>_. []), ey_epochs := ey_epochs s @ [ey_taken s]\<rparr>)"

text \<open>Between a sealed buffer and its restart nobody is inside, a drained queue stays empty until then, and what was pushed
  is what was extracted, in order, then what is being extracted, then what waits.\<close>

definition epoch_inv :: "'a EpochSys \<Rightarrow> bool" where
  "epoch_inv s \<longleftrightarrow>
     ey_inside s = eb_active (ey_buf s) \<and> (\<forall>b. eb_active (ey_buf s) b \<longrightarrow> valid_broker b) \<and>
     (eb_state (ey_buf s) \<notin> {COLLECTING, SEALING} \<longrightarrow> eb_active (ey_buf s) = (\<lambda>_. False)) \<and>
     (eb_state (ey_buf s) \<in> {IDLE, RESETTING} \<longrightarrow> (\<forall>b. valid_broker b \<longrightarrow> eb_queue (ey_buf s) b = [])) \<and>
     (case ey_drain s of
        None \<Rightarrow> ey_taken s = (\<lambda>_. [])
      | Some (n, acc) \<Rightarrow> eb_state (ey_buf s) = SEALED \<and> n \<le> num_brokers \<and> acc = concat (map (ey_taken s) (take n broker_ids)) \<and>
          (\<forall>b\<in>set (take n broker_ids). eb_queue (ey_buf s) b = []) \<and> (\<forall>b. b \<notin> set (take n broker_ids) \<longrightarrow> ey_taken s b = [])) \<and>
     ey_lists s = map (\<lambda>f. concat (map f broker_ids)) (ey_epochs s) \<and>
     (\<forall>b. valid_broker b \<longrightarrow> ey_pushed s b = concat (map (\<lambda>f. f b) (ey_epochs s)) @ ey_taken s b @ eb_queue (ey_buf s) b)"

lemma epoch_inv_init: "epoch_inv EpochSys_init"
  by (simp add: epoch_inv_def EpochSys_init_def EpochBuffer5_init_def)

lemma collectors_inactive: "\<not> collectors_active e \<longleftrightarrow> (\<forall>b. valid_broker b \<longrightarrow> \<not> eb_active e b)"
  by (auto simp: collectors_active_def list_ex_iff set_broker_ids)

lemma broker_nth_valid: "n < num_brokers \<Longrightarrow> valid_broker (broker_ids ! n)"
  using nth_mem set_broker_ids by blast

lemma broker_nth_notin_take: "n < num_brokers \<Longrightarrow> broker_ids ! n \<notin> set (take n broker_ids)"
  using broker_ids_distinct by (metis in_set_conv_nth distinct_conv_nth length_take less_irrefl min_less_iff_conj nth_take)

lemmas epoch_ops = enter_collection_def exit_collection_def push_back_def seal_begin_def seal_end_def clear_queue_def
  clear_active_def drain_queue_def

lemma epoch_step_inv:
  assumes "epoch_step s s'" "epoch_inv s"
  shows "epoch_inv s'"
  using assms
proof (induction rule: epoch_step.induct)
  case (drain_one s n acc acc' e)
  let ?b = "broker_ids ! n"
  have t: "take (Suc n) broker_ids = take n broker_ids @ [?b]"
    using drain_one(2) by (simp add: take_Suc_conv_app_nth)
  have i: "acc = concat (map (ey_taken s) (take n broker_ids))" "ey_taken s ?b = []" "eb_state (ey_buf s) = SEALED"
    using drain_one(1,2,4) broker_nth_notin_take by (auto simp: epoch_inv_def)
  have m: "map ((ey_taken s)(?b := x)) (take n broker_ids) = map (ey_taken s) (take n broker_ids)" for x
    using broker_nth_notin_take[OF drain_one(2)] by (auto simp: map_eq_conv)
  show ?case
    using drain_one unfolding epoch_inv_def by (simp add: epoch_ops t i m) (auto simp: i(3))
next
  case (drain_end s acc)
  then have "\<forall>b. valid_broker b \<longrightarrow> eb_queue (ey_buf s) b = []" "acc = concat (map (ey_taken s) broker_ids)"
    by (auto simp: epoch_inv_def set_broker_ids)
  then show ?case using drain_end unfolding epoch_inv_def by (simp add: epoch_ops)
next
  case (seal_done s)
  then have "eb_active (ey_buf s) = (\<lambda>_. False)" by (auto simp: epoch_inv_def collectors_inactive fun_eq_iff)
  then show ?case using seal_done unfolding epoch_inv_def by (simp add: epoch_ops split: option.splits)
qed (auto simp: epoch_inv_def epoch_ops split: if_splits option.splits)

lemma epoch_reachable_inv: "epoch_step\<^sup>*\<^sup>* EpochSys_init s \<Longrightarrow> epoch_inv s"
  by (induction rule: rtranclp_induct) (auto intro: epoch_inv_init epoch_step_inv)


subsection \<open>The operations are runs of the atomic steps\<close>

abbreviation epoch_steps :: "'a EpochSys \<Rightarrow> 'a EpochSys \<Rightarrow> bool" where "epoch_steps \<equiv> epoch_step\<^sup>*\<^sup>*"

lemma steps_push:
  assumes "\<not> ey_inside s b" "enter_collection b (ey_buf s) = (True, e)"
  shows "epoch_steps s (s\<lparr>ey_pushed := (ey_pushed s)(b := ey_pushed s b @ [x]), ey_buf := exit_collection b (push_back b x e)\<rparr>)"
proof -
  let ?s1 = "s\<lparr>ey_buf := e, ey_inside := (ey_inside s)(b := True)\<rparr>"
  let ?s2 = "?s1\<lparr>ey_buf := push_back b x (ey_buf ?s1), ey_pushed := (ey_pushed ?s1)(b := ey_pushed ?s1 b @ [x])\<rparr>"
  have "epoch_step s ?s1" by (rule epoch_step.enter[OF assms])
  moreover have "epoch_step ?s1 ?s2" by (rule epoch_step.push) simp
  moreover have "epoch_step ?s2 (?s2\<lparr>ey_buf := exit_collection b (ey_buf ?s2), ey_inside := (ey_inside ?s2)(b := False)\<rparr>)"
    by (rule epoch_step.exit) simp
  ultimately have "epoch_steps s (?s2\<lparr>ey_buf := exit_collection b (ey_buf ?s2), ey_inside := (ey_inside ?s2)(b := False)\<rparr>)"
    by (meson converse_rtranclp_into_rtranclp r_into_rtranclp)
  then show ?thesis using assms(1) by (simp add: fun_upd_idem)
qed

lemma steps_seal: "epoch_steps s (s\<lparr>ey_buf := snd (seal (ey_buf s))\<rparr>)"
proof (cases "eb_state (ey_buf s) = COLLECTING")
  case True
  let ?s1 = "s\<lparr>ey_buf := (ey_buf s)\<lparr>eb_state := SEALING\<rparr>\<rparr>"
  have a: "epoch_step s ?s1" by (rule epoch_step.seal_start) (simp add: seal_begin_def True)
  have "epoch_step ?s1 (?s1\<lparr>ey_buf := seal_end (\<not> collectors_active (ey_buf ?s1)) (ey_buf ?s1)\<rparr>)"
    using epoch_step.seal_done[of ?s1] epoch_step.seal_timeout[of ?s1] by (cases "collectors_active (ey_buf ?s1)") simp_all
  then show ?thesis using a True by (simp add: seal_def seal_begin_def Let_def)
qed (simp add: seal_def seal_begin_def)

lemma steps_reset: "epoch_steps s (s\<lparr>ey_buf := snd (reset_and_start (ey_buf s)), ey_reset := (if eb_state (ey_buf s) = IDLE then 0 else ey_reset s)\<rparr>)"
proof (cases "eb_state (ey_buf s) = IDLE")
  case True
  let ?N = "num_brokers"
  define q where "q n = fold clear_queue (take n broker_ids) ((ey_buf s)\<lparr>eb_state := RESETTING\<rparr>)" for n
  define f where "f n = fold clear_active (take n broker_ids) (q ?N)" for n
  have tk: "take (Suc n) broker_ids = take n broker_ids @ [broker_ids ! n]" if "n < ?N" for n using that by (simp add: take_Suc_conv_app_nth)
  have fc: "eb_state (fold clear_queue bs e) = eb_state e" for bs and e :: "'a EpochBuffer5" by (induction bs arbitrary: e) (simp_all add: clear_queue_def)
  have fa: "eb_state (fold clear_active bs e) = eb_state e" for bs and e :: "'a EpochBuffer5" by (induction bs arbitrary: e) (simp_all add: clear_active_def)
  have st: "eb_state (q n) = RESETTING" "eb_state (f n) = RESETTING" for n by (simp_all add: q_def f_def fc fa)
  have queues: "epoch_steps s (s\<lparr>ey_buf := q n, ey_reset := n\<rparr>)" if "n \<le> ?N" for n
    using that
  proof (induction n)
    case 0
    show ?case using epoch_step.reset_begin[OF True] by (simp add: q_def)
  next
    case (Suc n)
    have "epoch_step (s\<lparr>ey_buf := q n, ey_reset := n\<rparr>) (s\<lparr>ey_buf := q (Suc n), ey_reset := Suc n\<rparr>)"
      using epoch_step.reset_queue[of "s\<lparr>ey_buf := q n, ey_reset := n\<rparr>"] Suc.prems by (simp add: st tk) (simp add: q_def tk)
    then show ?case using Suc by (meson Suc_leD rtranclp.rtrancl_into_rtrancl)
  qed
  have flags: "epoch_steps s (s\<lparr>ey_buf := f n, ey_reset := ?N + n\<rparr>)" if "n \<le> ?N" for n
    using that
  proof (induction n)
    case 0
    show ?case using queues[of ?N] by (simp add: f_def)
  next
    case (Suc n)
    have "epoch_step (s\<lparr>ey_buf := f n, ey_reset := ?N + n\<rparr>) (s\<lparr>ey_buf := f (Suc n), ey_reset := ?N + Suc n\<rparr>)"
      using epoch_step.reset_flag[of "s\<lparr>ey_buf := f n, ey_reset := ?N + n\<rparr>"] Suc.prems by (simp add: st tk) (simp add: f_def tk)
    then show ?case using Suc by (meson Suc_leD rtranclp.rtrancl_into_rtrancl)
  qed
  have "epoch_step (s\<lparr>ey_buf := f ?N, ey_reset := 2 * ?N\<rparr>) (s\<lparr>ey_buf := (f ?N)\<lparr>eb_state := COLLECTING\<rparr>, ey_reset := 0\<rparr>)"
    using epoch_step.reset_end[of "s\<lparr>ey_buf := f ?N, ey_reset := 2 * ?N\<rparr>"] by (simp add: st)
  moreover have "snd (reset_and_start (ey_buf s)) = (f ?N)\<lparr>eb_state := COLLECTING\<rparr>"
    using True by (simp add: reset_and_start_def f_def q_def Let_def)
  ultimately show ?thesis using flags[of ?N] True by (simp add: mult_2) 
qed (simp add: reset_and_start_def)

lemma steps_extract:
  assumes "extract_epoch (ey_buf s) = Some (batch_list, e)" "ey_drain s = None"
  shows "\<exists>s'. epoch_steps s s' \<and> ey_buf s' = e \<and> ey_lists s' = ey_lists s @ [batch_list] \<and> ey_pushed s' = ey_pushed s \<and> ey_drain s' = None \<and>
     ey_inside s' = ey_inside s"
proof -
  have c: "eb_state (ey_buf s) = SEALED" "\<not> collectors_active (ey_buf s)"
    and r: "e = (snd (fold drain_queue broker_ids ([], ey_buf s)))\<lparr>eb_state := IDLE\<rparr>" "batch_list = fst (fold drain_queue broker_ids ([], ey_buf s))"
    using assms(1) by (auto simp: extract_epoch_def split: if_splits prod.splits)
  define d where "d n = fold drain_queue (take n broker_ids) ([], ey_buf s)" for n
  have run: "\<exists>t. epoch_steps s (s\<lparr>ey_buf := snd (d n), ey_drain := Some (n, fst (d n)), ey_taken := t\<rparr>)" if "n \<le> num_brokers" for n
    using that
  proof (induction n)
    case 0
    have "epoch_step s (s\<lparr>ey_buf := snd (d 0), ey_drain := Some (0, fst (d 0)), ey_taken := ey_taken s\<rparr>)"
      using epoch_step.drain_begin[OF assms(2) c] by (simp add: d_def)
    then show ?case by blast
  next
    case (Suc n)
    then obtain t where t: "epoch_steps s (s\<lparr>ey_buf := snd (d n), ey_drain := Some (n, fst (d n)), ey_taken := t\<rparr>)" (is "epoch_steps s ?s") by auto
    have "d (Suc n) = drain_queue (broker_ids ! n) (d n)" using Suc.prems by (simp add: d_def take_Suc_conv_app_nth)
    then have "drain_queue (broker_ids ! n) (fst (d n), ey_buf ?s) = (fst (d (Suc n)), snd (d (Suc n)))" by simp
    from epoch_step.drain_one[OF _ _ this] Suc.prems
    have "\<exists>t'. epoch_step ?s (s\<lparr>ey_buf := snd (d (Suc n)), ey_drain := Some (Suc n, fst (d (Suc n))), ey_taken := t'\<rparr>)" by auto
    then show ?case using t by (meson rtranclp.rtrancl_into_rtrancl)
  qed
  obtain t where t: "epoch_steps s (s\<lparr>ey_buf := snd (d num_brokers), ey_drain := Some (num_brokers, fst (d num_brokers)), ey_taken := t\<rparr>)" (is "epoch_steps s ?s")
    using run[of num_brokers] by auto
  have "epoch_steps s (?s\<lparr>ey_buf := (ey_buf ?s)\<lparr>eb_state := IDLE\<rparr>, ey_drain := None, ey_lists := ey_lists ?s @ [fst (d num_brokers)],
      ey_taken := (\<lambda>_. []), ey_epochs := ey_epochs ?s @ [ey_taken ?s]\<rparr>)" (is "epoch_steps s ?s'")
    by (rule rtranclp.rtrancl_into_rtrancl[OF t epoch_step.drain_end]) simp
  moreover have "ey_buf ?s' = e" "ey_lists ?s' = ey_lists s @ [batch_list]" by (simp_all add: r d_def)
  ultimately show ?thesis using assms(2) by (intro exI[of _ ?s']) simp
qed

subsection \<open>Properties\<close>

text \<open>C5: whatever the interleaving of scanners, sealing threads, restarting threads and the sequencer,
  what a broker's scanner pushed is, in order, what the finished extractions took, then what the running
  extraction has taken, then what waits in the queue: nothing is lost, repeated or reordered.  Each extracted list is
  the brokers' parts in broker order.  A buffer that is sealed, idle or being restarted has no scanner inside, and the queues a
  restart clears are empty already.\<close>

theorem epoch_buffer_loses_nothing:
  assumes "epoch_steps EpochSys_init s" "valid_broker b"
  shows "ey_pushed s b = concat (map (\<lambda>f. f b) (ey_epochs s)) @ ey_taken s b @ eb_queue (ey_buf s) b \<and>
    ey_lists s = map (\<lambda>f. concat (map f broker_ids)) (ey_epochs s) \<and>
    (eb_state (ey_buf s) \<in> {SEALED, IDLE, RESETTING} \<longrightarrow> \<not> ey_inside s b) \<and>
    (eb_state (ey_buf s) \<in> {IDLE, RESETTING} \<longrightarrow> eb_queue (ey_buf s) b = [])"
  using epoch_reachable_inv[OF assms(1)] assms(2) by (auto simp: epoch_inv_def)

definition sample_sys :: "nat EpochSys" where
  "sample_sys = (let s1 = EpochSys_init\<lparr>ey_buf := snd (reset_and_start EpochBuffer5_init), ey_reset := 0\<rparr>
     in s1\<lparr>ey_pushed := (\<lambda>_. [])(0 := [7]), ey_buf := exit_collection 0 (push_back 0 7 (snd (enter_collection 0 (ey_buf s1))))\<rparr>)"

lemma clear_all [simp]:
  "fold clear_queue bs e = e\<lparr>eb_queue := (\<lambda>b. if b \<in> set bs then [] else eb_queue e b)\<rparr>"
  "fold clear_active bs e = e\<lparr>eb_active := (\<lambda>b. b \<notin> set bs \<and> eb_active e b)\<rparr>"
  by (induction bs arbitrary: e; force simp: clear_queue_def clear_active_def fun_eq_iff)+

lemma drain_queue_all:
  "distinct bs \<Longrightarrow> fold drain_queue bs (acc, e) =
     (acc @ concat (map (eb_queue e) bs), e\<lparr>eb_queue := (\<lambda>b. if b \<in> set bs then [] else eb_queue e b)\<rparr>)"
proof (induction bs arbitrary: acc e)
  case (Cons b bs)
  have "map (\<lambda>x. if x = b then [] else eb_queue e x) bs = map (eb_queue e) bs" using Cons.prems by (auto simp: map_eq_conv)
  then have "map ((eb_queue e)(b := [])) bs = map (eb_queue e) bs" by (simp add: fun_upd_def)
  then show ?case using Cons.IH[of "acc @ eb_queue e b" "clear_queue b e"] Cons.prems
    by (simp add: drain_queue_def) (auto simp: clear_queue_def fun_eq_iff)
qed simp

theorem epoch_buffer_loses_nothing_witness:
  "epoch_steps EpochSys_init sample_sys \<and> valid_broker 0 \<and> ey_pushed sample_sys 0 = [7] \<and>
   ey_pushed sample_sys 0 = concat (map (\<lambda>f. f 0) (ey_epochs sample_sys)) @ ey_taken sample_sys 0 @ eb_queue (ey_buf sample_sys) 0"
proof -
  let ?s1 = "EpochSys_init\<lparr>ey_buf := snd (reset_and_start EpochBuffer5_init), ey_reset := 0\<rparr> :: nat EpochSys"
  have v: "valid_broker 0" by (simp add: valid_broker_def NUM_MAX_BROKERS_def)
  have a: "epoch_steps EpochSys_init ?s1" using steps_reset[of "EpochSys_init :: nat EpochSys"] by (simp add: EpochSys_init_def EpochBuffer5_init_def)
  have e: "enter_collection 0 (ey_buf ?s1) = (True, snd (enter_collection 0 (ey_buf ?s1)))"
    using v by (simp add: enter_collection_def reset_and_start_def EpochBuffer5_init_def Let_def)
  have "epoch_steps ?s1 sample_sys"
    using steps_push[OF _ e, of 7] by (simp add: sample_sys_def Let_def EpochSys_init_def)
  with a have r: "epoch_steps EpochSys_init sample_sys" by (rule rtranclp_trans)
  have "ey_pushed sample_sys 0 = [7]" by (simp add: sample_sys_def Let_def)
  then show ?thesis using epoch_buffer_loses_nothing[OF r v] r v by simp
qed

lemma extract_all:
  "eb_state e = SEALED \<Longrightarrow> \<not> collectors_active e \<Longrightarrow> extract_epoch e =
     Some (concat (map (eb_queue e) broker_ids), e\<lparr>eb_queue := (\<lambda>b. if valid_broker b then [] else eb_queue e b), eb_state := IDLE\<rparr>)"
  by (simp add: extract_epoch_def drain_queue_all[OF broker_ids_distinct] set_broker_ids)

end
