(* ===== verification/EpochPipeline.thy ===== *)
theory EpochPipeline
  imports EpochBuffer
begin

text \<open>
  The three epoch buffers and the threads that rotate them: the retry loops with which a scanner
  pushes a batch or a skip marker and its early seal (\<open>BrokerScannerWorker5\<close>), one attempt of the epoch driver
  (\<open>EpochDriverThread\<close>), and the nudge a disconnect gives (\<open>RequestOrder5HoldExpiryOnce\<close>).  Epoch \<open>n\<close> uses
  buffer \<open>n mod 3\<close>.
\<close>

record 'a EpochPipe =
  ep_index :: nat
  ep_last :: nat
  ep_buf :: "nat \<Rightarrow> 'a EpochBuffer5"

definition buf_at :: "'a EpochPipe \<Rightarrow> nat \<Rightarrow> 'a EpochBuffer5" where
  "buf_at p n = ep_buf p (n mod 3)"

definition set_buf :: "nat \<Rightarrow> 'a EpochBuffer5 \<Rightarrow> 'a EpochPipe \<Rightarrow> 'a EpochPipe" where
  "set_buf n e p = p\<lparr>ep_buf := (ep_buf p)(n mod 3 := e)\<rparr>"

abbreviation phase :: "'a EpochPipe \<Rightarrow> nat \<Rightarrow> EpochPhase" where "phase p n \<equiv> eb_state (buf_at p n)"

definition EpochPipe_init :: "'a EpochPipe" where
  "EpochPipe_init = set_buf 0 (snd (reset_and_start EpochBuffer5_init)) \<lparr>ep_index = 0, ep_last = 0, ep_buf = (\<lambda>_. EpochBuffer5_init)\<rparr>"

definition restart :: "nat \<Rightarrow> 'a EpochPipe \<Rightarrow> bool \<times> 'a EpochPipe" where
  "restart n p = (case reset_and_start (buf_at p n) of (ok, e) \<Rightarrow> (ok, set_buf n e p))"

definition stamp_start :: "nat \<Rightarrow> nat \<Rightarrow> 'a EpochPipe \<Rightarrow> 'a EpochPipe" where
  "stamp_start n now p = set_buf n ((buf_at p n)\<lparr>eb_start_ns := now\<rparr>) p"

definition seal_at :: "nat \<Rightarrow> 'a EpochPipe \<Rightarrow> bool \<times> 'a EpochPipe" where
  "seal_at n p = (case seal (buf_at p n) of (ok, e) \<Rightarrow> (ok, set_buf n e p))"

definition cas_index :: "nat \<Rightarrow> nat \<Rightarrow> 'a EpochPipe \<Rightarrow> 'a EpochPipe" where
  "cas_index expected new p = (if ep_index p = expected then p\<lparr>ep_index := new\<rparr> else p)"

subsection \<open>Scanner\<close>

definition scan_push :: "int \<Rightarrow> 'a \<Rightarrow> nat \<Rightarrow> 'a EpochPipe \<Rightarrow> bool \<times> 'a EpochPipe" where
  "scan_push b x n p = (case enter_collection b (buf_at p n) of
     (ok, e) \<Rightarrow> if ok then (True, set_buf n (exit_collection b (push_back b x e)) p) else (False, p))"

definition push_once :: "int \<Rightarrow> 'a \<Rightarrow> 'a EpochPipe \<Rightarrow> bool \<times> 'a EpochPipe" where
  "push_once b x p = (let epoch = ep_index p in case scan_push b x epoch p of
     (ok, p1) \<Rightarrow> if ok then (True, p1) else scan_push b x (u64 (epoch + 1)) p1)"

text \<open>The recovery of the retry loop: an idle current buffer is restarted; if the current one is sealed and the sequencer
  has caught up, the first idle one of its two successors is, and the index moves there.\<close>

definition recover_step :: "nat \<Rightarrow> nat \<Rightarrow> 'a EpochPipe \<Rightarrow> bool \<times> 'a EpochPipe" where
  "recover_step cur_epoch stp p =
     (let cand_epoch = u64 (cur_epoch + stp)
      in if phase p cand_epoch \<noteq> IDLE then (False, p)
         else case restart cand_epoch p of
           (ok, p1) \<Rightarrow> if \<not> ok then (False, p1) else (True, cas_index cur_epoch cand_epoch p1))"

definition push_recover :: "'a EpochPipe \<Rightarrow> 'a EpochPipe" where
  "push_recover p =
     (let cur_epoch = ep_index p
      in if phase p cur_epoch = IDLE then snd (restart cur_epoch p)
         else if phase p cur_epoch = SEALED
         then (if ep_last p < cur_epoch then p
               else case recover_step cur_epoch 1 p of
                      (moved, p1) \<Rightarrow> if moved then p1 else snd (recover_step cur_epoch 2 p1))
         else p)"

definition kMaxRetries :: nat where "kMaxRetries = 10000"

primrec push_loop :: "nat \<Rightarrow> int \<Rightarrow> 'a \<Rightarrow> 'a EpochPipe \<Rightarrow> bool \<times> 'a EpochPipe" where
  "push_loop 0 b x p = (False, p)"
| "push_loop (Suc n) b x p =
     (case push_once b x p of
        (ok, p1) \<Rightarrow> if ok then (True, p1)
          else push_loop n b x (if (kMaxRetries - Suc n) mod 256 = 0 then push_recover p1 else p1))"

definition push_pending :: "int \<Rightarrow> 'a \<Rightarrow> 'a EpochPipe \<Rightarrow> bool \<times> 'a EpochPipe" where
  "push_pending b x p = push_loop kMaxRetries b x p"

text \<open>Skip markers are pushed with the same loop, but its recovery only restarts an idle current
  buffer.\<close>

definition skip_recover :: "'a EpochPipe \<Rightarrow> 'a EpochPipe" where
  "skip_recover p = (if phase p (ep_index p) = IDLE then snd (restart (ep_index p) p) else p)"

primrec skip_loop :: "nat \<Rightarrow> int \<Rightarrow> 'a \<Rightarrow> 'a EpochPipe \<Rightarrow> bool \<times> 'a EpochPipe" where
  "skip_loop 0 b x p = (False, p)"
| "skip_loop (Suc n) b x p =
     (case push_once b x p of
        (ok, p1) \<Rightarrow> if ok then (True, p1)
          else skip_loop n b x (if (kMaxRetries - Suc n) mod 256 = 0 then skip_recover p1 else p1))"

definition kFastSealFloorNs :: nat where "kFastSealFloorNs = 50000"

definition fast_seal :: "bool \<Rightarrow> nat \<Rightarrow> 'a EpochPipe \<Rightarrow> bool \<times> 'a EpochPipe" where
  "fast_seal steady now p =
     (if \<not> steady then (False, p)
      else let pushed_epoch = ep_index p;
               start_ns = eb_start_ns (buf_at p pushed_epoch);
               age_ns = (if start_ns > 0 then sub64 now start_ns else 0)
           in if age_ns \<ge> kFastSealFloorNs \<and> phase p pushed_epoch = COLLECTING
              then (case seal_at pushed_epoch p of
                (ok, p1) \<Rightarrow> if \<not> ok then (False, p1)
                  else let next_epoch = u64 (pushed_epoch + 1);
                           p2 = (if phase p1 next_epoch = IDLE then snd (restart next_epoch (stamp_start next_epoch now p1)) else p1)
                       in (True, cas_index pushed_epoch next_epoch p2))
              else (False, p))"

subsection \<open>Epoch driver\<close>

text \<open>One attempt of the driver: it either finishes the epoch, retries, or has sealed the current
  buffer and waits for its successor.\<close>

datatype DriverPc = Attempt | AwaitSuccessor nat | EpochDone

definition await_successor :: "nat \<Rightarrow> nat \<Rightarrow> 'a EpochPipe \<Rightarrow> DriverPc \<times> 'a EpochPipe" where
  "await_successor now nxt p =
     (if phase p nxt = SEALED \<or> phase p nxt = COLLECTING then (EpochDone, p\<lparr>ep_index := nxt\<rparr>)
      else if phase p nxt = IDLE
      then (case restart nxt p of
              (ok, p1) \<Rightarrow> if \<not> ok then (AwaitSuccessor nxt, p1) else (EpochDone, (stamp_start nxt now p1)\<lparr>ep_index := nxt\<rparr>))
      else (AwaitSuccessor nxt, p))"

definition driver_seal :: "nat \<Rightarrow> nat \<Rightarrow> 'a EpochPipe \<Rightarrow> DriverPc \<times> 'a EpochPipe" where
  "driver_seal now cur p = (case seal_at cur p of
     (ok, p1) \<Rightarrow> if ok then await_successor now (u64 (cur + 1)) p1 else (Attempt, p1))"

definition driver_sealed :: "nat \<Rightarrow> nat \<Rightarrow> EpochPhase \<Rightarrow> 'a EpochPipe \<Rightarrow> DriverPc \<times> 'a EpochPipe" where
  "driver_sealed now cur cur_state p =
     (if cur_state = SEALED
      then (let nxt = u64 (cur + 1); next_state = phase p nxt
            in if next_state = SEALED \<and> ep_last p \<ge> cur then (EpochDone, p\<lparr>ep_index := nxt\<rparr>)
               else if next_state = COLLECTING then (EpochDone, p\<lparr>ep_index := nxt\<rparr>)
               else if next_state = IDLE \<and> ep_last p \<ge> cur
               then (case restart nxt p of (ok, p1) \<Rightarrow> if \<not> ok then (Attempt, p1) else (EpochDone, p1\<lparr>ep_index := nxt\<rparr>))
               else driver_seal now cur p)
      else driver_seal now cur p)"

definition driver_attempt :: "nat \<Rightarrow> 'a EpochPipe \<Rightarrow> DriverPc \<times> 'a EpochPipe" where
  "driver_attempt now p =
     (let cur = ep_index p; cur_state = phase p cur
      in if cur_state = IDLE
         then (case restart cur p of
                 (ok, p1) \<Rightarrow> if ok then (EpochDone, p1)
                   else if phase p1 cur = COLLECTING then (EpochDone, p1) else driver_sealed now cur (phase p1 cur) p1)
         else driver_sealed now cur cur_state p)"

primrec driver_step :: "nat \<Rightarrow> DriverPc \<Rightarrow> 'a EpochPipe \<Rightarrow> DriverPc \<times> 'a EpochPipe" where
  "driver_step now Attempt p = driver_attempt now p"
| "driver_step now (AwaitSuccessor nxt) p = await_successor now nxt p"
| "driver_step now EpochDone p = (EpochDone, p)"

subsection \<open>Disconnect\<close>

definition advance_to_successor_epoch :: "nat \<Rightarrow> 'a EpochPipe \<Rightarrow> 'a EpochPipe" where
  "advance_to_successor_epoch base_epoch p =
     (let next_epoch = u64 (base_epoch + 1);
          p1 = (if phase p next_epoch = IDLE then snd (restart next_epoch p) else p);
          next_state = phase p1 next_epoch
      in if next_state = COLLECTING \<or> next_state = SEALED then cas_index base_epoch next_epoch p1 else p1)"

definition disconnect_nudge :: "'a EpochPipe \<Rightarrow> 'a EpochPipe" where
  "disconnect_nudge p =
     (let cur_epoch = ep_index p; cur_state = phase p cur_epoch
      in if cur_state = IDLE
         then (case restart cur_epoch p of
                 (ok, p1) \<Rightarrow> if \<not> ok then p1
                   else (case seal_at cur_epoch p1 of (sealed, p2) \<Rightarrow> if sealed then advance_to_successor_epoch cur_epoch p2 else p2))
         else if cur_state = SEALED then advance_to_successor_epoch cur_epoch p
         else if cur_state = COLLECTING
         then (case seal_at cur_epoch p of (sealed, p1) \<Rightarrow> if sealed then advance_to_successor_epoch cur_epoch p1 else p1)
         else p)"

subsection \<open>Sequencer\<close>

text \<open>The sequencer takes the oldest epoch not yet sequenced: nothing while it has caught up with the index or the buffer is not
  extractable.\<close>

definition take_epoch :: "'a EpochPipe \<Rightarrow> ('a list \<times> 'a EpochPipe) option" where
  "take_epoch p =
     (if ep_last p \<ge> ep_index p then None
      else case extract_epoch (buf_at p (ep_last p)) of
             None \<Rightarrow> None
           | Some (batch_list, e) \<Rightarrow> Some (batch_list, (set_buf (ep_last p) e p)\<lparr>ep_last := u64 (ep_last p + 1)\<rparr>))"

text \<open>The shutdown loop also takes the current epoch once it is sealed.\<close>

definition drain_epoch :: "'a EpochPipe \<Rightarrow> ('a list \<times> 'a EpochPipe) option" where
  "drain_epoch p =
     (if \<not> CanDrainAt (ep_last p) (ep_index p) (buf_at p (ep_index p)) then None
      else case extract_epoch (buf_at p (ep_last p)) of
             None \<Rightarrow> None
           | Some (batch_list, e) \<Rightarrow> Some (batch_list, (set_buf (ep_last p) e p)\<lparr>ep_last := u64 (ep_last p + 1)\<rparr>))"


subsection \<open>Pushing\<close>

definition waiting :: "'a EpochPipe \<Rightarrow> nat \<Rightarrow> int \<Rightarrow> 'a list" where
  "waiting p m c = eb_queue (ep_buf p m) c"

text \<open>Idle buffers are empty (every extraction leaves them so).\<close>

definition idle_empty :: "'a EpochPipe \<Rightarrow> bool" where
  "idle_empty p \<longleftrightarrow> (\<forall>m<3. eb_state (ep_buf p m) = IDLE \<longrightarrow> (\<forall>c. valid_broker c \<longrightarrow> waiting p m c = []))"

definition same_waiting :: "'a EpochPipe \<Rightarrow> 'a EpochPipe \<Rightarrow> bool" where
  "same_waiting p p' \<longleftrightarrow> (\<forall>m<3. \<forall>c. valid_broker c \<longrightarrow> waiting p' m c = waiting p m c)"

lemma same_waiting_refl [simp]: "same_waiting p p"
  by (simp add: same_waiting_def)

lemma same_waiting_trans: "same_waiting p p' \<Longrightarrow> same_waiting p' p'' \<Longrightarrow> same_waiting p p''"
  by (simp add: same_waiting_def)

lemma ep_buf_set [simp]: "ep_buf (set_buf n e p) = (ep_buf p)(n mod 3 := e)" "ep_index (set_buf n e p) = ep_index p"
  "ep_last (set_buf n e p) = ep_last p" "buf_at (set_buf n e p) n = e"
  by (simp_all add: set_buf_def buf_at_def)

lemma reset_result:
  "reset_and_start e = (if eb_state e = IDLE then (True, e\<lparr>eb_state := COLLECTING, eb_queue := (\<lambda>b. if valid_broker b then [] else eb_queue e b),
      eb_active := (\<lambda>b. \<not> valid_broker b \<and> eb_active e b)\<rparr>) else (False, e))"
  by (cases e) (auto simp: reset_and_start_def set_broker_ids Let_def fun_eq_iff)

lemma restart_spec:
  "fst (restart n p) = (phase p n = IDLE)" "ep_index (snd (restart n p)) = ep_index p" "ep_last (snd (restart n p)) = ep_last p"
  "phase (snd (restart n p)) k = (if k mod 3 = n mod 3 \<and> phase p n = IDLE then COLLECTING else phase p k)"
  by (auto simp: restart_def reset_result buf_at_def split: prod.split)

lemma restart_waiting:
  assumes "idle_empty p"
  shows "same_waiting p (snd (restart n p)) \<and> idle_empty (snd (restart n p))"
proof -
  have "n mod 3 < 3" by simp
  then have "phase p n = IDLE \<longrightarrow> (\<forall>c. valid_broker c \<longrightarrow> waiting p (n mod 3) c = [])" using assms unfolding idle_empty_def buf_at_def by blast
  then show ?thesis using assms by (auto simp: restart_def reset_result same_waiting_def idle_empty_def waiting_def buf_at_def)
qed

lemma cas_index_spec [simp]: "ep_buf (cas_index a b p) = ep_buf p" "ep_last (cas_index a b p) = ep_last p"
  "ep_index (cas_index a b p) = (if ep_index p = a then b else ep_index p)" "buf_at (cas_index a b p) = buf_at p"
  by (simp_all add: cas_index_def buf_at_def fun_eq_iff)

lemma cas_index_waiting [simp]: "same_waiting p (cas_index a b q) = same_waiting p q" "idle_empty (cas_index a b q) = idle_empty q"
  by (simp_all add: same_waiting_def idle_empty_def waiting_def)

lemma recover_step_eq: "recover_step cur stp p =
   (if phase p (u64 (cur + stp)) = IDLE then (True, cas_index cur (u64 (cur + stp)) (snd (restart (u64 (cur + stp)) p))) else (False, p))"
  using restart_spec(1)[of "u64 (cur + stp)" p] by (auto simp: recover_step_def Let_def split: prod.split)

lemma push_recover_waiting: "idle_empty p \<Longrightarrow> same_waiting p (push_recover p) \<and> idle_empty (push_recover p)"
  by (simp add: push_recover_def recover_step_eq Let_def restart_waiting)

lemma skip_recover_waiting: "idle_empty p \<Longrightarrow> same_waiting p (skip_recover p) \<and> idle_empty (skip_recover p)"
  by (simp add: skip_recover_def restart_waiting)

text \<open>One copy of \<open>x\<close> at the end of one collecting buffer's queue for broker \<open>b\<close>, or nothing at all.\<close>

definition pushed_once :: "int \<Rightarrow> 'a \<Rightarrow> bool \<Rightarrow> 'a EpochPipe \<Rightarrow> 'a EpochPipe \<Rightarrow> bool" where
  "pushed_once b x ok p p' \<longleftrightarrow>
     (if ok then \<exists>n<3. eb_state (ep_buf p' n) = COLLECTING \<and>
               (\<forall>m<3. \<forall>c. valid_broker c \<longrightarrow> waiting p' m c = waiting p m c @ (if m = n \<and> c = b then [x] else []))
      else same_waiting p p')"

lemma pushed_once_trans: "same_waiting p p' \<Longrightarrow> pushed_once b x ok p' p'' \<Longrightarrow> pushed_once b x ok p p''"
  by (cases ok) (simp_all add: pushed_once_def same_waiting_def split del: if_split)

lemma scan_push_spec:
  assumes "scan_push b x n p = (ok, p')"
  shows "ok = (valid_broker b \<and> phase p n = COLLECTING) \<and> pushed_once b x ok p p' \<and> (\<not> ok \<longrightarrow> p' = p)"
proof (cases "valid_broker b \<and> phase p n = COLLECTING")
  case True
  let ?e = "(buf_at p n)\<lparr>eb_queue := (eb_queue (buf_at p n))(b := eb_queue (buf_at p n) b @ [x]), eb_active := (eb_active (buf_at p n))(b := False)\<rparr>"
  have r: "ok" "p' = set_buf n ?e p" using assms True by (auto simp: scan_push_def enter_collection_def exit_collection_def push_back_def)
  have "pushed_once b x True p p'"
    unfolding pushed_once_def r(2) if_True
    by (intro exI[of _ "n mod 3"]) (use True in \<open>auto simp: waiting_def buf_at_def\<close>)
  then show ?thesis using r(1) True by simp
next
  case False
  then have "enter_collection b (buf_at p n) = (False, buf_at p n)" by (auto simp: enter_collection_def)
  then have "ok = False" "p' = p" using assms by (auto simp: scan_push_def)
  then show ?thesis using False by (simp add: pushed_once_def)
qed

lemma push_once_spec:
  assumes "push_once b x p = (ok, p')"
  shows "ok = (valid_broker b \<and> (phase p (ep_index p) = COLLECTING \<or> phase p (u64 (ep_index p + 1)) = COLLECTING)) \<and>
     pushed_once b x ok p p' \<and> (\<not> ok \<longrightarrow> p' = p)"
proof -
  obtain ok1 p1 where 1: "scan_push b x (ep_index p) p = (ok1, p1)" by fastforce
  obtain ok2 p2 where 2: "scan_push b x (u64 (ep_index p + 1)) p = (ok2, p2)" by fastforce
  note s1 = scan_push_spec[OF 1] and s2 = scan_push_spec[OF 2]
  show ?thesis
  proof (cases ok1)
    case True
    then show ?thesis using assms 1 s1 by (auto simp: push_once_def Let_def)
  next
    case False
    then have "ok = ok2" "p' = p2" using assms 1 2 s1 by (auto simp: push_once_def Let_def)
    then show ?thesis using s1 s2 False by auto
  qed
qed

lemma push_loop_once: "idle_empty p \<Longrightarrow> push_loop n b x p = (ok, p') \<Longrightarrow> pushed_once b x ok p p'"
proof (induction n arbitrary: p)
  case (Suc n)
  obtain ok1 p1 where 1: "push_once b x p = (ok1, p1)" by fastforce
  note s = push_once_spec[OF 1]
  define q where "q = (if (kMaxRetries - Suc n) mod 256 = 0 then push_recover p1 else p1)"
  show ?case
  proof (cases ok1)
    case True
    then show ?thesis using Suc.prems 1 s by auto
  next
    case False
    then have "p1 = p" using s by simp
    then have q: "same_waiting p q" "idle_empty q" using push_recover_waiting[OF Suc.prems(1)] Suc.prems(1) by (simp_all add: q_def)
    have "push_loop n b x q = (ok, p')" using Suc.prems(2) 1 False by (simp add: q_def)
    from Suc.IH[OF q(2) this] show ?thesis by (rule pushed_once_trans[OF q(1)])
  qed
qed (simp add: pushed_once_def)


text \<open>When the loop cannot fail: a collecting buffer at the index or behind it, an idle one at the index, or a sealed one
  the sequencer has caught up with and an idle one among the other two.\<close>

definition push_possible :: "'a EpochPipe \<Rightarrow> bool" where
  "push_possible p \<longleftrightarrow>
     (let cur = ep_index p
      in phase p cur \<in> {COLLECTING, IDLE} \<or> phase p (u64 (cur + 1)) = COLLECTING \<or>
         phase p cur = SEALED \<and> cur \<le> ep_last p \<and> (phase p (u64 (cur + 1)) = IDLE \<or> phase p (u64 (cur + 2)) = IDLE))"

lemma push_recover_collects:
  assumes "push_possible p" "phase p (ep_index p) \<noteq> COLLECTING" "phase p (u64 (ep_index p + 1)) \<noteq> COLLECTING"
  shows "phase (push_recover p) (ep_index (push_recover p)) = COLLECTING"
  using assms by (auto simp: push_possible_def push_recover_def recover_step_eq Let_def restart_spec)

lemma push_pending_succeeds:
  assumes "push_possible p" "valid_broker b"
  shows "fst (push_pending b x p)"
proof -
  obtain ok1 p1 where 1: "push_once b x p = (ok1, p1)" by fastforce
  obtain ok2 p2 where 2: "push_once b x (push_recover p) = (ok2, p2)" by fastforce
  note s1 = push_once_spec[OF 1] and s2 = push_once_spec[OF 2]
  obtain n where k: "kMaxRetries = Suc (Suc n)" using that[of 9998] by (simp add: kMaxRetries_def)
  have "push_pending b x p = (if ok1 then (True, p1) else push_loop (Suc n) b x (push_recover p1))"
    unfolding push_pending_def k push_loop.simps(2)[of "Suc n"] 1 by (simp add: k del: push_loop.simps)
  then have "push_pending b x p = (if ok1 then (True, p1) else push_loop (Suc n) b x (push_recover p))" using s1 by auto
  moreover have "\<not> ok1 \<Longrightarrow> ok2" using push_recover_collects[OF assms(1)] s1 s2 assms(2) by auto
  moreover have "push_loop (Suc n) b x (push_recover p) = (True, p2)" if "ok2" using 2 that by simp
  ultimately show ?thesis by auto
qed

subsection \<open>Rotation\<close>

text \<open>The state between two epochs when no scanner is inside: the sequencer has caught up, the current
  buffer collects and its successor is free.\<close>

definition pipe_ready :: "'a EpochPipe \<Rightarrow> bool" where
  "pipe_ready p \<longleftrightarrow> ep_last p = ep_index p \<and> phase p (ep_index p) = COLLECTING \<and> phase p (ep_index p + 1) = IDLE \<and>
     phase p (ep_index p + 2) = IDLE \<and> (\<forall>m<3. \<not> collectors_active (ep_buf p m)) \<and> idle_empty p"

lemma mod3: "(n + 1) mod 3 \<noteq> n mod 3" "(n + 2) mod 3 \<noteq> n mod 3" "(n + 2) mod 3 \<noteq> (n + 1) mod 3" "(n + 3) mod 3 = n mod 3" for n :: nat
  by presburger+

lemma rotation:
  assumes "pipe_ready p" "ep_index p < UINT64_MAX"
  shows "\<exists>p1 p2. driver_step now Attempt p = (EpochDone, p1) \<and>
     take_epoch p1 = Some (concat (map (waiting p (ep_index p mod 3)) broker_ids), p2) \<and>
     pipe_ready p2 \<and> ep_index p2 = ep_index p + 1 \<and> (\<forall>b. valid_broker b \<longrightarrow> waiting p2 (ep_index p2 mod 3) b = [])"
proof -
  let ?c = "ep_index p" let ?e = "buf_at p ?c"
  define d where "d = ?c + 1"
  let ?f = "buf_at p d"
  have u: "u64 (Suc ?c) = d" using assms(2) by (simp add: d_def)
  have dm: "d mod 3 \<noteq> ?c mod 3" "Suc ?c = d" using mod3(1)[of ?c] by (simp_all add: d_def)
  have r: "ep_last p = ?c" "eb_state ?e = COLLECTING" "eb_state ?f = IDLE" "phase p (?c + 2) = IDLE" "idle_empty p"
    using assms(1) by (simp_all add: pipe_ready_def d_def)
  have a: "\<not> collectors_active (ep_buf p m)" if "m < 3" for m using assms(1) that by (simp add: pipe_ready_def)
  have ae: "\<not> collectors_active ?e" using a[of "?c mod 3"] by (simp add: buf_at_def)
  have sl: "seal ?e = (True, ?e\<lparr>eb_state := SEALED\<rparr>)"
    using r(2) ae by (simp add: seal_def seal_begin_def seal_end_def collectors_active_def Let_def)
  define e1 where "e1 = ?e\<lparr>eb_state := SEALED\<rparr>"
  define f1 where "f1 = (snd (reset_and_start ?f))\<lparr>eb_start_ns := now\<rparr>"
  define p1 where "p1 = (set_buf d f1 (set_buf ?c e1 p))\<lparr>ep_index := d\<rparr>"
  have s1: "seal_at ?c p = (True, set_buf ?c e1 p)" by (simp add: seal_at_def sl e1_def)
  have b1: "buf_at (set_buf ?c e1 p) d = ?f" using dm by (simp add: buf_at_def)
  have rs: "restart d (set_buf ?c e1 p) = (True, set_buf d (snd (reset_and_start ?f)) (set_buf ?c e1 p))"
    using r(3) by (simp add: restart_def b1 reset_result)
  have st: "stamp_start d now (set_buf d (snd (reset_and_start ?f)) (set_buf ?c e1 p)) = set_buf d f1 (set_buf ?c e1 p)"
    by (simp add: stamp_start_def f1_def set_buf_def buf_at_def)
  have dr: "driver_step now Attempt p = (EpochDone, p1)"
    using r(2,3) by (simp add: driver_attempt_def driver_sealed_def driver_seal_def s1 u await_successor_def b1 rs st p1_def Let_def)
  have q1: "buf_at p1 ?c = e1" "buf_at p1 d = f1" using dm by (simp_all add: p1_def buf_at_def)
  define e2 where "e2 = e1\<lparr>eb_queue := (\<lambda>b. if valid_broker b then [] else eb_queue e1 b), eb_state := IDLE\<rparr>"
  define p2 where "p2 = (set_buf ?c e2 p1)\<lparr>ep_last := d\<rparr>"
  have ex: "extract_epoch e1 = Some (concat (map (eb_queue e1) broker_ids), e2)"
    unfolding e2_def by (rule extract_all) (use ae in \<open>simp_all add: e1_def collectors_active_def\<close>)
  have tk: "take_epoch p1 = Some (concat (map (waiting p (?c mod 3)) broker_ids), p2)"
  proof -
    have "ep_last p1 = ?c" "ep_index p1 = d" using r(1) by (simp_all add: p1_def)
    moreover have "eb_queue e1 = waiting p (?c mod 3)" by (simp add: e1_def waiting_def buf_at_def fun_eq_iff)
    moreover have "?c < d" by (simp add: d_def)
    ultimately show ?thesis by (simp add: take_epoch_def q1 ex u p2_def)
  qed
  have bufs: "ep_buf p2 = (ep_buf p)(?c mod 3 := e2, d mod 3 := f1)"
    using dm by (simp add: p2_def p1_def fun_upd_twist)
  have i2: "ep_index p2 = d" "ep_last p2 = d" by (simp_all add: p2_def p1_def)
  have f1: "eb_state f1 = COLLECTING" "\<forall>b. valid_broker b \<longrightarrow> eb_queue f1 b = []" "\<not> collectors_active f1"
    using r(3) by (simp_all add: f1_def reset_result collectors_inactive)
  have e2: "eb_state e2 = IDLE" "\<forall>b. valid_broker b \<longrightarrow> eb_queue e2 b = []" "\<not> collectors_active e2"
    using ae by (simp_all add: e2_def e1_def collectors_inactive)
  have "pipe_ready p2" unfolding pipe_ready_def
  proof (intro conjI allI impI)
    show "ep_last p2 = ep_index p2" using i2 by simp
    show "phase p2 (ep_index p2) = COLLECTING" using f1(1) by (simp add: i2 buf_at_def bufs)
    show "phase p2 (ep_index p2 + 1) = IDLE" using r(4) mod3(2,3)[of ?c] by (simp add: i2 buf_at_def bufs d_def)
    show "phase p2 (ep_index p2 + 2) = IDLE" using e2(1) mod3(1,4)[of ?c] dm(1) by (simp add: i2 buf_at_def bufs d_def)
    show "\<not> collectors_active (ep_buf p2 m)" if "m < 3" for m using a[OF that] f1(3) e2(3) by (simp add: bufs)
    show "idle_empty p2" using r(5) f1(1) e2(2) by (auto simp: idle_empty_def waiting_def bufs)
  qed
  moreover have "\<forall>b. valid_broker b \<longrightarrow> waiting p2 (ep_index p2 mod 3) b = []" using f1(2) by (simp add: i2 waiting_def bufs)
  ultimately show ?thesis using dr tk i2(1) unfolding d_def by blast
qed


subsection \<open>Properties\<close>

lemma pipe_ready_init: "pipe_ready (EpochPipe_init :: 'a EpochPipe)"
  by (auto simp: pipe_ready_def EpochPipe_init_def buf_at_def set_buf_def reset_result EpochBuffer5_init_def idle_empty_def waiting_def
      collectors_inactive)

lemma pipe_ready_push: "pipe_ready p \<Longrightarrow> push_possible p \<and> idle_empty p"
  by (simp add: pipe_ready_def push_possible_def Let_def)

text \<open>C17: a scanner's push puts the batch at the end of its broker's queue in exactly one collecting
  buffer, or nowhere when it reports failure; no other queue changes, also when the loop
  restarts buffers on its way.  It cannot fail while a buffer collects at the index or just behind it, the buffer at the index is idle,
  or it is sealed, the sequencer has caught up and one of the others is idle.\<close>

theorem scanner_pushes_once:
  assumes "idle_empty p" "valid_broker b"
  shows "pushed_once b x (fst (push_pending b x p)) p (snd (push_pending b x p)) \<and> (push_possible p \<longrightarrow> fst (push_pending b x p))"
  using push_loop_once[OF assms(1), of kMaxRetries b x] push_pending_succeeds[OF _ assms(2), of p x]
  by (auto simp: push_pending_def)

theorem scanner_pushes_once_witness:
  "idle_empty (EpochPipe_init :: nat EpochPipe) \<and> valid_broker 0 \<and>
   pushed_once 0 7 True (EpochPipe_init :: nat EpochPipe) (snd (push_pending 0 7 EpochPipe_init))"
proof -
  have v: "valid_broker 0" by (simp add: valid_broker_def NUM_MAX_BROKERS_def)
  note r = pipe_ready_push[OF pipe_ready_init[where 'a = nat]]
  show ?thesis using scanner_pushes_once[OF _ v, of "EpochPipe_init :: nat EpochPipe" 7] r v by (auto simp: eq_commute)
qed

text \<open>C16: the rotation never gets stuck.  When the sequencer has caught up, the current buffer
  collects, the other two are idle and no scanner is inside, one attempt of the driver seals the epoch
  and opens the next, the sequencer then takes exactly what was waiting, in broker order, and the pipeline is in the same
  situation one epoch later, with an empty collecting buffer.\<close>

theorem epoch_rotation_live:
  assumes "pipe_ready p" "ep_index p < UINT64_MAX"
  shows "\<exists>p1 p2. driver_step now Attempt p = (EpochDone, p1) \<and>
     take_epoch p1 = Some (concat (map (waiting p (ep_index p mod 3)) broker_ids), p2) \<and>
     pipe_ready p2 \<and> ep_index p2 = ep_index p + 1 \<and> (\<forall>b. valid_broker b \<longrightarrow> waiting p2 (ep_index p2 mod 3) b = [])"
  by (rule rotation[OF assms])

theorem epoch_rotation_live_witness:
  "pipe_ready (EpochPipe_init :: nat EpochPipe) \<and> ep_index (EpochPipe_init :: nat EpochPipe) < UINT64_MAX \<and>
   (\<exists>p1 p2. driver_step 5 Attempt (EpochPipe_init :: nat EpochPipe) = (EpochDone, p1) \<and> take_epoch p1 = Some ([], p2) \<and> pipe_ready p2 \<and> ep_index p2 = 1)"
proof -
  have i: "ep_index (EpochPipe_init :: nat EpochPipe) = 0" by (simp add: EpochPipe_init_def)
  then have u: "ep_index (EpochPipe_init :: nat EpochPipe) < UINT64_MAX" by (simp add: UINT64_MAX_def)
  have "waiting (EpochPipe_init :: nat EpochPipe) 0 = (\<lambda>_. [])"
    by (simp add: waiting_def EpochPipe_init_def set_buf_def reset_result EpochBuffer5_init_def fun_eq_iff)
  moreover have "concat (map (\<lambda>_. []) broker_ids) = ([] :: nat list)" by (simp add: concat_eq_Nil_conv)
  ultimately show ?thesis using epoch_rotation_live[OF pipe_ready_init u, of 5] pipe_ready_init[where 'a = nat] u i by auto
qed

end
