(* ===== verification/EpochRun.thy ===== *)
theory EpochRun
  imports Level5Types EpochPipeline
begin

text \<open>
  The epoch sequencer thread (\<open>EpochSequencerThread\<close>, \<open>topic_order5_epoch.cc\<close>): what it does with an epoch it has
  extracted, in normal operation and while draining at shutdown, the tick that ages the hold buffer when no epoch
  is sealed, and the last pass before it exits.  Each of them classifies, merges and commits; the theorem at the end follows a
  session through any sequence of them into the global order index.
\<close>

subsection \<open>State\<close>

text \<open>What the thread and the topic share: the shards, the accumulators that survive an epoch,
  the topic, the steady-state flag, the skip counters, the tracking of stalled brokers,
  and whether the thread has returned.  \<open>sq_log\<close> records the batches committed, in order.\<close>

record IdleTrack =
  it_tick_ns :: nat
  it_pushed :: "int \<Rightarrow> nat"
  it_committed :: "int \<Rightarrow> nat"
  it_progress_ns :: "int \<Rightarrow> nat"

record SeqState =
  sq_shards :: "Level5ShardState list"
  sq_ctx :: CommitCtx
  sq_tp :: Topic
  sq_steady :: bool
  sq_skipped :: nat
  sq_stale :: nat
  sq_idle :: IdleTrack
  sq_returned :: bool
  sq_log :: "PendingBatch5 list"

subsection \<open>Parts of an epoch\<close>

definition kMaxEpochAge :: nat where "kMaxEpochAge = 2000"

text \<open>The age is the difference of the 16-bit epochs; batches already marked keep their mark.\<close>

definition stale_batch :: "nat \<Rightarrow> PendingBatch5 \<Rightarrow> bool" where
  "stale_batch current_epoch p \<longleftrightarrow>
     \<not> pb_skipped p \<and> (current_epoch mod 65536 + 65536 - pb_epoch_created p mod 65536) mod 65536 > kMaxEpochAge"

definition mark_stale :: "nat \<Rightarrow> PendingBatch5 \<Rightarrow> PendingBatch5" where
  "mark_stale current_epoch p = (if stale_batch current_epoch p then p\<lparr>pb_skipped := True\<rparr> else p)"

definition brokers_seen :: "PendingBatch5 list \<Rightarrow> int \<Rightarrow> bool" where
  "brokers_seen batch_list b \<longleftrightarrow> valid_broker b \<and> list_ex (\<lambda>p. pb_broker_id p = b) batch_list"

definition initial_consumed :: "Topic \<Rightarrow> int \<Rightarrow> nat" where
  "initial_consumed t b =
     (let initial = oe_consumed_through (tp_offsets t b) in if initial = tp_BATCHHEADERS_SIZE t then 0 else initial)"

definition consumed_from :: "Topic \<Rightarrow> (int \<Rightarrow> bool) \<Rightarrow> int \<Rightarrow> nat" where
  "consumed_from t seen b = (if seen b then initial_consumed t b else 0)"

definition cv_merge :: "(Level5ShardState \<Rightarrow> (int, nat) omap) \<Rightarrow> Level5ShardState list \<Rightarrow> int \<Rightarrow> nat" where
  "cv_merge f shards b = (if valid_broker b then fold (\<lambda>sh m. max m (om_get 0 (f sh) b)) shards 0 else 0)"

definition flush_logical_only :: "Level5ShardState list \<Rightarrow> Topic \<Rightarrow> Topic" where
  "flush_logical_only shards = FlushAccumulatedCVLogicalOnly (cv_merge sh_cv_logical_cum shards) (cv_merge sh_cv_logical_pbr shards)"

datatype SeqOutcome = NothingReady | Committed | Refused

text \<open>
  Classify, merge with the batches that need no classification, commit.  \<open>brokers\<close> gives the brokers of the epoch and where
  their rings are consumed to; \<open>on_empty\<close> is done instead of a commit when nothing is ready.  The maxima the shards keep for
  committed batches are never written, so the commit starts from zero.
\<close>

definition sequence_batches ::
  "PendingBatch5 list \<Rightarrow> (PendingBatch5 list \<Rightarrow> Topic \<Rightarrow> (int \<Rightarrow> bool) \<times> (int \<Rightarrow> nat)) \<Rightarrow>
   (Level5ShardState list \<Rightarrow> Topic \<Rightarrow> Topic) \<Rightarrow> PendingBatch5 list \<Rightarrow> PendingBatch5 list \<Rightarrow> SeqState \<Rightarrow> (SeqOutcome \<times> SeqState) option" where
  "sequence_batches batch_list brokers on_empty level0 level5 s =
     (case ProcessLevel5Batches (sq_shards s) (sq_tp s) level5 [] of
        None \<Rightarrow> None
      | Some (shards, t, ready5) \<Rightarrow>
          let ready = level0 @ ready5; s1 = s\<lparr>sq_shards := shards\<rparr>
          in if ready = [] then Some (NothingReady, s1\<lparr>sq_tp := flush_logical_only shards (on_empty shards t)\<rparr>)
             else case brokers ready t of (seen, contig) \<Rightarrow>
               case CommitEpoch shards batch_list seen ready ((sq_ctx s)\<lparr>cc_contig := contig, cc_cum := (\<lambda>_. 0), cc_pbr := (\<lambda>_. 0)\<rparr>) t of
                 (cc, t2) \<Rightarrow>
                   if tp_capacity_exhausted t2 then Some (Refused, s1\<lparr>sq_ctx := cc, sq_tp := t2\<rparr>)
                   else Some (Committed, s1\<lparr>sq_ctx := cc, sq_tp := flush_logical_only shards t2, sq_log := sq_log s @ accepted (tp_session_table t) ready\<rparr>))"

definition return_if_refused :: "SeqOutcome \<times> SeqState \<Rightarrow> SeqState" where
  "return_if_refused r = (if fst r = Refused then (snd r)\<lparr>sq_returned := True\<rparr> else snd r)"

definition split_levels :: "PendingBatch5 list \<Rightarrow> PendingBatch5 list \<times> PendingBatch5 list" where
  "split_levels batch_list = (filter (\<lambda>p. pb_client_id p = 0) batch_list, filter (\<lambda>p. pb_client_id p \<noteq> 0) batch_list)"

definition count_stale :: "nat \<Rightarrow> PendingBatch5 list \<Rightarrow> SeqState \<Rightarrow> SeqState" where
  "count_stale current_epoch batch_list s =
     (let n = length (filter (stale_batch current_epoch) batch_list)
      in s\<lparr>sq_skipped := u64 (sq_skipped s + n), sq_stale := u64 (sq_stale s + n)\<rparr>)"

subsection \<open>An extracted epoch\<close>

text \<open>\<open>taken\<close> is the epoch just taken out of its buffer.\<close>

definition process_epoch :: "nat \<Rightarrow> PendingBatch5 list \<Rightarrow> SeqState \<Rightarrow> SeqState option" where
  "process_epoch taken extracted s =
     (let current_epoch = tp_control_epoch (sq_tp s);
          t = (sq_tp s)\<lparr>tp_current_epoch_for_hold := u64 (taken + 1), tp_cached_epoch := current_epoch\<rparr>;
          s1 = count_stale current_epoch extracted (s\<lparr>sq_tp := t\<rparr>);
          batch_list = map (mark_stale current_epoch) extracted;
          seen = brokers_seen batch_list;
          contig = consumed_from t seen;
          on_empty = (\<lambda>shards t. snd (AdvanceConsumedThroughForProcessedSlots shards batch_list seen (Some (\<lambda>_. 0, \<lambda>_. 0)) contig t))
      in case split_levels batch_list of (level0, level5) \<Rightarrow>
           (case sequence_batches batch_list (\<lambda>_ _. (seen, contig)) on_empty level0 level5 s1 of
              None \<Rightarrow> None
            | Some (NothingReady, s2) \<Rightarrow> Some s2
            | Some (Committed, s2) \<Rightarrow> Some (s2\<lparr>sq_steady := (tp_total_hold_size (sq_tp s2) = 0)\<rparr>)
            | Some (Refused, s2) \<Rightarrow> Some (s2\<lparr>sq_returned := True\<rparr>)))"

text \<open>The same at shutdown: the cached epoch is left alone, an epoch without ready batches flushes no
  completion vector, and the steady-state flag is not touched.\<close>

definition drain_process :: "nat \<Rightarrow> PendingBatch5 list \<Rightarrow> SeqState \<Rightarrow> SeqState option" where
  "drain_process taken extracted s =
     (let current_epoch = tp_control_epoch (sq_tp s);
          t = (sq_tp s)\<lparr>tp_current_epoch_for_hold := u64 (taken + 1)\<rparr>;
          s1 = count_stale current_epoch extracted (s\<lparr>sq_tp := t\<rparr>);
          batch_list = map (mark_stale current_epoch) extracted;
          seen = brokers_seen batch_list;
          contig = consumed_from t seen;
          on_empty = (\<lambda>shards t. snd (AdvanceConsumedThroughForProcessedSlots shards batch_list seen None contig t))
      in case split_levels batch_list of (level0, level5) \<Rightarrow>
           map_option return_if_refused (sequence_batches batch_list (\<lambda>_ _. (seen, contig)) on_empty level0 level5 s1))"

subsection \<open>Idle tick\<close>

definition env_ms :: "nat option \<Rightarrow> nat \<Rightarrow> nat" where
  "env_ms parsed dflt = (case parsed of Some ms \<Rightarrow> if ms > 0 then u64 (u64 (ms * 1000) * 1000) else dflt | None \<Rightarrow> dflt)"

definition GetOrder5IdleForceExpireTriggerNs :: "nat option \<Rightarrow> nat" where
  "GetOrder5IdleForceExpireTriggerNs parsed = env_ms parsed 30000000000"

definition GetOrder5IdleForceExpireWindowNs :: "nat option \<Rightarrow> bool \<Rightarrow> nat" where
  "GetOrder5IdleForceExpireWindowNs parsed replicated = env_ms parsed (if replicated then 1000000000 else 500000000)"

definition ArmOrder5ForceExpiryWindow :: "nat \<Rightarrow> Topic \<Rightarrow> Topic" where
  "ArmOrder5ForceExpiryWindow duration_ns t =
     (if duration_ns = 0 then t
      else case SteadyNowNs t of (now_ns, t1) \<Rightarrow>
        if now_ns < tp_force_expire_rearm_cooldown_until_ns t1 then t1
        else let new_deadline = u64 (now_ns + duration_ns)
             in if tp_force_expire_hold_until_ns t1 < new_deadline then t1\<lparr>tp_force_expire_hold_until_ns := new_deadline\<rparr> else t1)"

definition GetTotalHoldBufferSize :: "Level5ShardState list \<Rightarrow> nat" where
  "GetTotalHoldBufferSize shards = u64 (sum_list (map sh_hold_size shards))"

definition held_work :: "Level5ShardState list \<Rightarrow> bool" where
  "held_work shards \<longleftrightarrow> GetTotalHoldBufferSize shards > 0 \<or> u64 (sum_list (map (length \<circ> sh_deferred) shards)) > 0"

text \<open>The stall clock of one broker: commits restart it, pushes only while nothing is held.\<close>

definition track_broker :: "bool \<Rightarrow> nat \<Rightarrow> nat \<Rightarrow> (int \<Rightarrow> nat) \<Rightarrow> (int \<Rightarrow> nat) \<Rightarrow> int \<Rightarrow> bool \<times> IdleTrack \<Rightarrow> bool \<times> IdleTrack" where
  "track_broker has_held now_ns trigger_ns pushed committed b st =
     (let it = snd st;
          commit_moved = (committed b \<noteq> it_committed it b);
          push_moved = (pushed b \<noteq> it_pushed it b);
          progress = (if commit_moved \<or> push_moved \<and> \<not> has_held then now_ns else it_progress_ns it b);
          active = (pushed b \<noteq> 0 \<or> committed b \<noteq> 0);
          progress = (if active \<and> progress = 0 then now_ns else progress);
          stalled = (has_held \<and> active \<and> progress \<noteq> 0 \<and> sub64 now_ns progress \<ge> trigger_ns)
      in (fst st \<or> stalled,
          it\<lparr>it_pushed := (it_pushed it)(b := pushed b), it_committed := (it_committed it)(b := committed b),
             it_progress_ns := (it_progress_ns it)(b := progress)\<rparr>))"

text \<open>\<open>pushed\<close> are the scanners' counters; \<open>env\<close> the two environment variables.\<close>

definition run_idle_hold_tick ::
  "nat option \<times> nat option \<Rightarrow> bool \<Rightarrow> (int \<Rightarrow> nat) \<Rightarrow> SeqState \<Rightarrow> SeqState option" where
  "run_idle_hold_tick env allow_inline_drain pushed s =
     (case SteadyNowNs (sq_tp s) of (now_ns, t) \<Rightarrow>
        if sub64 now_ns (it_tick_ns (sq_idle s)) < 1000000 then Some (s\<lparr>sq_tp := t\<rparr>)
        else let force_expire_active = (now_ns < tp_force_expire_hold_until_ns t);
                 has_held = held_work (sq_shards s)
             in case fold (track_broker has_held now_ns (GetOrder5IdleForceExpireTriggerNs (fst env)) pushed
                             (cc_committed_batches (sq_ctx s))) broker_ids (False, sq_idle s) of
               (stalled, it) \<Rightarrow>
                 let t1 = (if has_held \<and> stalled
                           then ArmOrder5ForceExpiryWindow (GetOrder5IdleForceExpireWindowNs (snd env) (tp_replication_factor t > 0)) t
                           else t);
                     s1 = s\<lparr>sq_tp := t1, sq_idle := it\<rparr>;
                     s2 = s\<lparr>sq_tp := t1, sq_idle := it\<lparr>it_tick_ns := now_ns\<rparr>\<rparr>
                 in if \<not> has_held \<and> \<not> force_expire_active \<or> \<not> allow_inline_drain then Some s2
                    else (case sequence_batches [] (\<lambda>_ _. (\<lambda>_. False, \<lambda>_. 0)) (\<lambda>_ t. t) [] [] s1 of
                            None \<Rightarrow> None
                          | Some (outcome, s3) \<Rightarrow>
                              Some (if outcome = Refused then s3
                                    else s3\<lparr>sq_idle := (sq_idle s3)\<lparr>it_tick_ns := now_ns\<rparr>\<rparr>)))"

subsection \<open>Last pass at shutdown\<close>

definition held_brokers :: "PendingBatch5 list \<Rightarrow> Topic \<Rightarrow> (int \<Rightarrow> bool) \<times> (int \<Rightarrow> nat)" where
  "held_brokers ready t =
     (let seen = (\<lambda>b. valid_broker b \<and> list_ex (\<lambda>p. (if pb_from_hold p then hm_broker_id (pb_hold_meta p) else pb_broker_id p) = b) ready)
      in (seen, consumed_from t seen))"

definition final_hold_drain :: "SeqState \<Rightarrow> SeqState option" where
  "final_hold_drain s =
     (if \<not> (GetTotalHoldBufferSize (sq_shards s) > 0 \<or> list_ex (\<lambda>sh. sh_deferred sh \<noteq> []) (sq_shards s)) then Some s
      else case SteadyNowNs (sq_tp s) of (now_ns, t) \<Rightarrow>
        map_option return_if_refused (sequence_batches [] held_brokers (\<lambda>_ t. t) [] []
          (s\<lparr>sq_tp := t\<lparr>tp_force_expire_hold_until_ns := u64 (now_ns + 20000000)\<rparr>\<rparr>)))"


subsection \<open>Steps of the sequencer\<close>

datatype SeqAction = EpochAction nat "PendingBatch5 list" | DrainAction nat "PendingBatch5 list"
  | IdleAction "nat option \<times> nat option" bool "int \<Rightarrow> nat" | FinalAction

primrec seq_step :: "SeqAction \<Rightarrow> SeqState \<Rightarrow> SeqState option" where
  "seq_step (EpochAction taken batch_list) s = process_epoch taken batch_list s"
| "seq_step (DrainAction taken batch_list) s = drain_process taken batch_list s"
| "seq_step (IdleAction env allow pushed) s = run_idle_hold_tick env allow pushed s"
| "seq_step FinalAction s = final_hold_drain s"

primrec action_batches :: "SeqAction \<Rightarrow> PendingBatch5 list" where
  "action_batches (EpochAction taken batch_list) = batch_list"
| "action_batches (DrainAction taken batch_list) = batch_list"
| "action_batches (IdleAction env allow pushed) = []"
| "action_batches FinalAction = []"

text \<open>What other threads may do to the topic between two steps: anything that leaves the global order index, its counters and the ordering
  mode alone and keeps the session table well formed.\<close>

definition keeps_order :: "Topic \<Rightarrow> Topic \<Rightarrow> bool" where
  "keeps_order t t' \<longleftrightarrow> tp_goi t' = tp_goi t \<and> tp_global_seq t' = tp_global_seq t \<and> tp_global_batch_seq t' = tp_global_batch_seq t \<and>
     tp_order t' = tp_order t \<and> tp_bypass_session_fifo t' = tp_bypass_session_fifo t \<and> (tp_capacity_exhausted t \<longrightarrow> tp_capacity_exhausted t') \<and>
     (\<not> tp_capacity_exhausted t' \<and> session_table_ok (tp_session_table t) \<longrightarrow> session_table_ok (tp_session_table t'))"

text \<open>The batches a scanner delivers, and that none of them without a client falls on the session \<open>k\<close>.\<close>

definition input_batch :: "64 word \<Rightarrow> PendingBatch5 \<Rightarrow> bool" where
  "input_batch k p \<longleftrightarrow> typed_batch p \<and> input_ok p \<and> (pb_client_id p = 0 \<longrightarrow> key_of p \<noteq> k)"

text \<open>The state of session \<open>k\<close> is not garbage collected by the step, or it had none and nothing of it is committed.\<close>

definition session_kept :: "64 word \<Rightarrow> SeqState \<Rightarrow> SeqState \<Rightarrow> bool" where
  "session_kept k s s' \<longleftrightarrow>
     (\<forall>sh sh'. sq_shards s = [sh] \<and> sq_shards s' = [sh'] \<longrightarrow>
        om_find (sh_client_state sh') k \<noteq> None \<or> shard_frontier k sh = 0 \<and> emits k (sq_log s') = emits k (sq_log s))"

inductive seq_reach :: "64 word \<Rightarrow> SeqState \<Rightarrow> SeqState \<Rightarrow> bool" for k s0 where
  start: "seq_reach k s0 s0"
| others: "seq_reach k s0 s \<Longrightarrow> keeps_order (sq_tp s) t \<Longrightarrow> seq_reach k s0 (s\<lparr>sq_tp := t\<rparr>)"
| act: "seq_reach k s0 s \<Longrightarrow> list_all (input_batch k) (action_batches a) \<Longrightarrow> seq_step a s = Some s' \<Longrightarrow> session_kept k s s' \<Longrightarrow>
    seq_reach k s0 s'"

subsection \<open>What a commit keeps\<close>

lemma keeps_order_refl [simp]: "keeps_order t t"
  by (simp add: keeps_order_def)

lemma keeps_order_trans: "keeps_order t t' \<Longrightarrow> keeps_order t' t'' \<Longrightarrow> keeps_order t t''"
  unfolding keeps_order_def by (elim conjE, intro conjI) auto

lemma keeps_order_log: "keeps_log t t' \<Longrightarrow> keeps_order t t'"
  by (simp add: keeps_log_def keeps_order_def)

lemma keeps_order_cv: "cv_only t t' \<Longrightarrow> keeps_order t t'"
  by (auto simp: cv_only_def keeps_order_def)

lemma keeps_order_flush: "keeps_order t (flush_logical_only shards t)"
  unfolding flush_logical_only_def by (rule keeps_order_cv[OF FlushAccumulatedCVLogicalOnly_spec(1)])

lemma keeps_order_offsets: "keeps_order t (t\<lparr>tp_offsets := x\<rparr>)" "keeps_order t (t\<lparr>tp_ticks := n\<rparr>)"
  "keeps_order t (t\<lparr>tp_current_epoch_for_hold := n, tp_cached_epoch := m\<rparr>)" "keeps_order t (t\<lparr>tp_current_epoch_for_hold := n\<rparr>)"
  "keeps_order t (t\<lparr>tp_force_expire_hold_until_ns := n\<rparr>)"
  by (simp_all add: keeps_order_def)

lemma keeps_order_advance: "keeps_order t (snd (AdvanceConsumedThroughForProcessedSlots shards bl seen cv contig t))"
proof (cases cv)
  case None
  then show ?thesis using advance_frame[of shards bl seen contig t] keeps_order_offsets(1) by metis
next
  case (Some c)
  then obtain cum pbr where c: "cv = Some (cum, pbr)" by (cases c) auto
  obtain off where "cv_only (t\<lparr>tp_offsets := off\<rparr>) (snd (AdvanceConsumedThroughForProcessedSlots shards bl seen cv contig t))"
    using advance_cv_frame c by blast
  from keeps_order_trans[OF keeps_order_offsets(1) keeps_order_cv[OF this]] show ?thesis .
qed

lemma publish_sessions_table:
  assumes "session_table_ok (tp_session_table t)" "publish_sessions ss t = (True, t')"
  shows "session_table_ok (tp_session_table t')"
  using assms
proof (induction ss t rule: publish_sessions.induct)
  case (2 key snap rest t)
  obtain ok table where p: "PublishSessionEntry (tp_session_table t) key snap = (ok, table)" by (metis surj_pair)
  have ok: "ok" using 2(3) p by (cases ok) simp_all
  then have "PublishSessionEntry (tp_session_table t) key snap = (True, table)" using p by simp
  note k = publish_keeps[OF 2(2) this]
  show ?case by (rule 2(1)[OF p[symmetric] refl ok]) (use k 2(3) p ok in auto)
qed simp


definition keeps_mode :: "Topic \<Rightarrow> Topic \<Rightarrow> bool" where
  "keeps_mode t t' \<longleftrightarrow> tp_order t' = tp_order t \<and> tp_bypass_session_fifo t' = tp_bypass_session_fifo t \<and>
     (tp_capacity_exhausted t \<longrightarrow> tp_capacity_exhausted t') \<and>
     (\<not> tp_capacity_exhausted t' \<and> session_table_ok (tp_session_table t) \<longrightarrow> session_table_ok (tp_session_table t'))"

lemma keeps_mode_trans: "keeps_mode t t' \<Longrightarrow> keeps_mode t' t'' \<Longrightarrow> keeps_mode t t''"
  unfolding keeps_mode_def by (elim conjE, intro conjI) auto

lemma keeps_mode_order: "keeps_order t t' \<Longrightarrow> keeps_mode t t'"
  by (simp add: keeps_order_def keeps_mode_def)

lemma keeps_mode_stop: "tp_order t' = tp_order t \<Longrightarrow> tp_bypass_session_fifo t' = tp_bypass_session_fifo t \<Longrightarrow> keeps_mode t (StopForCapacityExhaustion t')"
  by (simp add: keeps_mode_def StopForCapacityExhaustion_def)

lemma keeps_mode_publish: "keeps_mode t (snd (publish_epoch shards bl seen ready bi bo n cc t))"
proof -
  define a where "a = epoch_acc ready bi bo cc t"
  obtain h g s c k where a: "ma_tp a = t\<lparr>tp_headers := h, tp_goi := g, tp_export_sequence := s, tp_export_cursor := c, tp_ticks := k\<rparr>"
    using epoch_acc_tp[of ready bi bo cc t] unfolding a_def by blast
  obtain cc1 t2 where tn: "write_tinode a (ma_ctx a, ma_tp a) = (cc1, t2)" by (metis surj_pair)
  obtain off where t2: "t2 = (ma_tp a)\<lparr>tp_offsets := off\<rparr>" using write_tinode_spec[of a "(ma_ctx a, ma_tp a)"] tn by auto
  define wv where "wv = write_clients (ma_client_delta a) t2"
  obtain x y where w: "wv = t2\<lparr>tp_per_client_ordered := x, tp_per_client_ordered_epoch := y\<rparr>" using write_clients_frame unfolding wv_def by blast
  obtain okk t3 where ps: "publish_sessions (ma_sessions a) wv = (okk, t3)" by (metis surj_pair)
  obtain st where t3: "t3 = wv\<lparr>tp_session_table := st\<rparr>" using publish_sessions_frame[of "ma_sessions a" wv] ps by auto
  have f: "tp_order t3 = tp_order t" "tp_bypass_session_fifo t3 = tp_bypass_session_fifo t"
    "tp_capacity_exhausted t3 = tp_capacity_exhausted t" "tp_session_table wv = tp_session_table t"
    by (simp_all add: t3 w t2 a)
  note fold = Let_def epoch_acc_def[symmetric] a_def[symmetric] tn prod.case wv_def[symmetric] ps
  show ?thesis
  proof (cases okk)
    case False
    then have "snd (publish_epoch shards bl seen ready bi bo n cc t) = StopForCapacityExhaustion t3"
      unfolding publish_epoch_def fold by simp
    then show ?thesis using keeps_mode_stop[OF f(1,2)] by simp
  next
    case True
    have 3: "keeps_mode t t3" using publish_sessions_table[of wv "ma_sessions a" t3] ps True f by (simp add: keeps_mode_def)
    define t4 where "t4 = FlushAccumulatedCV (cc_cum cc1) (cc_pbr cc1) (Some (ma_seen a)) t3"
    have 4: "keeps_mode t3 t4" unfolding t4_def by (rule keeps_mode_order[OF keeps_order_cv[OF FlushAccumulatedCV_spec(1)]])
    obtain contig t5 where ad: "AdvanceConsumedThroughForProcessedSlots shards bl seen None (cc_contig cc1) t4 = (contig, t5)" by (metis surj_pair)
    have 5: "keeps_mode t4 t5" using keeps_mode_order[OF keeps_order_advance[of t4 shards bl seen None "cc_contig cc1"]] ad by simp
    define t6 where "t6 = (if n > 0 then enqueue_completed bi (bi + n) t5 else t5)"
    have 6: "keeps_mode t5 t6" by (simp add: t6_def enqueue_completed_def keeps_mode_def)
    obtain off6 where "write_consumed seen contig t6 = t6\<lparr>tp_offsets := off6\<rparr>" using write_consumed_spec[of seen contig t6] by auto
    then have 7: "keeps_mode t6 (write_consumed seen contig t6)" by (simp add: keeps_mode_def)
    have "snd (publish_epoch shards bl seen ready bi bo n cc t) = write_consumed seen contig t6"
      unfolding publish_epoch_def fold t4_def[symmetric] ad t6_def[symmetric] using True by simp
    then show ?thesis using keeps_mode_trans[OF 3 keeps_mode_trans[OF 4 keeps_mode_trans[OF 5 keeps_mode_trans[OF 6 7]]]] by simp
  qed
qed

lemma keeps_mode_commit: "keeps_mode t (snd (CommitEpoch shards bl seen ready cc t))"
proof (cases "tp_capacity_exhausted t")
  case True
  then show ?thesis by (simp add: CommitEpoch_def keeps_mode_def)
next
  case run: False
  obtain kept failed t1 where g: "guard_ready ready t = (kept, failed, t1)" by (cases "guard_ready ready t")
  have go: "guard_only t t1" using guard_ready_only[of t ready] g by simp
  then have o: "tp_order t1 = tp_order t" "tp_bypass_session_fifo t1 = tp_bypass_session_fifo t" "tp_capacity_exhausted t1 = tp_capacity_exhausted t"
    by (auto simp: guard_only_def)
  note stop = keeps_mode_stop[OF o(1,2)]
  have 1: "keeps_mode t t1" if "\<not> failed"
    using guard_ready_spec[of t ready kept t1] g that o by (auto simp: keeps_mode_def guard_view_def)
  obtain contig t2 where ad: "AdvanceConsumedThroughForProcessedSlots shards bl seen (Some (cc_cum cc, cc_pbr cc)) (cc_contig cc) t1 = (contig, t2)"
    by (metis surj_pair)
  have 2: "keeps_mode t1 t2" using keeps_mode_order[OF keeps_order_advance[of t1 shards bl seen "Some (cc_cum cc, cc_pbr cc)" "cc_contig cc"]] ad by simp
  have 3: "keeps_mode t1 (snd (publish_epoch shards bl seen kept bi bo n cc (t1\<lparr>tp_global_batch_seq := x, tp_global_seq := y\<rparr>)))" for bi bo n x y
    using keeps_mode_publish[of "t1\<lparr>tp_global_batch_seq := x, tp_global_seq := y\<rparr>" shards bl seen kept bi bo n cc] by (simp add: keeps_mode_def)
  show ?thesis
    using run g stop 1 ad keeps_mode_trans[OF 1 2] keeps_mode_trans[OF 1 3]
    by (auto simp: CommitEpoch_def split: option.splits)
qed


subsection \<open>The log\<close>

text \<open>From the start values of the two counters on, the index holds the log, each batch with its own
  metadata and message range.\<close>

definition index_holds :: "nat \<Rightarrow> nat \<Rightarrow> PendingBatch5 list \<Rightarrow> Topic \<Rightarrow> bool" where
  "index_holds g0 m0 log t \<longleftrightarrow>
     tp_global_batch_seq t = g0 + length log \<and> tp_global_seq t = m0 + sum_list (map pb_num_msg log) \<and> tp_global_seq t \<le> UINT64_MAX \<and>
     (\<forall>i<length log. \<exists>cumulative client_seq. tp_goi t (g0 + i) =
        goi_entry_of (g0 + i) (m0 + sum_list (map pb_num_msg (take i log))) cumulative client_seq (hold_meta_of (log ! i)))"

lemma index_holds_keeps: "keeps_order t t' \<Longrightarrow> index_holds g0 m0 log t' = index_holds g0 m0 log t"
  by (simp add: keeps_order_def index_holds_def)

lemma commit_log:
  fixes cc :: CommitCtx and seen :: "int \<Rightarrow> bool" and bl ready :: "PendingBatch5 list" and shards :: "Level5ShardState list"
  assumes log: "index_holds g0 m0 log t" and ty: "list_all typed_ready ready" and ok: "tp_capacity_exhausted t \<or> session_table_ok (tp_session_table t)"
  defines "r \<equiv> snd (CommitEpoch shards bl seen ready cc t)"
  shows "index_holds g0 m0 (if tp_capacity_exhausted r then log else log @ accepted (tp_session_table t) ready) r"
proof (cases "tp_capacity_exhausted r")
  case True
  have "published_same t r"
  proof (cases "tp_capacity_exhausted t")
    case e: True
    then show ?thesis by (simp add: r_def CommitEpoch_def published_same_def)
  next
    case e: False
    then show ?thesis using commit_refusal[OF e, of shards bl seen ready cc] ok True by (simp add: r_def)
  qed
  then show ?thesis using log True by (simp add: published_same_def index_holds_def)
next
  case False
  define cs where "cs = accepted (tp_session_table t) ready"
  have e: "\<not> tp_capacity_exhausted t" using keeps_mode_commit[of t shards bl seen ready cc] False by (auto simp: keeps_mode_def r_def)
  have m: "commit_meta p = hold_meta_of p" if "p \<in> set ready" for p using ty that by (simp add: list_all_iff typed_ready_def)
  then have w: "\<forall>p\<in>set ready. well_counted p" by (simp add: well_counted_def hold_meta_of_def)
  have n: "map num ps = map pb_num_msg ps" if "set ps \<subseteq> set cs" for ps
    using that w by (auto simp: cs_def well_counted_def)
  have nt: "map num (take i cs) = map pb_num_msg (take i cs)" "map num cs = map pb_num_msg cs" for i
    using n[of "take i cs"] n[of cs] set_take_subset[of i cs] by simp_all
  let ?g = "tp_global_batch_seq t"
  have out: "\<forall>i<length cs. \<exists>cumulative client_seq. tp_goi r (?g + i) =
       goi_entry_of (?g + i) (tp_global_seq t + sum_list (map pb_num_msg (take i cs))) cumulative client_seq (commit_meta (cs ! i))"
    "tp_global_batch_seq r = ?g + length cs" "tp_global_seq r = tp_global_seq t + sum_list (map pb_num_msg cs)"
    "\<forall>x. x < ?g \<or> tp_global_batch_seq r \<le> x \<longrightarrow> tp_goi r x = tp_goi t x" "tp_global_seq r \<le> UINT64_MAX"
    using commit_outcome[OF e _ _ w, of shards bl seen cc] log ok e False
    unfolding r_def[symmetric] cs_def[symmetric] nt by (simp_all add: index_holds_def)
  note lg = log[unfolded index_holds_def]
  have "\<exists>cumulative client_seq. tp_goi r (g0 + i) =
      goi_entry_of (g0 + i) (m0 + sum_list (map pb_num_msg (take i (log @ cs)))) cumulative client_seq (hold_meta_of ((log @ cs) ! i))"
    if i: "i < length (log @ cs)" for i
  proof (cases "i < length log")
    case True
    then have "tp_goi r (g0 + i) = tp_goi t (g0 + i)" using lg out(4) by simp
    then show ?thesis using lg True by (simp add: nth_append)
  next
    case ge: False
    then obtain j where j: "i = length log + j" using le_Suc_ex not_less by blast
    then have jl: "j < length cs" and "cs ! j \<in> set ready" using i by (auto simp: cs_def dest: nth_mem)
    then show ?thesis using out(1)[rule_format, OF jl] lg m[of "cs ! j"] j by (simp add: add.assoc)
  qed
  then have "index_holds g0 m0 (log @ cs) r" using out(2,3,5) lg unfolding index_holds_def by simp
  then show ?thesis using False unfolding cs_def by simp
qed


subsection \<open>The invariant\<close>

definition seq_inv :: "64 word \<Rightarrow> nat \<Rightarrow> nat \<Rightarrow> SeqState \<Rightarrow> bool" where
  "seq_inv k g0 m0 s \<longleftrightarrow>
     (\<exists>sh. sq_shards s = [sh] \<and> shard_ok sh \<and> typed_shard sh \<and> (\<forall>q\<in>set (emits k (sq_log s)). q < shard_frontier k sh)) \<and>
     sorted_wrt (<) (emits k (sq_log s)) \<and> index_holds g0 m0 (sq_log s) (sq_tp s) \<and> chain_topic (sq_tp s) \<and>
     (tp_capacity_exhausted (sq_tp s) \<or> session_table_ok (tp_session_table (sq_tp s)))"

definition same_run :: "SeqState \<Rightarrow> SeqState \<Rightarrow> bool" where
  "same_run s s' \<longleftrightarrow> sq_shards s' = sq_shards s \<and> sq_log s' = sq_log s \<and> keeps_order (sq_tp s) (sq_tp s')"

lemma seq_inv_same: "seq_inv k g0 m0 s \<Longrightarrow> same_run s s' \<Longrightarrow> seq_inv k g0 m0 s'"
  unfolding same_run_def seq_inv_def by (elim conjE) (auto simp: index_holds_keeps, auto simp: keeps_order_def chain_topic_def)

lemma emits_accepted_sub: "set (emits k (accepted table ready)) \<subseteq> set (emits k ready)"
  by (auto simp: emits_def)

lemma emits_accepted_sorted: "sorted_wrt (<) (emits k ready) \<Longrightarrow> sorted_wrt (<) (emits k (accepted table ready))"
proof -
  have "filter (is_emission k) (accepted table ready) = filter (\<lambda>p. committed_batch p \<and> \<not> guard_rejects table p) (filter (is_emission k) ready)"
    by (simp add: filter_filter conj_commute conj_left_commute cong: filter_cong)
  then show "sorted_wrt (<) (emits k ready) \<Longrightarrow> sorted_wrt (<) (emits k (accepted table ready))"
    unfolding emits_def sorted_wrt_map by (simp only: sorted_wrt_filter)
qed

lemma classify_single:
  assumes "shard_ok sh" "typed_shard sh" "chain_topic t" "list_all input_ok level5" "list_all typed_batch level5"
    "ProcessLevel5Batches [sh] t level5 [] = Some (shards, t', ready)"
  obtains sh' where "shards = [sh']" "shard_ok sh'" "typed_shard sh'" "keeps_log t t'" "list_all typed_ready ready"
    "sorted_wrt (<) (emits k ready)" "\<forall>s\<in>set (emits k ready). shard_frontier k sh \<le> s"
    "om_find (sh_client_state sh') k \<noteq> None \<longrightarrow>
       (\<forall>s\<in>set (emits k ready). s < shard_frontier k sh') \<and> shard_frontier k sh \<le> shard_frontier k sh' \<or> sh' = sh \<and> ready = []"
proof (cases "tp_capacity_exhausted t")
  case True
  then have "shards = [sh]" "t' = t" "ready = []" using assms(6) by (auto simp: ProcessLevel5Batches_def)
  then show thesis using that[of sh] assms(1,2) by simp
next
  case False
  define c where "c = ProcessLevel5BatchesShard sh t level5 []"
  have r: "shards = [lx_sh c]" "t' = lx_tp c" "ready = lx_ready c"
    using assms(6) False by (auto simp: ProcessLevel5Batches_def c_def Let_def split: if_splits)
  have ty: "typed c" unfolding c_def by (rule typed_pass[OF assms(2,5)]) simp
  obtain new where n: "lx_ready c = [] @ new" "sorted_wrt (<) (emits k new)"
    "\<forall>s\<in>set (emits k new). shard_frontier k sh \<le> s" "shard_ok (lx_sh c)"
    "om_find (sh_client_state (lx_sh c)) k \<noteq> None \<Longrightarrow>
       (\<forall>s\<in>set (emits k new). s < shard_frontier k (lx_sh c)) \<and> shard_frontier k sh \<le> shard_frontier k (lx_sh c)"
    using pass_emits[OF assms(1,3,4), of "[]" k] unfolding c_def[symmetric] by metis
  show thesis
    using that[OF r(1) n(4)] n ty ProcessLevel5Batches_keeps[OF assms(6)] r by (simp add: typed_def)
qed


lemma frontier_kept:
  assumes "\<forall>q\<in>set (emits k log). q < shard_frontier k sh"
    "om_find (sh_client_state sh') k \<noteq> None \<longrightarrow>
       (\<forall>q\<in>set (emits k ready). q < shard_frontier k sh') \<and> shard_frontier k sh \<le> shard_frontier k sh' \<or> sh' = sh \<and> ready = []"
    "om_find (sh_client_state sh') k \<noteq> None \<or> shard_frontier k sh = 0 \<and> emits k (log @ cs) = emits k log"
    "set (emits k cs) \<subseteq> set (emits k ready)"
  shows "\<forall>q\<in>set (emits k (log @ cs)). q < shard_frontier k sh'"
  using assms by fastforce

lemma emits_level0: "list_all (input_batch k) bs \<Longrightarrow> \<forall>p\<in>set bs. pb_client_id p = 0 \<Longrightarrow> emits k bs = []"
  by (auto simp: emits_def list_all_iff input_batch_def is_emission_def filter_empty_conv)

lemma sequence_batches_inv:
  assumes inv: "seq_inv k g0 m0 s" and l0: "list_all (input_batch k) level0" "\<forall>p\<in>set level0. pb_client_id p = 0"
    and l5: "list_all (input_batch k) level5" and oe: "\<And>shs t. keeps_order t (on_empty shs t)"
    and run: "sequence_batches bl brokers on_empty level0 level5 s = Some (out, s')" and kept: "session_kept k s s'"
  shows "seq_inv k g0 m0 s'"
proof -
  obtain sh where sh: "sq_shards s = [sh]" "shard_ok sh" "typed_shard sh" "\<forall>q\<in>set (emits k (sq_log s)). q < shard_frontier k sh"
    and st: "sorted_wrt (<) (emits k (sq_log s))" "index_holds g0 m0 (sq_log s) (sq_tp s)" "chain_topic (sq_tp s)"
    "tp_capacity_exhausted (sq_tp s) \<or> session_table_ok (tp_session_table (sq_tp s))"
    using inv by (auto simp: seq_inv_def)
  obtain shards t ready5 where p: "ProcessLevel5Batches (sq_shards s) (sq_tp s) level5 [] = Some (shards, t, ready5)"
    using run by (auto simp: sequence_batches_def split: option.splits)
  have i5: "list_all input_ok level5" "list_all typed_batch level5" using l5 by (auto simp: list_all_iff input_batch_def)
  obtain sh' where c: "shards = [sh']" "shard_ok sh'" "typed_shard sh'" "keeps_log (sq_tp s) t" "list_all typed_ready ready5"
    "sorted_wrt (<) (emits k ready5)" "\<forall>q\<in>set (emits k ready5). shard_frontier k sh \<le> q"
    "om_find (sh_client_state sh') k \<noteq> None \<longrightarrow>
       (\<forall>q\<in>set (emits k ready5). q < shard_frontier k sh') \<and> shard_frontier k sh \<le> shard_frontier k sh' \<or> sh' = sh \<and> ready5 = []"
    using classify_single[OF sh(2,3) st(3) i5 p[unfolded sh(1)], of k] by metis
  define ready where "ready = level0 @ ready5"
  have er: "emits k ready = emits k ready5" using emits_level0[OF l0] by (simp add: ready_def)
  have ty: "list_all typed_ready ready" using l0(1) c(5) by (auto simp: ready_def list_all_iff input_batch_def typed_ready_batch)
  have kt: "keeps_order (sq_tp s) t" by (rule keeps_order_log[OF c(4)])
  have log: "index_holds g0 m0 (sq_log s) t" using st(2) index_holds_keeps[OF kt] by simp
  have tok: "chain_topic t" "tp_capacity_exhausted t \<or> session_table_ok (tp_session_table t)"
    using st(3,4) kt by (auto simp: keeps_order_def chain_topic_def)
  show ?thesis
  proof (cases "ready = []")
    case True
    then have s': "s' = s\<lparr>sq_shards := shards, sq_tp := flush_logical_only shards (on_empty shards t)\<rparr>"
      using run p by (simp add: sequence_batches_def ready_def)
    have kf: "keeps_order t (sq_tp s')" using keeps_order_trans[OF oe keeps_order_flush] s' by simp
    have "\<forall>q\<in>set (emits k (sq_log s @ [])). q < shard_frontier k sh'"
      by (rule frontier_kept[OF sh(4) c(8)]) (use kept s' sh(1) c(1) in \<open>auto simp: session_kept_def\<close>)
    then show ?thesis using kf log tok st(1) c(1-3) s' index_holds_keeps[OF kf]
      by (auto simp: seq_inv_def) (auto simp: keeps_order_def chain_topic_def)
  next
    case False
    obtain seen contig where b: "brokers ready t = (seen, contig)" by fastforce
    let ?cc = "(sq_ctx s)\<lparr>cc_contig := contig, cc_cum := (\<lambda>_. 0), cc_pbr := (\<lambda>_. 0)\<rparr>"
    obtain cc t2 where cm: "CommitEpoch shards bl seen ready ?cc t = (cc, t2)" by fastforce
    define cs where "cs = (if tp_capacity_exhausted t2 then [] else accepted (tp_session_table t) ready)"
    have s': "s' = (if tp_capacity_exhausted t2 then s\<lparr>sq_shards := shards, sq_ctx := cc, sq_tp := t2\<rparr>
        else s\<lparr>sq_shards := shards, sq_ctx := cc, sq_tp := flush_logical_only shards t2, sq_log := sq_log s @ cs\<rparr>)"
      using run False unfolding sequence_batches_def p option.case prod.case Let_def ready_def[symmetric] b cm
      by (simp add: cs_def split: if_splits)
    have l2: "index_holds g0 m0 (sq_log s @ cs) t2"
      using commit_log[OF log ty tok(2), of shards bl seen ?cc] cm by (simp add: cs_def split: if_splits)
    have m: "keeps_mode t t2" using keeps_mode_commit[of t shards bl seen ready ?cc] cm by simp
    have k2: "keeps_order t2 (sq_tp s')" using keeps_order_flush s' by simp
    have lg: "sq_log s' = sq_log s @ cs" "sq_shards s' = [sh']" using s' c(1) by (simp_all add: cs_def)
    have sub: "set (emits k cs) \<subseteq> set (emits k ready5)" using emits_accepted_sub[of k "tp_session_table t" ready] er by (auto simp: cs_def)
    have "\<forall>q\<in>set (emits k (sq_log s @ cs)). q < shard_frontier k sh'"
      by (rule frontier_kept[OF sh(4) c(8) _ sub]) (use kept lg sh(1) in \<open>auto simp: session_kept_def\<close>)
    moreover have "sorted_wrt (<) (emits k cs)" using emits_accepted_sorted[of k ready] c(6) er by (simp add: cs_def)
    then have "sorted_wrt (<) (emits k (sq_log s @ cs))"
      using st(1) sh(4) c(7) sub by (auto simp: sorted_wrt_append) (meson order_less_le_trans subsetD)
    ultimately show ?thesis
      using lg l2 index_holds_keeps[OF k2] m tok c(2,3) keeps_mode_order[OF k2]
      by (auto simp: seq_inv_def) (auto simp: keeps_mode_def chain_topic_def)
  qed
qed


lemma same_run_refl [simp]: "same_run s s"
  by (simp add: same_run_def)

lemma session_kept_same: "session_kept k s s' \<Longrightarrow> same_run s s1 \<Longrightarrow> same_run s2 s' \<Longrightarrow> session_kept k s1 s2"
  by (simp add: session_kept_def same_run_def)

lemma sequence_step:
  assumes "seq_inv k g0 m0 s" "same_run s s1" "list_all (input_batch k) level0" "\<forall>p\<in>set level0. pb_client_id p = 0"
    "list_all (input_batch k) level5" "\<And>shs t. keeps_order t (on_empty shs t)"
    "sequence_batches bl brokers on_empty level0 level5 s1 = Some (out, s2)" "same_run s2 s'" "session_kept k s s'"
  shows "seq_inv k g0 m0 s'"
  by (rule seq_inv_same[OF sequence_batches_inv[OF seq_inv_same[OF assms(1,2)] assms(3-7) session_kept_same[OF assms(9,2,8)]] assms(8)])

lemma same_run_count: "keeps_order (sq_tp s) t \<Longrightarrow> same_run s (count_stale e bl (s\<lparr>sq_tp := t\<rparr>))"
  by (simp add: same_run_def count_stale_def Let_def)

lemma input_mark: "input_batch k p \<Longrightarrow> input_batch k (mark_stale e p)"
  by (auto simp: mark_stale_def input_batch_def typed_batch_def input_ok_def key_of_def fields_in_width_def)

lemma input_mark_stale:
  assumes "list_all (input_batch k) bl" "split_levels (map (mark_stale e) bl) = (level0, level5)"
  shows "list_all (input_batch k) level0 \<and> list_all (input_batch k) level5 \<and> (\<forall>p\<in>set level0. pb_client_id p = 0)"
proof -
  have "list_all (input_batch k) (map (mark_stale e) bl)" using assms(1) input_mark by (auto simp: list_all_iff)
  then show ?thesis using assms(2) by (auto simp only: split_levels_def list_all_iff prod.inject set_filter)
qed

lemma process_epoch_inv:
  assumes "seq_inv k g0 m0 s" "list_all (input_batch k) extracted" "process_epoch taken extracted s = Some s'" "session_kept k s s'"
  shows "seq_inv k g0 m0 s'"
proof -
  define e where "e = tp_control_epoch (sq_tp s)"
  define t where "t = (sq_tp s)\<lparr>tp_current_epoch_for_hold := u64 (taken + 1), tp_cached_epoch := e\<rparr>"
  define bl where "bl = map (mark_stale e) extracted"
  obtain level0 level5 where l: "split_levels bl = (level0, level5)" by fastforce
  note i = input_mark_stale[OF assms(2) l[unfolded bl_def]]
  let ?oe = "\<lambda>shards t'. snd (AdvanceConsumedThroughForProcessedSlots shards bl (brokers_seen bl) (Some (\<lambda>_. 0, \<lambda>_. 0)) (consumed_from t (brokers_seen bl)) t')"
  let ?sq = "sequence_batches bl (\<lambda>_ _. (brokers_seen bl, consumed_from t (brokers_seen bl))) ?oe level0 level5 (count_stale e extracted (s\<lparr>sq_tp := t\<rparr>))"
  have r: "process_epoch taken extracted s = (case ?sq of None \<Rightarrow> None
            | Some (NothingReady, s2) \<Rightarrow> Some s2
            | Some (Committed, s2) \<Rightarrow> Some (s2\<lparr>sq_steady := (tp_total_hold_size (sq_tp s2) = 0)\<rparr>)
            | Some (Refused, s2) \<Rightarrow> Some (s2\<lparr>sq_returned := True\<rparr>))"
    unfolding process_epoch_def Let_def e_def[symmetric] t_def[symmetric] bl_def[symmetric] l prod.case ..
  obtain out s2 where sq: "?sq = Some (out, s2)" using assms(3) r by (auto split: option.splits)
  have "same_run s2 s'" using assms(3) r sq by (auto simp: same_run_def split: SeqOutcome.splits)
  moreover have "same_run s (count_stale e extracted (s\<lparr>sq_tp := t\<rparr>))" by (rule same_run_count) (simp add: t_def keeps_order_offsets)
  ultimately show ?thesis using sequence_step[OF assms(1) _ _ _ _ keeps_order_advance sq] i assms(4) by blast
qed

lemma drain_process_inv:
  assumes "seq_inv k g0 m0 s" "list_all (input_batch k) extracted" "drain_process taken extracted s = Some s'" "session_kept k s s'"
  shows "seq_inv k g0 m0 s'"
proof -
  define e where "e = tp_control_epoch (sq_tp s)"
  define t where "t = (sq_tp s)\<lparr>tp_current_epoch_for_hold := u64 (taken + 1)\<rparr>"
  define bl where "bl = map (mark_stale e) extracted"
  obtain level0 level5 where l: "split_levels bl = (level0, level5)" by fastforce
  note i = input_mark_stale[OF assms(2) l[unfolded bl_def]]
  let ?oe = "\<lambda>shards t'. snd (AdvanceConsumedThroughForProcessedSlots shards bl (brokers_seen bl) None (consumed_from t (brokers_seen bl)) t')"
  let ?sq = "sequence_batches bl (\<lambda>_ _. (brokers_seen bl, consumed_from t (brokers_seen bl))) ?oe level0 level5 (count_stale e extracted (s\<lparr>sq_tp := t\<rparr>))"
  have r: "drain_process taken extracted s = map_option return_if_refused ?sq"
    unfolding drain_process_def Let_def e_def[symmetric] t_def[symmetric] bl_def[symmetric] l prod.case ..
  obtain out s2 where sq: "?sq = Some (out, s2)" "s' = return_if_refused (out, s2)" using assms(3) r by (cases ?sq) auto
  have "same_run s2 s'" using sq(2) by (simp add: same_run_def return_if_refused_def)
  moreover have "same_run s (count_stale e extracted (s\<lparr>sq_tp := t\<rparr>))" by (rule same_run_count) (simp add: t_def keeps_order_offsets)
  ultimately show ?thesis using sequence_step[OF assms(1) _ _ _ _ keeps_order_advance sq(1)] i assms(4) by blast
qed

lemma keeps_order_now: "SteadyNowNs t = (now, t') \<Longrightarrow> keeps_order t t'"
  by (rule keeps_order_log[OF keeps_log_now(2)])

lemma keeps_order_arm: "keeps_order t (ArmOrder5ForceExpiryWindow d t)"
  by (auto simp: ArmOrder5ForceExpiryWindow_def Let_def split: prod.split intro: keeps_order_trans[OF keeps_order_now keeps_order_offsets(5)] keeps_order_now)

lemma idle_tick_inv:
  assumes "seq_inv k g0 m0 s" "run_idle_hold_tick env allow pushed s = Some s'" "session_kept k s s'"
  shows "seq_inv k g0 m0 s'"
proof -
  obtain now t where n: "SteadyNowNs (sq_tp s) = (now, t)" by fastforce
  note kn = keeps_order_now[OF n]
  obtain stalled it where f: "fold (track_broker (held_work (sq_shards s)) now (GetOrder5IdleForceExpireTriggerNs (fst env)) pushed
      (cc_committed_batches (sq_ctx s))) broker_ids (False, sq_idle s) = (stalled, it)" by fastforce
  define t1 where "t1 = (if held_work (sq_shards s) \<and> stalled
     then ArmOrder5ForceExpiryWindow (GetOrder5IdleForceExpireWindowNs (snd env) (tp_replication_factor t > 0)) t else t)"
  have "keeps_order (sq_tp s) t1" using keeps_order_trans[OF kn keeps_order_arm] kn by (simp add: t1_def)
  then have k1: "same_run s (s\<lparr>sq_tp := t1, sq_idle := x\<rparr>)" for x by (simp add: same_run_def)
  let ?sq = "sequence_batches [] (\<lambda>_ _. (\<lambda>_. False, \<lambda>_. 0)) (\<lambda>_ t. t) [] [] (s\<lparr>sq_tp := t1, sq_idle := it\<rparr>)"
  have "same_run s s' \<or> (\<exists>out s3. ?sq = Some (out, s3) \<and> same_run s3 s')"
    using assms(2) kn k1 unfolding run_idle_hold_tick_def n prod.case Let_def f t1_def[symmetric]
    by (auto simp: same_run_def split: if_splits option.splits)
  moreover have "seq_inv k g0 m0 s'" if "?sq = Some (out, s3)" "same_run s3 s'" for out s3
    by (rule sequence_step[OF assms(1) k1 _ _ _ _ that assms(3)]) simp_all
  ultimately show ?thesis using seq_inv_same[OF assms(1)] by blast
qed

lemma final_drain_inv:
  assumes "seq_inv k g0 m0 s" "final_hold_drain s = Some s'" "session_kept k s s'"
  shows "seq_inv k g0 m0 s'"
proof -
  obtain now t where n: "SteadyNowNs (sq_tp s) = (now, t)" by fastforce
  let ?s1 = "s\<lparr>sq_tp := t\<lparr>tp_force_expire_hold_until_ns := u64 (now + 20000000)\<rparr>\<rparr>"
  have k1: "same_run s ?s1" using keeps_order_trans[OF keeps_order_now[OF n] keeps_order_offsets(5)] by (simp add: same_run_def)
  let ?sq = "sequence_batches [] held_brokers (\<lambda>_ t. t) [] [] ?s1"
  have "s' = s \<or> (\<exists>out s2. ?sq = Some (out, s2) \<and> s' = return_if_refused (out, s2))"
    using assms(2) n by (auto simp: final_hold_drain_def split: if_splits)
  moreover have "seq_inv k g0 m0 s'" if "?sq = Some (out, s2)" "s' = return_if_refused (out, s2)" for out s2
  proof (rule sequence_step[OF assms(1) k1 _ _ _ _ that(1) _ assms(3)])
    show "same_run s2 s'" by (simp add: same_run_def return_if_refused_def that(2))
  qed simp_all
  ultimately show ?thesis using assms(1) by blast
qed

lemma seq_step_inv:
  assumes "seq_inv k g0 m0 s" "list_all (input_batch k) (action_batches a)" "seq_step a s = Some s'" "session_kept k s s'"
  shows "seq_inv k g0 m0 s'"
  using assms(2,3) process_epoch_inv[OF assms(1) _ _ assms(4)] drain_process_inv[OF assms(1) _ _ assms(4)]
    idle_tick_inv[OF assms(1) _ assms(4)] final_drain_inv[OF assms(1) _ assms(4)]
  by (cases a) (simp_all only: seq_step.simps action_batches.simps)

lemma seq_reach_inv: "seq_reach k s0 s \<Longrightarrow> seq_inv k g0 m0 s0 \<Longrightarrow> seq_inv k g0 m0 s"
proof (induction rule: seq_reach.induct)
  case (others s t)
  then show ?case using seq_inv_same[of k g0 m0 s "s\<lparr>sq_tp := t\<rparr>"] by (simp add: same_run_def)
qed (auto intro: seq_step_inv)


subsection \<open>Properties\<close>

text \<open>C1: the pipeline from extracted epochs to the global order index, with one shard.  Take any sequence of epochs, shutdown epochs, idle ticks
  and final passes of the sequencer, with arbitrary well typed batches in any order (duplicates, gaps, stale epochs, skip markers),
  and with other threads changing the topic in between except for the index, its counters and the ordering mode.  The index then
  holds exactly the committed batches, in commit order and without gaps from the initial counters on, each with its own metadata (the \<open>client_seq\<close> field, read from the live slot, apart), their message
  ranges tiling the total order; a refused commit adds nothing.  The batches of any one session appear in it in strictly increasing client
  sequence, each at most once, as long as the session is not garbage collected.\<close>

theorem sequencer_log_is_total_order:
  assumes "seq_reach k s0 s" "sq_shards s0 = [sh]" "shard_ok sh" "typed_shard sh" "sq_log s0 = []" "chain_topic (sq_tp s0)"
    "session_table_ok (tp_session_table (sq_tp s0))" "tp_global_seq (sq_tp s0) \<le> UINT64_MAX"
  shows "index_holds (tp_global_batch_seq (sq_tp s0)) (tp_global_seq (sq_tp s0)) (sq_log s) (sq_tp s) \<and> sorted_wrt (<) (emits k (sq_log s))"
proof -
  have "seq_inv k (tp_global_batch_seq (sq_tp s0)) (tp_global_seq (sq_tp s0)) s0"
    using assms(2-8) by (simp add: seq_inv_def index_holds_def)
  from seq_reach_inv[OF assms(1) this] show ?thesis by (simp add: seq_inv_def)
qed

definition sample_seq :: SeqState where
  "sample_seq = \<lparr>sq_shards = [Level5ShardState_init], sq_ctx = sample_ctx, sq_tp = sample_topic, sq_steady = False, sq_skipped = 0, sq_stale = 0,
     sq_idle = \<lparr>it_tick_ns = 0, it_pushed = (\<lambda>_. 0), it_committed = (\<lambda>_. 0), it_progress_ns = (\<lambda>_. 0)\<rparr>, sq_returned = False, sq_log = []\<rparr>"

definition legacy_batch :: "nat \<Rightarrow> PendingBatch5" where
  "legacy_batch n = (header_batch n)\<lparr>pb_session_epoch := 0\<rparr>"

lemma legacy_batch_facts:
  "list_all (input_batch (MakeSessionKey 7 0)) [legacy_batch 1, legacy_batch 0]"
  "mark_stale 1 (legacy_batch n) = legacy_batch n" "pb_client_id (legacy_batch n) = 7"
  by (simp_all add: legacy_batch_def header_batch_def sample_batch_def input_batch_def typed_batch_def fields_in_width_def input_ok_def
      PendingBatch5_init_def mark_stale_def stale_batch_def kMaxEpochAge_def UINT64_MAX_def)

abbreviation sample_pass :: L5 where
  "sample_pass \<equiv> ProcessLevel5BatchesShard Level5ShardState_init (sample_topic\<lparr>tp_current_epoch_for_hold := 1, tp_cached_epoch := 1\<rparr>)
     [legacy_batch 1, legacy_batch 0] []"

lemma sample_pass_facts:
  "lx_ready sample_pass = [legacy_batch 0, legacy_batch 1]" "\<not> tp_capacity_exhausted (lx_tp sample_pass)"
  "om_find (sh_client_state (lx_sh sample_pass)) (MakeSessionKey 7 0) \<noteq> None"
  by (simp_all add: legacy_batch_def header_batch_def eval5 Let_def cong: if_weak_cong let_weak_cong)


lemma sample_epoch_commits:
  assumes "tp_global_batch_seq t = 0" "tp_global_seq t = 0" "\<not> tp_capacity_exhausted t" "session_table_ok (tp_session_table t)"
  shows "\<not> tp_capacity_exhausted (snd (CommitEpoch shards bl seen [legacy_batch 0, legacy_batch 1] cc t)) \<and>
     accepted (tp_session_table t) [legacy_batch 0, legacy_batch 1] = [legacy_batch 0, legacy_batch 1]"
proof -
  define rd where "rd = [legacy_batch 0, legacy_batch 1]"
  have f: "guard_ready rd t = (rd, False, t)" "count_ready rd 0 0 = Some (20, 2)" "rd \<noteq> []"
    "\<forall>p\<in>set rd. \<not> guarded p \<and> committed_batch p"
    by (simp_all add: rd_def legacy_batch_def header_batch_def eval_commit Let_def cong: if_weak_cong let_weak_cong)
  have "CommitEpoch shards bl seen rd cc t =
     publish_epoch shards bl seen rd 0 0 2 cc (t\<lparr>tp_global_batch_seq := 2, tp_global_seq := 20\<rparr>)"
    using assms f(3) by (simp add: CommitEpoch_def f(1,2) TryReserveCommitRanges_def kGOICapacity_def UINT64_MAX_def flip: numeral_2_eq_2)
  then have "\<not> tp_capacity_exhausted (snd (CommitEpoch shards bl seen rd cc t))"
    using assms f(4) by (simp, intro publish_epoch_outcome(1)) auto
  moreover have "accepted (tp_session_table t) rd = rd" using f(4) by (simp add: guard_rejects_def filter_id_conv)
  ultimately show ?thesis unfolding rd_def by blast
qed

theorem sequencer_log_is_total_order_witness:
  "\<exists>s. seq_reach (MakeSessionKey 7 0) sample_seq s \<and> sq_log s = [legacy_batch 0, legacy_batch 1] \<and>
     index_holds 0 0 (sq_log s) (sq_tp s) \<and> sorted_wrt (<) (emits (MakeSessionKey 7 0) (sq_log s))"
proof -
  let ?k = "MakeSessionKey 7 0"
  define inp where "inp = [legacy_batch 1, legacy_batch 0]"
  define rd where "rd = [legacy_batch 0, legacy_batch 1]"
  define ps where "ps = sample_pass"
  note facts = sample_pass_facts[folded rd_def ps_def] and ci = legacy_batch_facts(1)[folded inp_def]
  let ?t = "sample_topic\<lparr>tp_current_epoch_for_hold := 1, tp_cached_epoch := 1\<rparr>"
  have e: "ProcessLevel5BatchesShard Level5ShardState_init ?t inp [] = ps" by (simp only: ps_def inp_def)
  have running: "\<not> tp_capacity_exhausted ?t" "tp_recovery_complete ?t" by (simp_all add: sample_topic_def)
  have p: "ProcessLevel5Batches [Level5ShardState_init] ?t inp [] = Some ([lx_sh ps], lx_tp ps, rd)"
    unfolding ProcessLevel5Batches_def list.case Let_def e using running facts(1) by simp
  have t: "chain_topic sample_topic" "session_table_ok (tp_session_table sample_topic)" "tp_global_seq sample_topic = 0" "tp_global_batch_seq sample_topic = 0"
    "tp_control_epoch sample_topic = 1" using sample_topic_starts by (simp_all add: chain_topic_def sample_topic_def UsesTrueClientChainOrdering_def)
  have kl: "keeps_log ?t (lx_tp ps)" by (rule ProcessLevel5Batches_keeps[OF p])
  have tp: "tp_global_batch_seq (lx_tp ps) = 0" "tp_global_seq (lx_tp ps) = 0" "session_table_ok (tp_session_table (lx_tp ps))"
    using kl t(2-4) facts(2) by (simp_all add: keeps_log_def)
  note cm = sample_epoch_commits[OF tp(1,2) facts(2) tp(3), folded rd_def]
  have u: "u64 (0 + 1) = 1" and ne: "rd \<noteq> []" by (simp_all add: rd_def UINT64_MAX_def)
  have l: "map (mark_stale 1) inp = inp" "split_levels inp = ([], inp)"
    unfolding inp_def list.map legacy_batch_facts(2) by (simp_all add: split_levels_def legacy_batch_facts(3))
  have "\<exists>s. process_epoch 0 inp sample_seq = Some s \<and> sq_shards s = [lx_sh ps] \<and> sq_log s = rd"
    unfolding process_epoch_def Let_def sample_seq_def SeqState.simps t(5) l prod.case sequence_batches_def count_stale_def
      u p option.case append_Nil
    using cm ne by (simp split: prod.split) (metis snd_conv)
  then obtain s where s: "process_epoch 0 inp sample_seq = Some s" "sq_shards s = [lx_sh ps]" "sq_log s = rd" by blast
  have "session_kept ?k sample_seq s" using s facts(3) by (auto simp: session_kept_def)
  then have r: "seq_reach ?k sample_seq s"
    by (intro seq_reach.act[OF seq_reach.start, where a = "EpochAction 0 inp"]) (use ci s(1) in simp_all)
  have "index_holds 0 0 (sq_log s) (sq_tp s) \<and> sorted_wrt (<) (emits ?k (sq_log s))"
    using sequencer_log_is_total_order[OF r, of Level5ShardState_init] shard_ok_init typed_shard_init t by (simp add: sample_seq_def)
  then show ?thesis using r s(3) unfolding rd_def by blast
qed

end
