(* ===== verification/Mailbox.thy ===== *)
theory Mailbox
  imports Prelude
begin

unbundle bit_operations_syntax

text \<open>
  The single-writer, single-reader record ring of the baseline control paths
  (\<open>cxl_transport/cxl_mailbox_ring.h\<close>).  Fields keep their width; a \<open>CHECK\<close> that aborts the process
  is \<open>None\<close> (or \<open>TooSmall\<close>).  The slots of a ring are numbered; \<open>SlotAt\<close> gives their address.
  Slots with different numbers occupy different bytes as long as \<open>record_size\<close> is at most \<open>2^32 - 128\<close> (shown in
  \<open>MailboxSegments\<close>); above that \<open>SlotStride\<close> truncates to zero and the slots of the code coincide, which numbered slots do not show.
  The
  producer's private shadow of the read cursor is part of the ring record, and a cursor read that
  forces a fetch is a plain read, since fences and flushes order every publication before it.

  Producer and consumer run concurrently: \<open>ring_step\<close> interleaves the pieces \<open>TryProduce\<close> and
  \<open>TryConsume\<close> are composed of.  The invariant counts records in \<open>nat\<close>, so the results hold however
  often the 64-bit cursors wrap.
\<close>

definition kMailboxRingMagic :: "32 word" where "kMailboxRingMagic = 0x584D4245"

definition kMailboxRingVersion :: "32 word" where "kMailboxRingVersion = 1"

definition kCacheLine :: "64 word" where "kCacheLine = 64"

definition AlignUp :: "64 word \<Rightarrow> 64 word \<Rightarrow> 64 word" where
  "AlignUp n a = (n + a - 1) AND NOT (a - 1)"

datatype PerRingStatus = SUCCESS | FULL | WEDGED

record MailboxSlot =
  ms_seq :: "64 word"
  ms_len :: "32 word"
  ms_payload :: "8 word list"

record MailboxRing =
  mr_magic :: "32 word"
  mr_version :: "32 word"
  mr_record_size :: "32 word"
  mr_capacity :: "32 word"
  mr_slot_stride :: "32 word"
  mr_slots_offset :: "64 word"
  mr_write_index :: "64 word"
  mr_read_index :: "64 word"
  mr_slots :: "nat \<Rightarrow> MailboxSlot"
  mr_cached_read_index :: "64 word"

definition sizeof_MailboxRingHeader :: "64 word" where "sizeof_MailboxRingHeader = 3 * kCacheLine"

definition sizeof_MailboxSlotHeader :: "64 word" where "sizeof_MailboxSlotHeader = kCacheLine"

subsection \<open>Layout\<close>

definition SlotStride :: "32 word \<Rightarrow> 32 word" where
  "SlotStride record_size =
     (if sizeof_MailboxSlotHeader + ucast record_size \<le> kCacheLine then ucast kCacheLine
      else ucast (AlignUp (sizeof_MailboxSlotHeader + ucast record_size) kCacheLine))"

definition BytesNeeded :: "32 word \<Rightarrow> 32 word \<Rightarrow> 64 word" where
  "BytesNeeded record_size capacity = sizeof_MailboxRingHeader + ucast (SlotStride record_size) * ucast capacity"

definition slot_number :: "32 word \<Rightarrow> 64 word \<Rightarrow> nat" where
  "slot_number capacity index = unat (ucast (index AND ucast (capacity - 1)) :: 32 word)"

definition SlotAt :: "64 word \<Rightarrow> MailboxRing \<Rightarrow> 64 word \<Rightarrow> 64 word" where
  "SlotAt base m index = base + mr_slots_offset m + of_nat (slot_number (mr_capacity m) index) * ucast (mr_slot_stride m)"

abbreviation slot_of :: "MailboxRing \<Rightarrow> 64 word \<Rightarrow> MailboxSlot" where
  "slot_of m index \<equiv> mr_slots m (slot_number (mr_capacity m) index)"

subsection \<open>Creation\<close>

definition ring_attach :: "64 word \<Rightarrow> 64 word \<Rightarrow> MailboxRing \<Rightarrow> MailboxRing option" where
  "ring_attach base region_bytes m =
     (if base \<noteq> 0 \<and> base mod kCacheLine = 0 \<and> mr_magic m = kMailboxRingMagic \<and> mr_version m = kMailboxRingVersion \<and>
         BytesNeeded (mr_record_size m) (mr_capacity m) \<le> region_bytes
      then Some (m\<lparr>mr_cached_read_index := mr_read_index m\<rparr>) else None)"

definition ring_create :: "64 word \<Rightarrow> 64 word \<Rightarrow> 32 word \<Rightarrow> 32 word \<Rightarrow> MailboxRing option" where
  "ring_create base region_bytes record_size capacity =
     (if base \<noteq> 0 \<and> base mod kCacheLine = 0 \<and> capacity AND (capacity - 1) = 0 \<and> BytesNeeded record_size capacity \<le> region_bytes
      then ring_attach base region_bytes
        \<lparr>mr_magic = kMailboxRingMagic, mr_version = kMailboxRingVersion, mr_record_size = record_size, mr_capacity = capacity,
         mr_slot_stride = SlotStride record_size, mr_slots_offset = sizeof_MailboxRingHeader, mr_write_index = 0, mr_read_index = 0,
         mr_slots = (\<lambda>_. \<lparr>ms_seq = 0, ms_len = 0, ms_payload = replicate (unat (SlotStride record_size) - 64) 0\<rparr>),
         mr_cached_read_index = 0\<rparr>
      else None)"

subsection \<open>Producer\<close>

text \<open>The space check against the shadow of the read cursor, refreshed only when the ring looks full.\<close>

definition space_check :: "64 word \<Rightarrow> MailboxRing \<Rightarrow> bool \<times> MailboxRing" where
  "space_check w m =
     (if ucast (mr_capacity m) \<le> w - mr_cached_read_index m
      then (w - mr_read_index m < ucast (mr_capacity m), m\<lparr>mr_cached_read_index := mr_read_index m\<rparr>)
      else (True, m))"

definition HasSpace :: "MailboxRing \<Rightarrow> bool \<times> MailboxRing" where
  "HasSpace m = space_check (mr_write_index m) m"

definition upd_slot :: "64 word \<Rightarrow> (MailboxSlot \<Rightarrow> MailboxSlot) \<Rightarrow> MailboxRing \<Rightarrow> MailboxRing" where
  "upd_slot w f m = m\<lparr>mr_slots := (mr_slots m)(slot_number (mr_capacity m) w := f (slot_of m w))\<rparr>"

definition write_body :: "64 word \<Rightarrow> 8 word list \<Rightarrow> 32 word \<Rightarrow> MailboxRing \<Rightarrow> MailboxRing" where
  "write_body w data len = upd_slot w (\<lambda>s. s\<lparr>ms_len := len, ms_payload := take (unat len) data @ drop (unat len) (ms_payload s)\<rparr>)"

definition stamp_seq :: "64 word \<Rightarrow> MailboxRing \<Rightarrow> MailboxRing" where
  "stamp_seq w = upd_slot w (\<lambda>s. s\<lparr>ms_seq := w + 1\<rparr>)"

definition PublishSlot :: "64 word \<Rightarrow> 8 word list \<Rightarrow> 32 word \<Rightarrow> MailboxRing \<Rightarrow> MailboxRing" where
  "PublishSlot w data len m = stamp_seq w (write_body w data len m)"

definition TryProduce :: "8 word list \<Rightarrow> 32 word \<Rightarrow> MailboxRing \<Rightarrow> bool \<times> MailboxRing" where
  "TryProduce data len m =
     (if mr_record_size m < len then (False, m)
      else let w = mr_write_index m; (ok, m1) = space_check w m
           in if ok then (True, (PublishSlot w data len m1)\<lparr>mr_write_index := w + 1\<rparr>) else (False, m1))"

text \<open>\<open>env\<close> is what the consumer does to the ring during the producer's pauses, by spin.\<close>

partial_function (option) Produce_loop ::
  "(nat \<Rightarrow> MailboxRing \<Rightarrow> MailboxRing) \<Rightarrow> nat \<Rightarrow> 8 word list \<Rightarrow> 32 word \<Rightarrow> MailboxRing \<Rightarrow> MailboxRing option" where
  "Produce_loop env spin data len m =
     (let (ok, m1) = TryProduce data len m
      in if ok then Some m1 else Produce_loop env (spin + 1) data len (env spin m1))"

definition Produce ::
  "(nat \<Rightarrow> MailboxRing \<Rightarrow> MailboxRing) \<Rightarrow> 8 word list \<Rightarrow> 32 word \<Rightarrow> MailboxRing \<Rightarrow> (bool \<times> MailboxRing) option" where
  "Produce env data len m =
     (if mr_record_size m < len then Some (False, m) else map_option (Pair True) (Produce_loop env 0 data len m))"

function bounded_spin :: "(nat \<Rightarrow> MailboxRing \<Rightarrow> MailboxRing) \<Rightarrow> 64 word \<Rightarrow> nat \<Rightarrow> nat \<Rightarrow> MailboxRing \<Rightarrow> bool \<times> MailboxRing" where
  "bounded_spin env w max_spins spin m =
     (case space_check w m of
        (True, m1) \<Rightarrow> (True, m1)
      | (False, m1) \<Rightarrow> if max_spins \<le> spin then (False, m1) else bounded_spin env w max_spins (spin + 1) (env spin m1))"
  by pat_completeness auto
termination by (relation "measure (\<lambda>(env, w, max_spins, spin, m). max_spins - spin)") auto

definition TryProduceBounded :: "(nat \<Rightarrow> MailboxRing \<Rightarrow> MailboxRing) \<Rightarrow> 8 word list \<Rightarrow> 32 word \<Rightarrow> nat \<Rightarrow> MailboxRing \<Rightarrow> PerRingStatus \<times> MailboxRing" where
  "TryProduceBounded env data len max_spins m =
     (if mr_record_size m < len then (FULL, m)
      else let w = mr_write_index m; (ok, m1) = bounded_spin env w max_spins 0 m
           in if ok then (SUCCESS, (PublishSlot w data len m1)\<lparr>mr_write_index := w + 1\<rparr>) else (WEDGED, m1))"

subsection \<open>Consumer\<close>

datatype ConsumeResult = Empty | Consumed "8 word list" | TooSmall

definition slot_data :: "MailboxSlot \<Rightarrow> 8 word list" where
  "slot_data s = take (unat (ms_len s)) (ms_payload s)"

definition published :: "MailboxRing \<Rightarrow> bool" where
  "published m \<longleftrightarrow> ms_seq (slot_of m (mr_read_index m)) = mr_read_index m + 1"

definition TryConsume :: "32 word \<Rightarrow> MailboxRing \<Rightarrow> ConsumeResult \<times> MailboxRing" where
  "TryConsume out_cap m =
     (if \<not> published m then (Empty, m)
      else let s = slot_of m (mr_read_index m)
           in if out_cap < ms_len s then (TooSmall, m)
              else (Consumed (slot_data s), m\<lparr>mr_read_index := mr_read_index m + 1\<rparr>))"

definition SizeApprox :: "MailboxRing \<Rightarrow> 64 word" where
  "SizeApprox m = mr_write_index m - mr_read_index m"

subsection \<open>Counting invariant\<close>

declare bounded_spin.simps [simp del]

lemma ucast_pow: "k < 32 \<Longrightarrow> ucast (2 ^ k :: 32 word) = (2 ^ k :: 64 word)"
  by (rule bit_word_eqI) (auto simp: bit_simps)

lemma ucast_low_mask: "k < 32 \<Longrightarrow> ucast (2 ^ k - 1 :: 32 word) = (mask k :: 64 word)"
  by (rule bit_word_eqI) (auto simp add: bit_simps simp flip: mask_eq_exp_minus_1)

lemma slot_number_mod:
  assumes "k < 32"
  shows "slot_number (2 ^ k) (of_nat i) = i mod 2 ^ k"
proof -
  have "(of_nat i AND ucast (2 ^ k - 1 :: 32 word) :: 64 word) = take_bit k (of_nat i)"
    using assms by (simp add: ucast_low_mask take_bit_eq_mask)
  then show ?thesis
    using assms unfolding slot_number_def
    by (simp add: unsigned_ucast_eq unsigned_take_bit_eq take_bit_of_nat unsigned_of_nat min_def) (simp add: take_bit_eq_mod)
qed

lemma unat_small: "n < 2 ^ 64 \<Longrightarrow> unat (of_nat n :: 64 word) = n"
  by (simp add: unsigned_of_nat take_bit_nat_eq_self)

lemma small_of_nat_eq:
  assumes "a \<le> b" "b < a + 2 ^ 64"
  shows "(of_nat a :: 64 word) = of_nat b \<longleftrightarrow> a = b"
proof
  assume "(of_nat a :: 64 word) = of_nat b"
  then have "of_nat (b - a) = (0 :: 64 word)" using assms(1) by (simp add: of_nat_diff)
  then have "unat (of_nat (b - a) :: 64 word) = 0" by simp
  then have "b - a = 0" using unat_small[of "b - a"] assms by linarith
  then show "a = b" using assms(1) by simp
qed simp

lemma cursor_distance:
  assumes "k < 32" "C \<le> W"  "W \<le> C + 2 ^ k"
  shows "(2 ^ k :: 64 word) \<le> of_nat W - of_nat C \<longleftrightarrow> 2 ^ k \<le> W - C"
    "unat (of_nat W - of_nat C :: 64 word) = W - C"
proof -
  have "(2 :: nat) ^ k < 2 ^ 32" using assms(1) by (intro power_strict_increasing) simp_all
  then have b: "W - C < 2 ^ 64" using assms(3) by simp
  then show u: "unat (of_nat W - of_nat C :: 64 word) = W - C"
    using assms(2) by (simp flip: of_nat_diff add: unat_small)
  have p: "unat (2 ^ k :: 64 word) = 2 ^ k" using unat_small[of "2 ^ k"] power_strict_increasing[of k 64 "2 :: nat"] assms(1) by simp
  show "(2 ^ k :: 64 word) \<le> of_nat W - of_nat C \<longleftrightarrow> 2 ^ k \<le> W - C"
    unfolding word_le_nat_alt u p ..
qed

text \<open>\<open>W\<close> records were stamped, \<open>R\<close> consumed, and the shadow was last refreshed at \<open>C\<close>; the last
  \<open>capacity\<close> stamps are in the slots, and a slot not used yet carries none.\<close>

definition ring_inv :: "nat \<Rightarrow> nat \<Rightarrow> nat \<Rightarrow> nat \<Rightarrow> MailboxRing \<Rightarrow> bool" where
  "ring_inv k W R C m \<longleftrightarrow> k < 32 \<and> mr_capacity m = 2 ^ k \<and> mr_read_index m = of_nat R \<and> mr_cached_read_index m = of_nat C \<and>
     C \<le> R \<and> R \<le> W \<and> W \<le> C + 2 ^ k \<and>
     (\<forall>i. i < W \<and> W \<le> i + 2 ^ k \<longrightarrow> ms_seq (mr_slots m (i mod 2 ^ k)) = of_nat (i + 1)) \<and>
     (\<forall>j. W \<le> j \<and> j < 2 ^ k \<longrightarrow> ms_seq (mr_slots m j) = 0)"

lemma mod_window:
  fixes n :: nat
  assumes "i < W" "W < i + n"
  shows "i mod n \<noteq> W mod n"
proof
  assume "i mod n = W mod n"
  then have "n dvd W - i" using assms(1) mod_eq_dvd_iff_nat[of i W n] by simp
  then show False using assms dvd_imp_le[of n "W - i"] by simp
qed

lemma slot_number_inv: "ring_inv k W R C m \<Longrightarrow> slot_number (mr_capacity m) (of_nat i) = i mod 2 ^ k"
  by (simp add: ring_inv_def slot_number_mod)

lemma space_check_inv:
  assumes "ring_inv k W R C m"
  obtains C' where "space_check (of_nat W) m = (W < R + 2 ^ k, m\<lparr>mr_cached_read_index := of_nat C'\<rparr>)"
    "ring_inv k W R C' (m\<lparr>mr_cached_read_index := of_nat C'\<rparr>)" "W < R + 2 ^ k \<longrightarrow> W < C' + 2 ^ k"
proof -
  have f: "k < 32" "mr_capacity m = 2 ^ k" "mr_read_index m = of_nat R" "mr_cached_read_index m = of_nat C" "C \<le> R" "R \<le> W"
    "W \<le> C + 2 ^ k" using assms by (simp_all add: ring_inv_def)
  have d: "(2 ^ k :: 64 word) \<le> of_nat W - of_nat C \<longleftrightarrow> 2 ^ k \<le> W - C"
    using f by (intro cursor_distance(1)) simp_all
  have e: "of_nat W - of_nat R < (2 ^ k :: 64 word) \<longleftrightarrow> W < R + 2 ^ k"
    unfolding linorder_not_le[symmetric] using cursor_distance(1)[OF f(1), of R W] f(5-7) by linarith
  have c: "ucast (mr_capacity m) = (2 ^ k :: 64 word)" using f(1,2) by (simp add: ucast_pow)
  show thesis
  proof (cases "2 ^ k \<le> W - C")
    case True
    have "ring_inv k W R R (m\<lparr>mr_cached_read_index := of_nat R\<rparr>)" using assms by (auto simp: ring_inv_def)
    moreover have "space_check (of_nat W) m = (W < R + 2 ^ k, m\<lparr>mr_cached_read_index := of_nat R\<rparr>)"
      using True by (simp add: space_check_def c f(3,4) d e)
    ultimately show thesis using f(5) by (intro that[of R]) auto
  next
    case False
    have "space_check (of_nat W) m = (W < R + 2 ^ k, m\<lparr>mr_cached_read_index := of_nat C\<rparr>)"
      using False f(5-7) by (simp add: space_check_def c f(3,4) d)
    moreover have "ring_inv k W R C (m\<lparr>mr_cached_read_index := of_nat C\<rparr>)" using assms f by (simp add: ring_inv_def)
    ultimately show thesis using False by (intro that[of C]) auto
  qed
qed

lemma published_inv:
  assumes "ring_inv k W R C m"
  shows "published m \<longleftrightarrow> R < W"
proof -
  have f: "k < 32" "mr_read_index m = of_nat R" "C \<le> R" "R \<le> W" "W \<le> C + 2 ^ k"
    "\<And>i. i < W \<Longrightarrow> W \<le> i + 2 ^ k \<Longrightarrow> ms_seq (mr_slots m (i mod 2 ^ k)) = of_nat (i + 1)"
    "\<And>j. W \<le> j \<Longrightarrow> j < 2 ^ k \<Longrightarrow> ms_seq (mr_slots m j) = 0" using assms by (simp_all add: ring_inv_def)
  have p: "published m \<longleftrightarrow> ms_seq (mr_slots m (R mod 2 ^ k)) = of_nat (R + 1)"
    unfolding published_def f(2) slot_number_inv[OF assms] by (simp add: add.commute)
  have cap: "(2 :: nat) ^ k < 2 ^ 64" using f(1) by (intro power_strict_increasing) simp_all
  show ?thesis
  proof (cases "R < W")
    case True
    then show ?thesis using p f(3,5,6) by simp
  next
    case False
    then have [simp]: "R = W" using f(4) by simp
    show ?thesis
    proof (cases "W < 2 ^ k")
      case True
      then show ?thesis using p f(7)[of W] cap small_of_nat_eq[of 0 "W + 1"] by simp
    next
      case False
      define B where "B = W - 2 ^ k"
      have B: "W = B + 2 ^ k" "B < W" using False order_less_le_trans[of 0 "2 ^ k" W] by (simp_all add: B_def)
      have "ms_seq (mr_slots m (W mod 2 ^ k)) = of_nat (B + 1)" using f(6)[OF B(2)] B(1) by simp
      moreover have "of_nat (B + 1) \<noteq> (of_nat (W + 1) :: 64 word)" using small_of_nat_eq[of "B + 1" "W + 1"] B cap by linarith
      ultimately show ?thesis using p by simp
    qed
  qed
qed

lemma stamp_inv:
  assumes "ring_inv k W R C m" "W < C + 2 ^ k"
  shows "ring_inv k (W + 1) R C (stamp_seq (of_nat W) m)"
proof -
  have f: "\<And>i. i < W \<Longrightarrow> W \<le> i + 2 ^ k \<Longrightarrow> ms_seq (mr_slots m (i mod 2 ^ k)) = of_nat (i + 1)"
    "\<And>j. W \<le> j \<Longrightarrow> j < 2 ^ k \<Longrightarrow> ms_seq (mr_slots m j) = 0" using assms(1) by (simp_all add: ring_inv_def)
  have s: "mr_slots (stamp_seq (of_nat W) m) = (mr_slots m)(W mod 2 ^ k := (mr_slots m (W mod 2 ^ k))\<lparr>ms_seq := of_nat (W + 1)\<rparr>)"
    by (simp add: stamp_seq_def upd_slot_def slot_number_inv[OF assms(1)] add.commute)
  have "ms_seq (mr_slots (stamp_seq (of_nat W) m) (i mod 2 ^ k)) = of_nat (i + 1)" if "i < W + 1" "W + 1 \<le> i + 2 ^ k" for i
    using that f(1)[of i] mod_window[of i W "2 ^ k"] unfolding s by (cases "i = W") simp_all
  moreover have "ms_seq (mr_slots (stamp_seq (of_nat W) m) j) = 0" if "W + 1 \<le> j" "j < 2 ^ k" for j
    using that f(2)[of j] unfolding s by simp
  ultimately show ?thesis using assms unfolding ring_inv_def by (simp add: stamp_seq_def upd_slot_def)
qed

lemma write_body_simps [simp]:
  "ms_seq (mr_slots (write_body w data len m) j) = ms_seq (mr_slots m j)" "mr_capacity (write_body w data len m) = mr_capacity m"
  "mr_read_index (write_body w data len m) = mr_read_index m" "mr_write_index (write_body w data len m) = mr_write_index m"
  "mr_cached_read_index (write_body w data len m) = mr_cached_read_index m" "mr_record_size (write_body w data len m) = mr_record_size m"
  by (simp_all add: write_body_def upd_slot_def)

lemma stamp_seq_simps [simp]:
  "mr_capacity (stamp_seq w m) = mr_capacity m" "mr_read_index (stamp_seq w m) = mr_read_index m"
  "mr_write_index (stamp_seq w m) = mr_write_index m" "mr_cached_read_index (stamp_seq w m) = mr_cached_read_index m"
  "mr_record_size (stamp_seq w m) = mr_record_size m" "slot_data (mr_slots (stamp_seq w m) j) = slot_data (mr_slots m j)"
  by (simp_all add: stamp_seq_def upd_slot_def slot_data_def)

lemma body_inv: "ring_inv k W R C m \<Longrightarrow> ring_inv k W R C (write_body w data len m)"
  by (simp add: ring_inv_def)

lemma consume_inv: "ring_inv k W R C m \<Longrightarrow> R < W \<Longrightarrow> ring_inv k W (R + 1) C (m\<lparr>mr_read_index := of_nat R + 1\<rparr>)"
  by (simp add: ring_inv_def add.commute)

lemma slot_data_body:
  assumes "ring_inv k W R C m"
  shows "R \<le> i \<Longrightarrow> i < W \<Longrightarrow> W < R + 2 ^ k \<Longrightarrow>
      slot_data (mr_slots (write_body (of_nat W) data len m) (i mod 2 ^ k)) = slot_data (mr_slots m (i mod 2 ^ k))"
    "unat len \<le> length data \<Longrightarrow> slot_data (mr_slots (write_body (of_nat W) data len m) (W mod 2 ^ k)) = take (unat len) data"
proof -
  show "slot_data (mr_slots (write_body (of_nat W) data len m) (i mod 2 ^ k)) = slot_data (mr_slots m (i mod 2 ^ k))"
    if "R \<le> i" "i < W" "W < R + 2 ^ k" for i
    using mod_window[of i W "2 ^ k"] that by (simp add: write_body_def upd_slot_def slot_number_inv[OF assms])
  show "slot_data (mr_slots (write_body (of_nat W) data len m) (W mod 2 ^ k)) = take (unat len) data" if "unat len \<le> length data"
    using that by (simp add: write_body_def upd_slot_def slot_number_inv[OF assms] slot_data_def min_def)
qed

end
