(* ===== verification/MailboxFifo.thy ===== *)
theory MailboxFifo
  imports Mailbox
begin

unbundle bit_operations_syntax

text \<open>
  The mailbox ring as a FIFO queue: the interleavings of one producer and one consumer
  (\<open>ring_step\<close>), the sequential operations, and the queue contract \<open>spsc_queue\<close> the segments and the
  baseline sequencers rely on.
\<close>

subsection \<open>Interleavings\<close>

text \<open>Where the producer is inside \<open>TryProduce\<close> and the consumer inside \<open>TryConsume\<close>, with the records
  published and delivered so far.\<close>

datatype ProdPc = PIdle | PBody "8 word list" "32 word" | PStamp "8 word list" | PAdvance

datatype ConsPc = CIdle | CCopy | CAdvance "8 word list"

record RingSys =
  rs_ring :: MailboxRing
  rs_prod :: ProdPc
  rs_cons :: ConsPc
  rs_sent :: "8 word list list"
  rs_recv :: "8 word list list"

definition sys_init :: "MailboxRing \<Rightarrow> RingSys" where
  "sys_init m = \<lparr>rs_ring = m, rs_prod = PIdle, rs_cons = CIdle, rs_sent = [], rs_recv = []\<rparr>"

inductive ring_step :: "RingSys \<Rightarrow> RingSys \<Rightarrow> bool" where
  produce_check: "rs_prod s = PIdle \<Longrightarrow> \<not> mr_record_size (rs_ring s) < len \<Longrightarrow> unat len \<le> length data \<Longrightarrow>
    space_check (mr_write_index (rs_ring s)) (rs_ring s) = (ok, m) \<Longrightarrow>
    ring_step s (s\<lparr>rs_ring := m, rs_prod := (if ok then PBody data len else PIdle)\<rparr>)"
| produce_body: "rs_prod s = PBody data len \<Longrightarrow>
    ring_step s (s\<lparr>rs_ring := write_body (mr_write_index (rs_ring s)) data len (rs_ring s), rs_prod := PStamp (take (unat len) data)\<rparr>)"
| produce_stamp: "rs_prod s = PStamp d \<Longrightarrow>
    ring_step s (s\<lparr>rs_ring := stamp_seq (mr_write_index (rs_ring s)) (rs_ring s), rs_prod := PAdvance, rs_sent := rs_sent s @ [d]\<rparr>)"
| produce_advance: "rs_prod s = PAdvance \<Longrightarrow>
    ring_step s (s\<lparr>rs_ring := (rs_ring s)\<lparr>mr_write_index := mr_write_index (rs_ring s) + 1\<rparr>, rs_prod := PIdle\<rparr>)"
| consume_check: "rs_cons s = CIdle \<Longrightarrow> published (rs_ring s) \<Longrightarrow> ring_step s (s\<lparr>rs_cons := CCopy\<rparr>)"
| consume_copy: "rs_cons s = CCopy \<Longrightarrow>
    ring_step s (s\<lparr>rs_cons := CAdvance (slot_data (slot_of (rs_ring s) (mr_read_index (rs_ring s))))\<rparr>)"
| consume_advance: "rs_cons s = CAdvance d \<Longrightarrow>
    ring_step s (s\<lparr>rs_ring := (rs_ring s)\<lparr>mr_read_index := mr_read_index (rs_ring s) + 1\<rparr>, rs_cons := CIdle, rs_recv := rs_recv s @ [d]\<rparr>)"

fun prod_inv :: "nat \<Rightarrow> nat \<Rightarrow> nat \<Rightarrow> MailboxRing \<Rightarrow> ProdPc \<Rightarrow> bool" where
  "prod_inv k W C m PIdle = (mr_write_index m = of_nat W)"
| "prod_inv k W C m (PBody data len) = (mr_write_index m = of_nat W \<and> W < C + 2 ^ k \<and> unat len \<le> length data)"
| "prod_inv k W C m (PStamp d) = (mr_write_index m = of_nat W \<and> W < C + 2 ^ k \<and> slot_data (mr_slots m (W mod 2 ^ k)) = d)"
| "prod_inv k W C m PAdvance = (mr_write_index m + 1 = of_nat W)"

fun cons_inv :: "8 word list list \<Rightarrow> nat \<Rightarrow> ConsPc \<Rightarrow> bool" where
  "cons_inv sent R CIdle = True"
| "cons_inv sent R CCopy = (R < length sent)"
| "cons_inv sent R (CAdvance d) = (R < length sent \<and> d = sent ! R)"

definition sys_inv :: "nat \<Rightarrow> nat \<Rightarrow> RingSys \<Rightarrow> bool" where
  "sys_inv k C s \<longleftrightarrow> ring_inv k (length (rs_sent s)) (length (rs_recv s)) C (rs_ring s) \<and>
     prod_inv k (length (rs_sent s)) C (rs_ring s) (rs_prod s) \<and> cons_inv (rs_sent s) (length (rs_recv s)) (rs_cons s) \<and>
     take (length (rs_recv s)) (rs_sent s) = rs_recv s \<and>
     (\<forall>i. length (rs_recv s) \<le> i \<and> i < length (rs_sent s) \<longrightarrow> slot_data (mr_slots (rs_ring s) (i mod 2 ^ k)) = rs_sent s ! i)"

lemma cons_inv_append: "cons_inv sent R c \<Longrightarrow> cons_inv (sent @ [d]) R c"
  by (cases c) (auto simp: nth_append)

lemma prod_inv_read: "prod_inv k W C (m\<lparr>mr_read_index := r\<rparr>) p = prod_inv k W C m p"
  by (cases p) simp_all

lemma sys_inv_step:
  assumes "ring_step s s'" "sys_inv k C s"
  shows "\<exists>C'. sys_inv k C' s'"
  using assms
proof (cases rule: ring_step.cases)
  case (produce_check len data ok m)
  have w: "mr_write_index (rs_ring s) = of_nat (length (rs_sent s))" using assms(2) produce_check(2) by (simp add: sys_inv_def)
  have "ring_inv k (length (rs_sent s)) (length (rs_recv s)) C (rs_ring s)" using assms(2) by (simp add: sys_inv_def)
  then obtain C' where c: "space_check (of_nat (length (rs_sent s))) (rs_ring s) =
      (length (rs_sent s) < length (rs_recv s) + 2 ^ k, rs_ring s\<lparr>mr_cached_read_index := of_nat C'\<rparr>)"
    "ring_inv k (length (rs_sent s)) (length (rs_recv s)) C' (rs_ring s\<lparr>mr_cached_read_index := of_nat C'\<rparr>)"
    "length (rs_sent s) < length (rs_recv s) + 2 ^ k \<longrightarrow> length (rs_sent s) < C' + 2 ^ k"
    by (rule space_check_inv)
  have m: "m = rs_ring s\<lparr>mr_cached_read_index := of_nat C'\<rparr>" "ok \<longleftrightarrow> length (rs_sent s) < length (rs_recv s) + 2 ^ k"
    using produce_check(5) unfolding w c(1) by auto
  have "sys_inv k C' s'" using assms(2) c(2,3) w m(2) produce_check(4) unfolding produce_check(1) m(1) by (simp add: sys_inv_def)
  then show ?thesis ..
next
  case (produce_body data len)
  have i: "ring_inv k (length (rs_sent s)) (length (rs_recv s)) C (rs_ring s)" using assms(2) by (simp add: sys_inv_def)
  have w: "mr_write_index (rs_ring s) = of_nat (length (rs_sent s))" "length (rs_sent s) < C + 2 ^ k" "unat len \<le> length data"
    using assms(2) produce_body(2) by (simp_all add: sys_inv_def)
  have lt: "length (rs_sent s) < length (rs_recv s) + 2 ^ k" using i w(2) by (simp add: ring_inv_def)
  have "sys_inv k C s'"
    using assms(2) body_inv[OF i] slot_data_body(1)[OF i _ _ lt] slot_data_body(2)[OF i w(3)] w
    unfolding produce_body(1) by (simp add: sys_inv_def)
  then show ?thesis ..
next
  case (produce_stamp d)
  have i: "ring_inv k (length (rs_sent s)) (length (rs_recv s)) C (rs_ring s)" using assms(2) by (simp add: sys_inv_def)
  have w: "mr_write_index (rs_ring s) = of_nat (length (rs_sent s))" "length (rs_sent s) < C + 2 ^ k"
    "slot_data (mr_slots (rs_ring s) (length (rs_sent s) mod 2 ^ k)) = d"
    using assms(2) produce_stamp(2) by (simp_all add: sys_inv_def)
  have le: "length (rs_recv s) \<le> length (rs_sent s)" using i by (simp add: ring_inv_def)
  have "sys_inv k C s'"
    using assms(2) le stamp_inv[OF i w(2)] cons_inv_append w unfolding produce_stamp(1)
    by (auto simp: sys_inv_def less_Suc_eq nth_append add.commute)
  then show ?thesis ..
next
  case produce_advance
  have "ring_inv k W R C (m\<lparr>mr_write_index := x\<rparr>) = ring_inv k W R C m" for W R m x by (simp add: ring_inv_def)
  then have "sys_inv k C s'" using assms(2) produce_advance(2) unfolding produce_advance(1) by (simp add: sys_inv_def)
  then show ?thesis ..
next
  case consume_check
  have "sys_inv k C s'" using assms(2) consume_check(3) published_inv unfolding consume_check(1) by (auto simp: sys_inv_def)
  then show ?thesis ..
next
  case consume_copy
  have i: "ring_inv k (length (rs_sent s)) (length (rs_recv s)) C (rs_ring s)" using assms(2) by (simp add: sys_inv_def)
  have r: "mr_read_index (rs_ring s) = of_nat (length (rs_recv s))" using i by (simp add: ring_inv_def)
  have "sys_inv k C s'" using assms(2) consume_copy(2) slot_number_inv[OF i] unfolding consume_copy(1) r by (simp add: sys_inv_def)
  then show ?thesis ..
next
  case (consume_advance d)
  have i: "ring_inv k (length (rs_sent s)) (length (rs_recv s)) C (rs_ring s)" using assms(2) by (simp add: sys_inv_def)
  have c: "length (rs_recv s) < length (rs_sent s)" "d = rs_sent s ! length (rs_recv s)" using assms(2) consume_advance(2) by (simp_all add: sys_inv_def)
  have r: "mr_read_index (rs_ring s) = of_nat (length (rs_recv s))" using i by (simp add: ring_inv_def)
  have "sys_inv k C s'" using assms(2) consume_inv[OF i c(1)] c unfolding consume_advance(1) r
    by (simp add: sys_inv_def prod_inv_read take_Suc_conv_app_nth)
  then show ?thesis ..
qed

lemma sys_inv_steps: "ring_step\<^sup>*\<^sup>* s s' \<Longrightarrow> sys_inv k C s \<Longrightarrow> \<exists>C'. sys_inv k C' s'"
  by (induction rule: rtranclp_induct) (use sys_inv_step in blast)+

lemma power_of_two_nat: "n > 0 \<Longrightarrow> n AND (n - 1) = 0 \<Longrightarrow> \<exists>k. n = 2 ^ k" for n :: nat
proof (induction n rule: less_induct)
  case (less n)
  show ?case
  proof (cases "even n")
    case True
    then obtain h where h: "n = 2 * h" "h > 0" using less.prems(1) by (auto elim: evenE)
    have "(n - 1) div 2 = h - 1" "odd (n - 1)" using h by auto
    then have "n AND (n - 1) = 2 * (h AND (h - 1))" using h(1) by (subst and_rec) simp
    then obtain k where "h = 2 ^ k" using less.IH[of h] less.prems(2) h by auto
    then show ?thesis using h(1) by (intro exI[of _ "k + 1"]) simp
  next
    case False
    then have "(n - 1) div 2 = n div 2" "even (n - 1)" by (auto elim: oddE)
    then have "n AND (n - 1) = 2 * (n div 2)" using False by (subst and_rec) simp
    then show ?thesis using less.prems False by (intro exI[of _ 0]) (auto elim: oddE)
  qed
qed

lemma power_of_two_word:
  fixes c :: "32 word"
  assumes "c \<noteq> 0" "c AND (c - 1) = 0"
  obtains k where "k < 32" "c = 2 ^ k"
proof -
  have "unat c > 0" using assms(1) by (simp add: unat_gt_0)
  moreover have "unat c AND (unat c - 1) = 0"
    using arg_cong[OF assms(2), of unat] unfolding unsigned_and_eq unat_minus_one[OF assms(1)] by simp
  ultimately obtain k where k: "unat c = 2 ^ k" using power_of_two_nat by blast
  have "(2 :: nat) ^ k < 2 ^ 32" using unsigned_less[of c] unfolding k[symmetric] by simp
  then have "k < 32" by (simp only: power_strict_increasing_iff)
  moreover have "c = 2 ^ k" using arg_cong[OF k, of "of_nat :: nat \<Rightarrow> 32 word"] by simp
  ultimately show thesis by (rule that)
qed

lemma unat_pow: "k < 32 \<Longrightarrow> unat (2 ^ k :: 32 word) = 2 ^ k"
  using power_strict_increasing[of k 32 "2 :: nat"] unsigned_of_nat[of "2 ^ k", where ?'b = 32]
  by (simp add: take_bit_nat_eq_self)

lemma create_inv:
  assumes "ring_create base bytes record_size capacity = Some m" "capacity \<noteq> 0"
  obtains k where "ring_inv k 0 0 0 m" "mr_write_index m = 0" "mr_capacity m = capacity" "capacity = 2 ^ k" "mr_record_size m = record_size"
proof -
  have "capacity AND (capacity - 1) = 0" using assms(1) by (auto simp: ring_create_def split: if_splits)
  then obtain k where "k < 32" "capacity = 2 ^ k" using assms(2) power_of_two_word by blast
  then show thesis using assms(1) by (intro that[of k]) (auto simp: ring_create_def ring_attach_def ring_inv_def split: if_splits)
qed

text \<open>A call of an operation is a run of these steps.\<close>

lemma try_produce_runs:
  assumes "rs_prod s = PIdle" "unat len \<le> length data" "TryProduce data len (rs_ring s) = (ok, m)"
  shows "ring_step\<^sup>*\<^sup>* s (s\<lparr>rs_ring := m, rs_sent := rs_sent s @ (if ok then [take (unat len) data] else [])\<rparr>)"
proof (cases "mr_record_size (rs_ring s) < len")
  case True
  then show ?thesis using assms(3) by (auto simp: TryProduce_def)
next
  case False
  let ?w = "mr_write_index (rs_ring s)"
  obtain b m1 where c: "space_check ?w (rs_ring s) = (b, m1)" by fastforce
  have w1: "mr_write_index m1 = ?w" using c by (auto simp: space_check_def split: if_splits)
  note s1 = produce_check[OF assms(1) False assms(2) c]
  show ?thesis
  proof (cases b)
    case True
    then have m: "m = (PublishSlot ?w data len m1)\<lparr>mr_write_index := ?w + 1\<rparr>" and ok: "ok = True"
      using assms(3) False c by (auto simp: TryProduce_def Let_def)
    let ?s1 = "s\<lparr>rs_ring := m1, rs_prod := PBody data len\<rparr>"
    let ?s2 = "s\<lparr>rs_ring := write_body ?w data len m1, rs_prod := PStamp (take (unat len) data)\<rparr>"
    let ?s3 = "s\<lparr>rs_ring := PublishSlot ?w data len m1, rs_prod := PAdvance, rs_sent := rs_sent s @ [take (unat len) data]\<rparr>"
    have "ring_step s ?s1" "ring_step ?s1 ?s2" "ring_step ?s2 ?s3"
      using s1 True produce_body[of ?s1 data len] produce_stamp[of ?s2] w1 by (simp_all add: PublishSlot_def)
    moreover have "ring_step ?s3 (s\<lparr>rs_ring := m, rs_sent := rs_sent s @ [take (unat len) data]\<rparr>)"
      using produce_advance[of ?s3] assms(1) w1 unfolding m by (cases s) (simp add: PublishSlot_def)
    ultimately show ?thesis unfolding ok if_True by (meson converse_rtranclp_into_rtranclp r_into_rtranclp)
  next
    case fb: False
    have "s\<lparr>rs_ring := m1, rs_prod := PIdle\<rparr> = s\<lparr>rs_ring := m1\<rparr>" using assms(1) by (cases s) simp
    moreover have "m = m1" "ok = False" using assms(3) False fb c by (auto simp: TryProduce_def Let_def)
    ultimately show ?thesis using s1 fb by auto
  qed
qed

lemma try_consume_runs:
  assumes "rs_cons s = CIdle" "TryConsume out_cap (rs_ring s) = (Consumed d, m)"
  shows "ring_step\<^sup>*\<^sup>* s (s\<lparr>rs_ring := m, rs_recv := rs_recv s @ [d]\<rparr>)"
proof -
  let ?s2 = "s\<lparr>rs_cons := CAdvance d\<rparr>"
  have f: "published (rs_ring s)" "d = slot_data (slot_of (rs_ring s) (mr_read_index (rs_ring s)))"
    "m = (rs_ring s)\<lparr>mr_read_index := mr_read_index (rs_ring s) + 1\<rparr>"
    using assms(2) by (auto simp: TryConsume_def Let_def split: if_splits)
  have e: "s\<lparr>rs_ring := x, rs_cons := CIdle, rs_recv := y\<rparr> = s\<lparr>rs_ring := x, rs_recv := y\<rparr>" for x y using assms(1) by (cases s) simp
  have "ring_step s (s\<lparr>rs_cons := CCopy\<rparr>)" "ring_step (s\<lparr>rs_cons := CCopy\<rparr>) ?s2"
    "ring_step ?s2 (s\<lparr>rs_ring := m, rs_recv := rs_recv s @ [d]\<rparr>)"
    using consume_check[OF assms(1) f(1)] consume_copy[of "s\<lparr>rs_cons := CCopy\<rparr>"] consume_advance[of ?s2 d] assms(1) f e by simp_all
  then show ?thesis by (meson converse_rtranclp_into_rtranclp r_into_rtranclp)
qed

text \<open>C7: the ring delivers what was published, once and in order.  Whatever the interleaving of
  the producer's and the consumer's steps (the body written before the stamp, the cursors moved
  last, the producer working from a stale read cursor), the records delivered are a prefix of those
  published, at most \<open>capacity\<close> are outstanding, an idle consumer sees a record exactly when one is
  outstanding, and an idle producer sees space exactly when fewer than \<open>capacity\<close> are.  The 64-bit
  cursors may wrap.\<close>

theorem mailbox_ring_is_fifo:
  assumes "ring_create base bytes record_size capacity = Some m" "capacity \<noteq> 0" "ring_step\<^sup>*\<^sup>* (sys_init m) s"
  shows "\<exists>q. rs_sent s = rs_recv s @ q \<and> length q \<le> unat capacity \<and> (published (rs_ring s) \<longleftrightarrow> q \<noteq> []) \<and>
     (rs_prod s = PIdle \<longrightarrow> (fst (HasSpace (rs_ring s)) \<longleftrightarrow> length q < unat capacity))"
proof -
  obtain k where k: "ring_inv k 0 0 0 m" "mr_write_index m = 0" "capacity = 2 ^ k" using create_inv[OF assms(1,2)] by metis
  have "sys_inv k 0 (sys_init m)" using k by (simp add: sys_inv_def sys_init_def)
  then obtain C where i: "sys_inv k C s" using sys_inv_steps[OF assms(3)] by blast
  let ?W = "length (rs_sent s)" and ?R = "length (rs_recv s)"
  have r: "ring_inv k ?W ?R C (rs_ring s)" using i by (simp add: sys_inv_def)
  then have b: "k < 32" "?R \<le> ?W" "?W \<le> ?R + 2 ^ k" by (simp_all add: ring_inv_def)
  have c: "unat capacity = 2 ^ k" using unat_pow[OF b(1)] k(3) by simp
  obtain C' where s: "space_check (of_nat ?W) (rs_ring s) = (?W < ?R + 2 ^ k, rs_ring s\<lparr>mr_cached_read_index := of_nat C'\<rparr>)"
    using space_check_inv[OF r] by metis
  have "rs_prod s = PIdle \<longrightarrow> (fst (HasSpace (rs_ring s)) \<longleftrightarrow> ?W < ?R + 2 ^ k)"
    using i s by (auto simp: sys_inv_def HasSpace_def)
  moreover have "rs_sent s = rs_recv s @ drop ?R (rs_sent s)" using i append_take_drop_id[of ?R "rs_sent s"] by (simp add: sys_inv_def)
  ultimately show ?thesis
    using published_inv[OF r] b c by (intro exI[of _ "drop ?R (rs_sent s)"]) auto
qed

subsection \<open>The queue contract\<close>

text \<open>What a client of one end relies on, between calls: the ring holds a list of records, a produce
  appends when there is room, a consume takes the first.\<close>

locale spsc_queue =
  fixes ok :: "'r \<Rightarrow> bool" and contents :: "'r \<Rightarrow> 8 word list list" and room :: "'r \<Rightarrow> nat" and limit :: "'r \<Rightarrow> nat"
    and produce :: "8 word list \<Rightarrow> 32 word \<Rightarrow> 'r \<Rightarrow> bool \<times> 'r" and space :: "'r \<Rightarrow> bool \<times> 'r"
    and consume :: "32 word \<Rightarrow> 'r \<Rightarrow> ConsumeResult \<times> 'r"
  assumes space_law: "ok m \<Longrightarrow> space m = (b, m') \<Longrightarrow>
      ok m' \<and> contents m' = contents m \<and> room m' = room m \<and> limit m' = limit m \<and> (b \<longleftrightarrow> length (contents m) < room m)"
    and produce_law: "ok m \<Longrightarrow> unat len \<le> length data \<Longrightarrow> produce data len m = (b, m') \<Longrightarrow>
      ok m' \<and> contents m' = contents m @ (if b then [take (unat len) data] else []) \<and> room m' = room m \<and> limit m' = limit m \<and>
      (b \<longleftrightarrow> unat len \<le> limit m \<and> length (contents m) < room m)"
    and consume_law: "ok m \<Longrightarrow> consume out_cap m = (x, m') \<Longrightarrow> ok m' \<and> room m' = room m \<and> limit m' = limit m \<and>
      (case x of Empty \<Rightarrow> contents m = [] \<and> m' = m | Consumed d \<Rightarrow> contents m = d # contents m' \<and> length d \<le> unat out_cap
       | TooSmall \<Rightarrow> contents m \<noteq> [] \<and> unat out_cap < length (hd (contents m)) \<and> m' = m)"
begin

lemma space_then_produce:
  assumes "ok m" "space m = (True, m1)" "unat len \<le> length data" "unat len \<le> limit m"
  shows "\<exists>m2. produce data len m1 = (True, m2) \<and> ok m2 \<and> contents m2 = contents m @ [take (unat len) data] \<and>
     room m2 = room m \<and> limit m2 = limit m"
proof -
  obtain b m2 where p: "produce data len m1 = (b, m2)" by fastforce
  show ?thesis using space_law[OF assms(1,2)] produce_law[OF _ assms(3) p] assms(4) p by auto
qed

lemma consume_keeps_space:
  assumes "ok m" "fst (space m)" "consume out_cap m = (x, m')"
  shows "fst (space m')"
proof -
  obtain b m1 b' m2 where s: "space m = (b, m1)" "space m' = (b', m2)" by fastforce
  have "length (contents m') \<le> length (contents m)"
    using consume_law[OF assms(1,3)] by (cases x) auto
  then show ?thesis using space_law[OF assms(1) s(1)] space_law[OF _ s(2)] consume_law[OF assms(1,3)] assms(2) s by simp
qed

lemma produce_consume:
  assumes "ok m" "contents m = []" "unat len \<le> length data" "produce data len m = (True, m1)" "len \<le> out_cap"
  shows "fst (consume out_cap m1) = Consumed (take (unat len) data)"
proof -
  obtain x m2 where c: "consume out_cap m1 = (x, m2)" by fastforce
  have p: "ok m1" "contents m1 = [take (unat len) data]" using produce_law[OF assms(1,3,4)] assms(2) by simp_all
  show ?thesis using consume_law[OF p(1) c] p(2) c assms(3,5) by (cases x) (auto simp: word_le_nat_alt)
qed

end

definition ring_at :: "nat \<Rightarrow> nat \<Rightarrow> nat \<Rightarrow> nat \<Rightarrow> MailboxRing \<Rightarrow> bool" where
  "ring_at k W R C m \<longleftrightarrow> ring_inv k W R C m \<and> mr_write_index m = of_nat W \<and>
     (\<forall>i. R \<le> i \<and> i < W \<longrightarrow> length (slot_data (mr_slots m (i mod 2 ^ k))) = unat (ms_len (mr_slots m (i mod 2 ^ k))))"

definition ring_ok :: "MailboxRing \<Rightarrow> bool" where
  "ring_ok m \<longleftrightarrow> (\<exists>k W R C. ring_at k W R C m)"

definition ring_contents :: "MailboxRing \<Rightarrow> 8 word list list" where
  "ring_contents m = map (\<lambda>j. slot_data (slot_of m (mr_read_index m + of_nat j))) [0..<unat (mr_write_index m - mr_read_index m)]"

abbreviation ring_room :: "MailboxRing \<Rightarrow> nat" where "ring_room m \<equiv> unat (mr_capacity m)"

abbreviation ring_limit :: "MailboxRing \<Rightarrow> nat" where "ring_limit m \<equiv> unat (mr_record_size m)"

lemma ring_at_facts:
  assumes "ring_at k W R C m"
  shows "ring_inv k W R C m" "mr_write_index m = of_nat W" "k < 32" "R \<le> W" "W \<le> R + 2 ^ k" "C \<le> R" "ring_room m = 2 ^ k"
    "mr_read_index m = of_nat R" "ring_contents m = map (\<lambda>i. slot_data (mr_slots m (i mod 2 ^ k))) [R..<W]"
proof -
  show i: "ring_inv k W R C m" and w: "mr_write_index m = of_nat W" using assms by (simp_all add: ring_at_def)
  show b: "k < 32" "R \<le> W" "W \<le> R + 2 ^ k" "C \<le> R" and r: "mr_read_index m = of_nat R" and c: "ring_room m = 2 ^ k"
    using i by (simp_all add: ring_inv_def unat_pow)
  have "of_nat R + of_nat j = (of_nat (j + R) :: 64 word)" for j by simp
  then have "ring_contents m = map (\<lambda>j. slot_data (mr_slots m ((j + R) mod 2 ^ k))) [0..<W - R]"
    unfolding ring_contents_def r w cursor_distance(2)[OF b(1-3)] using slot_number_inv[OF i] by presburger
  also have "\<dots> = map (\<lambda>i. slot_data (mr_slots m (i mod 2 ^ k))) (map (\<lambda>j. j + R) [0..<W - R])" by simp
  also have "map (\<lambda>j. j + R) [0..<W - R] = [R..<W]" using map_add_upt[of R "W - R"] b(2) by simp
  finally show "ring_contents m = map (\<lambda>i. slot_data (mr_slots m (i mod 2 ^ k))) [R..<W]" .
qed

lemma ring_at_space:
  assumes "ring_at k W R C m"
  obtains C' where "space_check (of_nat W) m = (W < R + 2 ^ k, m\<lparr>mr_cached_read_index := of_nat C'\<rparr>)"
    "ring_at k W R C' (m\<lparr>mr_cached_read_index := of_nat C'\<rparr>)" "W < R + 2 ^ k \<longrightarrow> W < C' + 2 ^ k"
proof -
  obtain C' where c: "space_check (of_nat W) m = (W < R + 2 ^ k, m\<lparr>mr_cached_read_index := of_nat C'\<rparr>)"
    "ring_inv k W R C' (m\<lparr>mr_cached_read_index := of_nat C'\<rparr>)" "W < R + 2 ^ k \<longrightarrow> W < C' + 2 ^ k"
    using space_check_inv[OF ring_at_facts(1)[OF assms]] by metis
  have "ring_at k W R C' (m\<lparr>mr_cached_read_index := of_nat C'\<rparr>)" using assms c(2) by (simp add: ring_at_def)
  then show thesis using c by (intro that)
qed

lemma ring_at_publish:
  assumes "ring_at k W R C m" "W < C + 2 ^ k" "unat len \<le> length data"
  defines "m' \<equiv> (PublishSlot (of_nat W) data len m)\<lparr>mr_write_index := of_nat W + 1\<rparr>"
  shows "ring_at k (W + 1) R C m'" "ring_contents m' = ring_contents m @ [take (unat len) data]"
    "mr_capacity m' = mr_capacity m" "mr_record_size m' = mr_record_size m"
proof -
  note f = ring_at_facts[OF assms(1)]
  let ?b = "write_body (of_nat W) data len m"
  have lt: "W < R + 2 ^ k" using assms(2) f(6) by simp
  have inv: "ring_inv k (W + 1) R C m'"
    using stamp_inv[OF body_inv[OF f(1)] assms(2)] by (simp add: m'_def PublishSlot_def ring_inv_def)
  have d: "slot_data (mr_slots m' j) = slot_data (mr_slots ?b j)" "ms_len (mr_slots m' j) = ms_len (mr_slots ?b j)" for j
    by (simp_all add: m'_def PublishSlot_def) (simp add: stamp_seq_def upd_slot_def)
  have old: "slot_data (mr_slots m' (i mod 2 ^ k)) = slot_data (mr_slots m (i mod 2 ^ k))" "ms_len (mr_slots m' (i mod 2 ^ k)) = ms_len (mr_slots m (i mod 2 ^ k))"
    if "R \<le> i" "i < W" for i
    using slot_data_body(1)[OF f(1) that lt] mod_window[of i W "2 ^ k"] that lt
    by (simp_all add: d) (simp add: write_body_def upd_slot_def slot_number_inv[OF f(1)])
  have new: "slot_data (mr_slots m' (W mod 2 ^ k)) = take (unat len) data" "ms_len (mr_slots m' (W mod 2 ^ k)) = len"
    using slot_data_body(2)[OF f(1) assms(3)] by (simp_all add: d) (simp add: write_body_def upd_slot_def slot_number_inv[OF f(1)])
  show at: "ring_at k (W + 1) R C m'"
    unfolding ring_at_def
  proof (intro conjI allI impI)
    show "mr_write_index m' = of_nat (W + 1)" by (simp add: m'_def add.commute)
    show "length (slot_data (mr_slots m' (i mod 2 ^ k))) = unat (ms_len (mr_slots m' (i mod 2 ^ k)))" if "R \<le> i \<and> i < W + 1" for i
      using that assms(1,3) old[of i] new by (cases "i = W") (simp_all add: ring_at_def)
  qed (rule inv)
  show "ring_contents m' = ring_contents m @ [take (unat len) data]"
    unfolding f(9) ring_at_facts(9)[OF at] using f(4) old new by simp
  show "mr_capacity m' = mr_capacity m" "mr_record_size m' = mr_record_size m" by (simp_all add: m'_def PublishSlot_def)
qed

lemma contents_cached [simp]: "ring_contents (m\<lparr>mr_cached_read_index := x\<rparr>) = ring_contents m"
  by (simp add: ring_contents_def)

lemma length_contents: "ring_at k W R C m \<Longrightarrow> length (ring_contents m) = W - R"
  by (simp add: ring_at_facts(9))

lemma TryProduce_queue:
  assumes "ring_ok m" "unat len \<le> length data" "TryProduce data len m = (b, m')"
  shows "ring_ok m' \<and> ring_contents m' = ring_contents m @ (if b then [take (unat len) data] else []) \<and> ring_room m' = ring_room m \<and>
     ring_limit m' = ring_limit m \<and> (b \<longleftrightarrow> unat len \<le> ring_limit m \<and> length (ring_contents m) < ring_room m)"
proof -
  obtain k W R C where at0: "ring_at k W R C m" using assms(1) by (auto simp: ring_ok_def)
  note f = ring_at_facts[OF at0]
  have lim: "mr_record_size m < len \<longleftrightarrow> \<not> unat len \<le> ring_limit m" by (auto simp: word_less_nat_alt)
  obtain C' where c: "space_check (of_nat W) m = (W < R + 2 ^ k, m\<lparr>mr_cached_read_index := of_nat C'\<rparr>)"
    "ring_at k W R C' (m\<lparr>mr_cached_read_index := of_nat C'\<rparr>)" "W < R + 2 ^ k \<longrightarrow> W < C' + 2 ^ k"
    using ring_at_space[OF at0] by metis
  have rm: "length (ring_contents m) < ring_room m \<longleftrightarrow> W < R + 2 ^ k" using length_contents[OF at0] f(4,7) by auto
  show ?thesis
  proof (cases "unat len \<le> ring_limit m \<and> W < R + 2 ^ k")
    case True
    then have m': "m' = (PublishSlot (of_nat W) data len (m\<lparr>mr_cached_read_index := of_nat C'\<rparr>))\<lparr>mr_write_index := of_nat W + 1\<rparr>" "b"
      using assms(3) c(1) f(2) lim by (auto simp: TryProduce_def Let_def)
    have "W < C' + 2 ^ k" using True c(3) by simp
    from ring_at_publish[OF c(2) this assms(2)] show ?thesis using True rm m'(2) unfolding m'(1) by (auto simp: ring_ok_def)
  next
    case False
    then have "\<not> b \<and> (m' = m \<or> m' = m\<lparr>mr_cached_read_index := of_nat C'\<rparr>)"
      using assms(3) c(1) f(2) lim by (auto simp: TryProduce_def Let_def split: if_splits)
    then show ?thesis using False rm at0 c(2) by (auto simp: ring_ok_def)
  qed
qed

lemma TryConsume_queue:
  assumes "ring_ok m" "TryConsume out_cap m = (x, m')"
  shows "ring_ok m' \<and> ring_room m' = ring_room m \<and> ring_limit m' = ring_limit m \<and>
     (case x of Empty \<Rightarrow> ring_contents m = [] \<and> m' = m | Consumed d \<Rightarrow> ring_contents m = d # ring_contents m' \<and> length d \<le> unat out_cap
      | TooSmall \<Rightarrow> ring_contents m \<noteq> [] \<and> unat out_cap < length (hd (ring_contents m)) \<and> m' = m)"
proof -
  obtain k W R C where at0: "ring_at k W R C m" using assms(1) by (auto simp: ring_ok_def)
  note f = ring_at_facts[OF at0]
  note p = published_inv[OF f(1)]
  show ?thesis
  proof (cases "R < W")
    case False
    then show ?thesis using assms p f(9) by (auto simp: TryConsume_def ring_ok_def)
  next
    case True
    let ?s = "mr_slots m (R mod 2 ^ k)"
    have s: "slot_of m (mr_read_index m) = ?s" unfolding f(8) slot_number_inv[OF f(1)] ..
    have l: "length (slot_data ?s) = unat (ms_len ?s)" using at0 True by (simp add: ring_at_def)
    have c: "ring_contents m = slot_data ?s # map (\<lambda>i. slot_data (mr_slots m (i mod 2 ^ k))) [R + 1..<W]"
      unfolding f(9) using True by (simp add: upt_conv_Cons)
    have at: "ring_at k W (R + 1) C (m\<lparr>mr_read_index := of_nat R + 1\<rparr>)"
      using at0 consume_inv[OF f(1) True] by (simp add: ring_at_def)
    have c': "ring_contents (m\<lparr>mr_read_index := of_nat R + 1\<rparr>) = map (\<lambda>i. slot_data (mr_slots m (i mod 2 ^ k))) [R + 1..<W]"
      using ring_at_facts(9)[OF at] by simp
    have "TryConsume out_cap m = (if out_cap < ms_len ?s then (TooSmall, m) else (Consumed (slot_data ?s), m\<lparr>mr_read_index := of_nat R + 1\<rparr>))"
      unfolding TryConsume_def s Let_def using p True by (simp add: f(8))
    then show ?thesis
      using assms at c c' l by (auto simp: ring_ok_def word_less_nat_alt split: if_splits)
  qed
qed

interpretation mailbox: spsc_queue ring_ok ring_contents ring_room ring_limit TryProduce HasSpace TryConsume
proof
  show "ring_ok m' \<and> ring_contents m' = ring_contents m \<and> ring_room m' = ring_room m \<and> ring_limit m' = ring_limit m \<and>
      (b \<longleftrightarrow> length (ring_contents m) < ring_room m)" if ok: "ring_ok m" and sp: "HasSpace m = (b, m')" for m b m'
  proof -
    obtain k W R C where at: "ring_at k W R C m" using ok by (auto simp: ring_ok_def)
    note f = ring_at_facts[OF at]
    obtain C' where c: "space_check (of_nat W) m = (W < R + 2 ^ k, m\<lparr>mr_cached_read_index := of_nat C'\<rparr>)"
      "ring_at k W R C' (m\<lparr>mr_cached_read_index := of_nat C'\<rparr>)" using ring_at_space[OF at] by metis
    have "b \<longleftrightarrow> W < R + 2 ^ k" "m' = m\<lparr>mr_cached_read_index := of_nat C'\<rparr>" using sp c(1) f(2) by (auto simp: HasSpace_def)
    then show ?thesis using c(2) length_contents[OF at] f(4,7) by (auto simp: ring_ok_def)
  qed
qed (rule TryProduce_queue TryConsume_queue; assumption)+

subsection \<open>Waiting for space\<close>

text \<open>What the consumer may do meanwhile: take records from the front.\<close>

definition consumed_from :: "MailboxRing \<Rightarrow> MailboxRing \<Rightarrow> bool" where
  "consumed_from x y \<longleftrightarrow> ring_ok y \<and> ring_room y = ring_room x \<and> ring_limit y = ring_limit x \<and> mr_write_index y = mr_write_index x \<and>
     (\<exists>d. ring_contents x = d @ ring_contents y)"

definition consumer_env :: "(nat \<Rightarrow> MailboxRing \<Rightarrow> MailboxRing) \<Rightarrow> bool" where
  "consumer_env env \<longleftrightarrow> (\<forall>i x. ring_ok x \<longrightarrow> consumed_from x (env i x))"

lemma consumed_refl: "ring_ok x \<Longrightarrow> consumed_from x x"
  by (simp add: consumed_from_def)

lemma consumed_trans: "consumed_from x y \<Longrightarrow> consumed_from y z \<Longrightarrow> consumed_from x z"
  by (auto simp: consumed_from_def)

lemma TryConsume_consumes: "ring_ok x \<Longrightarrow> consumed_from x (snd (TryConsume out_cap x))"
proof -
  assume ok: "ring_ok x"
  obtain r y where t: "TryConsume out_cap x = (r, y)" by fastforce
  have "mr_write_index y = mr_write_index x" using t by (auto simp: TryConsume_def Let_def split: if_splits)
  then show ?thesis using TryConsume_queue[OF ok t] t by (cases r) (auto simp: consumed_from_def)
qed

lemma space_check_keeps: "ring_ok x \<Longrightarrow> space_check (mr_write_index x) x = (b, y) \<Longrightarrow> consumed_from x y \<and> ring_contents y = ring_contents x"
  using mailbox.space_law[of x b y] by (auto simp: consumed_from_def HasSpace_def space_check_def split: if_splits)

lemma TryProduce_fails_keeps: "ring_ok x \<Longrightarrow> TryProduce data len x = (False, y) \<Longrightarrow> consumed_from x y \<and> ring_contents y = ring_contents x"
  using space_check_keeps[of x] consumed_refl[of x] by (auto simp: TryProduce_def Let_def split: if_splits prod.splits)

lemma mailbox_bounded: "ring_ok m \<Longrightarrow> length (ring_contents m) \<le> ring_room m"
  using ring_at_facts(5,7) length_contents unfolding ring_ok_def by (metis le_diff_conv add.commute)

lemma ring_ok_room: "ring_ok m \<Longrightarrow> 0 < ring_room m"
  by (auto simp: ring_ok_def dest: ring_at_facts(7))

lemma Produce_loop_returns:
  assumes env: "consumer_env env" and len: "unat len \<le> length data"
    and n: "\<And>x. ring_ok x \<Longrightarrow> ring_contents x \<noteq> [] \<Longrightarrow> length (ring_contents (env n x)) < length (ring_contents x)"
  shows "spin \<le> n \<Longrightarrow> ring_ok x \<Longrightarrow> unat len \<le> ring_limit x \<Longrightarrow>
    \<exists>y z. Produce_loop env spin data len x = Some z \<and> consumed_from x y \<and> TryProduce data len y = (True, z)"
proof (induction "n - spin" arbitrary: spin x)
  case 0
  then have sn: "spin = n" by simp
  obtain b y where t: "TryProduce data len x = (b, y)" by fastforce
  show ?case
  proof (cases b)
    case True
    then show ?thesis using t 0 consumed_refl[of x] by (subst Produce_loop.simps) auto
  next
    case False
    let ?u = "env n y"
    have y: "consumed_from x y" "ring_contents y = ring_contents x" "ring_ok y" using TryProduce_fails_keeps[of x data len y] 0 t False by (auto simp: consumed_from_def)
    have u: "consumed_from y ?u" using env y(3) by (simp add: consumer_env_def)
    have "\<not> length (ring_contents x) < ring_room x" using mailbox.produce_law[OF _ len t] 0 False by auto
    then have ne: "ring_contents y \<noteq> []" "length (ring_contents y) \<le> ring_room x" 
      using y(2) ring_ok_room[of x] 0 mailbox_bounded by auto
    obtain c z where p: "TryProduce data len ?u = (c, z)" by fastforce
    have "c" using mailbox.produce_law[OF _ len p] u y n[OF y(3) ne(1)] ne(2) 0 by (auto simp: consumed_from_def)
    then show ?thesis using p t False sn consumed_trans[OF y(1) u]
      by (intro exI[of _ ?u] exI[of _ z]) (subst Produce_loop.simps, simp, subst Produce_loop.simps, simp)
  qed
next
  case (Suc d)
  obtain b y where t: "TryProduce data len x = (b, y)" by fastforce
  show ?case
  proof (cases b)
    case True
    then show ?thesis using t Suc consumed_refl[of x] by (subst Produce_loop.simps) auto
  next
    case False
    have y: "consumed_from x y" "ring_ok y" using TryProduce_fails_keeps[of x data len y] Suc t False by (auto simp: consumed_from_def)
    have u: "consumed_from y (env spin y)" using env y(2) by (simp add: consumer_env_def)
    note xu = consumed_trans[OF y(1) u]
    have "\<exists>v z. Produce_loop env (spin + 1) data len (env spin y) = Some z \<and> consumed_from (env spin y) v \<and> TryProduce data len v = (True, z)"
      using Suc.hyps Suc.prems xu by (intro Suc.hyps(1)) (auto simp: consumed_from_def)
    then show ?thesis using t False consumed_trans[OF xu] by (subst Produce_loop.simps) auto
  qed
qed

lemma space_check_confirms:
  assumes "ring_ok x" "space_check (mr_write_index x) x = (True, y)"
  shows "\<exists>k W R C. ring_at k W R C y \<and> W < C + 2 ^ k \<and> mr_write_index x = of_nat W"
proof -
  obtain k W R C where at: "ring_at k W R C x" using assms(1) by (auto simp: ring_ok_def)
  obtain C' where c: "space_check (of_nat W) x = (W < R + 2 ^ k, x\<lparr>mr_cached_read_index := of_nat C'\<rparr>)"
    "ring_at k W R C' (x\<lparr>mr_cached_read_index := of_nat C'\<rparr>)" "W < R + 2 ^ k \<longrightarrow> W < C' + 2 ^ k" using ring_at_space[OF at] by metis
  show ?thesis using assms(2) c ring_at_facts(2)[OF at] by auto
qed

lemma bounded_spin_spec:
  "consumer_env env \<Longrightarrow> ring_ok x \<Longrightarrow> mr_write_index x = w \<Longrightarrow> bounded_spin env w n spin x = (b, y) \<Longrightarrow>
    consumed_from x y \<and> (b \<longrightarrow> (\<exists>k W R C. ring_at k W R C y \<and> W < C + 2 ^ k \<and> w = of_nat W))"
proof (induction env w n spin x arbitrary: b y rule: bounded_spin.induct)
  case (1 env w n spin x)
  note prems = "1.prems"
  obtain c x1 where c: "space_check w x = (c, x1)" by fastforce
  have k: "consumed_from x x1" using space_check_keeps[of x c x1] prems c by auto
  show ?case
  proof (cases "c \<or> n \<le> spin")
    case True
    then have "b = c" "y = x1" using prems(4) c by (auto simp: bounded_spin.simps[of env w n spin x] split: bool.splits)
    then show ?thesis using k space_check_confirms[of x x1] prems(2,3) c by auto
  next
    case False
    have x1: "ring_ok x1" "mr_write_index x1 = w" using k prems(3) by (simp_all add: consumed_from_def)
    have u: "consumed_from x1 (env spin x1)" using prems(1) x1(1) by (simp add: consumer_env_def)
    have r: "bounded_spin env w n (spin + 1) (env spin x1) = (b, y)" using prems(4) c False by (simp add: bounded_spin.simps[of env w n spin x])
    have "consumed_from (env spin x1) y \<and> (b \<longrightarrow> (\<exists>k W R C. ring_at k W R C y \<and> W < C + 2 ^ k \<and> w = of_nat W))"
      using False u x1(2) c by (intro "1.IH"[OF c[symmetric] _ _ prems(1) _ _ r]) (auto simp: consumed_from_def)
    then show ?thesis using consumed_trans[OF k consumed_trans[OF u]] by blast
  qed
qed

lemma TryProduceBounded_queue:
  assumes "consumer_env env" "ring_ok m" "unat len \<le> length data" "TryProduceBounded env data len n m = (status, m')"
  shows "ring_ok m' \<and> ring_room m' = ring_room m \<and> ring_limit m' = ring_limit m \<and>
    (case status of
       SUCCESS \<Rightarrow> unat len \<le> ring_limit m \<and> (\<exists>d rest. ring_contents m = d @ rest \<and> ring_contents m' = rest @ [take (unat len) data])
     | WEDGED \<Rightarrow> unat len \<le> ring_limit m \<and> (\<exists>d. ring_contents m = d @ ring_contents m')
     | FULL \<Rightarrow> ring_limit m < unat len \<and> m' = m)"
proof (cases "mr_record_size m < len")
  case True
  then show ?thesis using assms(2,4) by (auto simp: TryProduceBounded_def word_less_nat_alt)
next
  case False
  obtain b y where s: "bounded_spin env (mr_write_index m) n 0 m = (b, y)" by fastforce
  have sp: "consumed_from m y" "b \<longrightarrow> (\<exists>k W R C. ring_at k W R C y \<and> W < C + 2 ^ k \<and> mr_write_index m = of_nat W)"
    using bounded_spin_spec[OF assms(1,2) refl s] by simp_all
  have len: "unat len \<le> ring_limit m" using False by (simp add: word_less_nat_alt)
  show ?thesis
  proof (cases b)
    case True
    then obtain k W R C where at: "ring_at k W R C y" "W < C + 2 ^ k" "mr_write_index m = of_nat W" using sp(2) by blast
    have "status = SUCCESS" "m' = (PublishSlot (of_nat W) data len y)\<lparr>mr_write_index := of_nat W + 1\<rparr>"
      using assms(4) False s True at(3) by (auto simp: TryProduceBounded_def Let_def)
    then show ?thesis using ring_at_publish[OF at(1,2) assms(3)] sp(1) len by (auto simp: consumed_from_def ring_ok_def)
  next
    case b: False
    then have "status = WEDGED" "m' = y" using assms(4) False s by (auto simp: TryProduceBounded_def Let_def)
    then show ?thesis using sp(1) len by (auto simp: consumed_from_def)
  qed
qed

text \<open>C38: producing never hangs without a reason.  The blocking \<open>Produce\<close> returns, with its record
  appended, as soon as the consumer takes one record during some pause, and returns at once with
  failure when the record is too long.\<close>

theorem mailbox_produce_terminates:
  assumes "consumer_env env" "ring_ok m" "unat len \<le> length data"
    "\<exists>n. \<forall>x. ring_ok x \<and> ring_contents x \<noteq> [] \<longrightarrow> length (ring_contents (env n x)) < length (ring_contents x)"
  shows "\<exists>ok m'. Produce env data len m = Some (ok, m') \<and> ring_ok m' \<and> (ok \<longleftrightarrow> unat len \<le> ring_limit m) \<and>
    (ok \<longrightarrow> (\<exists>d rest. ring_contents m = d @ rest \<and> ring_contents m' = rest @ [take (unat len) data]))"
proof (cases "mr_record_size m < len")
  case True
  then show ?thesis using assms(2) by (auto simp: Produce_def word_less_nat_alt)
next
  case False
  then have len: "unat len \<le> ring_limit m" by (simp add: word_less_nat_alt)
  obtain n where n: "\<And>x. ring_ok x \<Longrightarrow> ring_contents x \<noteq> [] \<Longrightarrow> length (ring_contents (env n x)) < length (ring_contents x)" using assms(4) by blast
  obtain y z where p: "Produce_loop env 0 data len m = Some z" "consumed_from m y" "TryProduce data len y = (True, z)"
    using Produce_loop_returns[OF assms(1,3) n, of 0 m] assms(2) len by auto
  then have y: "ring_ok y" "\<exists>d. ring_contents m = d @ ring_contents y" by (simp_all add: consumed_from_def)
  show ?thesis using mailbox.produce_law[OF y(1) assms(3) p(3)] y(2) p(1) False len by (auto simp: Produce_def)
qed

subsection \<open>A sample ring\<close>

definition sample_ring :: MailboxRing where
  "sample_ring = the (ring_create 64 4096 16 4)"

lemma sample_ring_created: "ring_create 64 4096 16 4 = Some sample_ring"
  by (simp add: sample_ring_def ring_create_def ring_attach_def BytesNeeded_def SlotStride_def AlignUp_def kCacheLine_def
      sizeof_MailboxRingHeader_def sizeof_MailboxSlotHeader_def)

lemma sample_ring_ok: "ring_ok sample_ring" "ring_contents sample_ring = []" "ring_room sample_ring = 4" "ring_limit sample_ring = 16"
proof -
  obtain k where k: "ring_inv k 0 0 0 sample_ring" "mr_write_index sample_ring = 0" "mr_capacity sample_ring = 4" "mr_record_size sample_ring = 16"
    using create_inv[OF sample_ring_created] by auto
  then have at: "ring_at k 0 0 0 sample_ring" by (simp add: ring_at_def)
  show "ring_ok sample_ring" using at by (auto simp: ring_ok_def)
  show "ring_contents sample_ring = []" using ring_at_facts(9)[OF at] by simp
  show "ring_room sample_ring = 4" "ring_limit sample_ring = 16" using k by simp_all
qed

lemma sample_ring_produces: "\<exists>m. TryProduce [1, 2] 2 sample_ring = (True, m)"
proof -
  obtain b m where t: "TryProduce [1, 2] 2 sample_ring = (b, m)" by fastforce
  show ?thesis using mailbox.produce_law[OF sample_ring_ok(1) _ t] sample_ring_ok t by simp
qed

lemma mailbox_ring_is_fifo_witness:
  "\<exists>s. ring_step\<^sup>*\<^sup>* (sys_init sample_ring) s \<and> rs_sent s = [[1, 2]] \<and> rs_recv s = [] \<and> published (rs_ring s)"
proof -
  obtain m where t: "TryProduce [1, 2] 2 (rs_ring (sys_init sample_ring)) = (True, m)"
    using sample_ring_produces by (auto simp: sys_init_def)
  let ?s = "(sys_init sample_ring)\<lparr>rs_ring := m, rs_sent := [[1, 2]]\<rparr>"
  have r: "ring_step\<^sup>*\<^sup>* (sys_init sample_ring) ?s"
    using try_produce_runs[OF _ _ t] by (simp add: sys_init_def)
  show ?thesis using mailbox_ring_is_fifo[OF sample_ring_created _ r] r by (intro exI[of _ ?s]) (simp add: sys_init_def)
qed

lemma max_cap_consumes:
  assumes "ring_ok x" "ring_contents x \<noteq> []"
  shows "length (ring_contents (snd (TryConsume (- 1) x))) < length (ring_contents x)"
proof -
  obtain r y where t: "TryConsume (- 1) x = (r, y)" by fastforce
  have "r \<noteq> TooSmall" using t word_order.extremum[of "ms_len (slot_of x (mr_read_index x))"] by (auto simp: TryConsume_def Let_def split: if_splits)
  then show ?thesis using TryConsume_queue[OF assms(1) t] assms(2) t by (cases r) auto
qed

lemma mailbox_produce_terminates_witness:
  "\<exists>m'. Produce (\<lambda>_ x. snd (TryConsume (- 1) x)) [1, 2] 2 sample_ring = Some (True, m') \<and> ring_ok m'"
  using mailbox_produce_terminates[OF _ sample_ring_ok(1), of "\<lambda>_ x. snd (TryConsume (- 1) x)" 2 "[1, 2]"] sample_ring_ok(4)
    max_cap_consumes TryConsume_consumes by (auto simp: consumer_env_def)

end
