(* ===== verification/MailboxSegments.thy ===== *)
theory MailboxSegments
  imports MailboxFifo
begin

unbundle bit_operations_syntax

text \<open>
  Mailbox segments (\<open>cxl_transport/cxl_mailbox.h\<close>, \<open>.cc\<close>): one upstream and one downstream ring per
  broker in a region of shared memory.  A failed \<open>CHECK\<close> is \<open>None\<close>.  \<open>mem\<close> gives the ring another
  participant left at an address.  The shared-memory file the region may come from (\<open>shm_open\<close>,
  \<open>ftruncate\<close>, \<open>mmap\<close>) is left to the operating system.
\<close>

definition kMailboxSegmentMagic :: "32 word" where "kMailboxSegmentMagic = 0x53424D45"

definition kMailboxSegmentVersion :: "32 word" where "kMailboxSegmentVersion = 2"

record MailboxParams =
  mp_num_brokers :: "32 word"
  mp_record_size :: "32 word"
  mp_up_capacity :: "32 word"
  mp_down_capacity :: "32 word"
  mp_broadcast_spin_bound :: nat

definition MailboxParams_init :: MailboxParams where
  "MailboxParams_init = \<lparr>mp_num_brokers = 0, mp_record_size = 512, mp_up_capacity = 1024, mp_down_capacity = 1024,
     mp_broadcast_spin_bound = 10240\<rparr>"

record MailboxSegmentHeader =
  sh_magic :: "32 word"
  sh_version :: "32 word"
  sh_num_brokers :: "32 word"
  sh_record_size :: "32 word"
  sh_up_capacity :: "32 word"
  sh_down_capacity :: "32 word"
  sh_up_stride :: "64 word"
  sh_down_stride :: "64 word"
  sh_up_base :: "64 word"
  sh_down_base :: "64 word"
  sh_broadcast_spin_bound :: nat

record MailboxSegment =
  sg_num_brokers :: nat
  sg_record_size :: "32 word"
  sg_broadcast_spin_bound :: nat
  sg_up :: "MailboxRing list"
  sg_down :: "MailboxRing list"

definition sizeof_MailboxSegmentHeader :: "64 word" where "sizeof_MailboxSegmentHeader = kCacheLine"

definition SegmentBytesNeeded :: "MailboxParams \<Rightarrow> 64 word" where
  "SegmentBytesNeeded p =
     (let up_stride = BytesNeeded (mp_record_size p) (mp_up_capacity p); down_stride = BytesNeeded (mp_record_size p) (mp_down_capacity p)
      in AlignUp sizeof_MailboxSegmentHeader kCacheLine + up_stride * ucast (mp_num_brokers p) + down_stride * ucast (mp_num_brokers p))"

subsection \<open>The segment header\<close>

definition create_header :: "MailboxParams \<Rightarrow> MailboxSegmentHeader option" where
  "create_header p =
     (if mp_num_brokers p > 0 \<and> mp_record_size p > 0 \<and> mp_up_capacity p AND (mp_up_capacity p - 1) = 0 \<and>
         mp_down_capacity p AND (mp_down_capacity p - 1) = 0
      then let up_stride = BytesNeeded (mp_record_size p) (mp_up_capacity p); up_base = AlignUp sizeof_MailboxSegmentHeader kCacheLine
           in Some \<lparr>sh_magic = kMailboxSegmentMagic, sh_version = kMailboxSegmentVersion, sh_num_brokers = mp_num_brokers p,
                sh_record_size = mp_record_size p, sh_up_capacity = mp_up_capacity p, sh_down_capacity = mp_down_capacity p,
                sh_up_stride = up_stride, sh_down_stride = BytesNeeded (mp_record_size p) (mp_down_capacity p), sh_up_base = up_base,
                sh_down_base = up_base + up_stride * ucast (mp_num_brokers p),
                sh_broadcast_spin_bound = mp_broadcast_spin_bound p\<rparr>
      else None)"

definition header_valid :: "64 word \<Rightarrow> MailboxSegmentHeader \<Rightarrow> bool" where
  "header_valid bytes h \<longleftrightarrow>
     sizeof_MailboxSegmentHeader \<le> bytes \<and> sh_magic h = kMailboxSegmentMagic \<and> sh_version h = kMailboxSegmentVersion \<and>
     sh_num_brokers h > 0 \<and> sh_record_size h > 0 \<and> sh_up_capacity h > 0 \<and> sh_down_capacity h > 0 \<and>
     sh_up_capacity h AND (sh_up_capacity h - 1) = 0 \<and> sh_down_capacity h AND (sh_down_capacity h - 1) = 0 \<and>
     sh_up_stride h = BytesNeeded (sh_record_size h) (sh_up_capacity h) \<and>
     sh_down_stride h = BytesNeeded (sh_record_size h) (sh_down_capacity h) \<and>
     sizeof_MailboxSegmentHeader \<le> sh_up_base h \<and> sh_up_base h \<le> sh_down_base h \<and> sh_up_base h \<le> bytes \<and>
     sh_up_stride h \<le> (bytes - sh_up_base h) div ucast (sh_num_brokers h) \<and>
     sh_up_base h + sh_up_stride h * ucast (sh_num_brokers h) \<le> sh_down_base h \<and> sh_down_base h \<le> bytes \<and>
     sh_down_stride h \<le> (bytes - sh_down_base h) div ucast (sh_num_brokers h)"

definition up_region :: "MailboxSegmentHeader \<Rightarrow> nat \<Rightarrow> 64 word" where
  "up_region h b = sh_up_base h + sh_up_stride h * of_nat b"

definition down_region :: "MailboxSegmentHeader \<Rightarrow> nat \<Rightarrow> 64 word" where
  "down_region h b = sh_down_base h + sh_down_stride h * of_nat b"

subsection \<open>Binding the rings\<close>

definition collect :: "'a option list \<Rightarrow> 'a list option" where
  "collect xs = (if list_all (\<lambda>x. x \<noteq> None) xs then Some (map the xs) else None)"

definition bind_rings :: "MailboxSegmentHeader \<Rightarrow> (64 word \<Rightarrow> 64 word \<Rightarrow> 32 word \<Rightarrow> MailboxRing option) \<Rightarrow> MailboxSegment option" where
  "bind_rings h f =
     (let n = unat (sh_num_brokers h)
      in case (collect (map (\<lambda>b. f (up_region h b) (sh_up_stride h) (sh_up_capacity h)) [0..<n]),
               collect (map (\<lambda>b. f (down_region h b) (sh_down_stride h) (sh_down_capacity h)) [0..<n])) of
           (Some up, Some down) \<Rightarrow> Some \<lparr>sg_num_brokers = n, sg_record_size = sh_record_size h,
             sg_broadcast_spin_bound = sh_broadcast_spin_bound h, sg_up = up, sg_down = down\<rparr>
         | _ \<Rightarrow> None)"

definition CreateInPlace :: "64 word \<Rightarrow> 64 word \<Rightarrow> MailboxParams \<Rightarrow> (MailboxSegmentHeader \<times> MailboxSegment) option" where
  "CreateInPlace base bytes p =
     (if base \<noteq> 0 \<and> base mod kCacheLine = 0 \<and> SegmentBytesNeeded p \<le> bytes
      then case create_header p of
             None \<Rightarrow> None
           | Some h \<Rightarrow> map_option (Pair h) (bind_rings h (\<lambda>region stride capacity. ring_create (base + region) stride (sh_record_size h) capacity))
      else None)"

definition AttachInPlace :: "64 word \<Rightarrow> 64 word \<Rightarrow> MailboxSegmentHeader \<Rightarrow> (64 word \<Rightarrow> MailboxRing) \<Rightarrow> MailboxSegment option" where
  "AttachInPlace base bytes h mem =
     (if base \<noteq> 0 \<and> base mod kCacheLine = 0 \<and> header_valid bytes h
      then bind_rings h (\<lambda>region stride capacity. ring_attach (base + region) stride (mem (base + region)))
      else None)"

subsection \<open>Broadcast\<close>

record BroadcastStatus =
  bs_wedged_count :: nat
  bs_failed_count :: nat
  bs_per_ring :: "PerRingStatus list"

definition count_status :: "PerRingStatus list \<Rightarrow> BroadcastStatus" where
  "count_status ss = \<lparr>bs_wedged_count = length (filter (\<lambda>s. s = WEDGED) ss), bs_failed_count = length (filter (\<lambda>s. s = FULL) ss),
     bs_per_ring = ss\<rparr>"

text \<open>\<open>env b\<close> is what broker \<open>b\<close> does to its ring while the coordinator pauses on it.\<close>

definition BroadcastDownNonBlocking ::
  "(nat \<Rightarrow> nat \<Rightarrow> MailboxRing \<Rightarrow> MailboxRing) \<Rightarrow> 8 word list \<Rightarrow> 32 word \<Rightarrow> nat \<Rightarrow> MailboxSegment \<Rightarrow> BroadcastStatus \<times> MailboxSegment" where
  "BroadcastDownNonBlocking env data len spin_bound seg =
     (let rs = map (\<lambda>b. TryProduceBounded (env b) data len spin_bound (sg_down seg ! b)) [0..<sg_num_brokers seg]
      in (count_status (map fst rs), seg\<lparr>sg_down := map snd rs\<rparr>))"

definition BroadcastDown ::
  "(nat \<Rightarrow> nat \<Rightarrow> MailboxRing \<Rightarrow> MailboxRing) \<Rightarrow> 8 word list \<Rightarrow> 32 word \<Rightarrow> MailboxSegment \<Rightarrow> (BroadcastStatus \<times> MailboxSegment) option" where
  "BroadcastDown env data len seg =
     (let (status, seg') = BroadcastDownNonBlocking env data len (sg_broadcast_spin_bound seg) seg
      in if bs_failed_count status = 0 then Some (status, seg') else None)"

subsection \<open>Layout\<close>

lemma unat_add_le: "unat a + unat b \<le> n \<Longrightarrow> n < 2 ^ 64 \<Longrightarrow> unat (a + b :: 64 word) = unat a + unat b"
  by (simp add: unat_add_lem[symmetric] unat_plus_if')

lemma unat_mult_le: "unat a * unat b \<le> n \<Longrightarrow> n < 2 ^ 64 \<Longrightarrow> unat (a * b :: 64 word) = unat a * unat b"
  using unat_mult_lem[of a b] by simp

lemma unat_32: "unat (x :: 32 word) < 2 ^ 32"
  using unsigned_less[of x, where ?'a = nat] by simp

lemma unat_ucast_32 [simp]: "unat (ucast (x :: 32 word) :: 64 word) = unat x"
  by (simp add: unsigned_ucast_eq take_bit_nat_eq_self_iff order_less_trans[OF unsigned_less])

lemma region_offset:
  assumes "unat stride * n \<le> unat (bytes - base)" "base \<le> bytes" "b \<le> n" "n < 2 ^ 32"
  shows "unat (base + stride * of_nat b :: 64 word) = unat base + unat stride * b" "unat base + unat stride * b \<le> unat bytes"
proof -
  have d: "unat (bytes - base) = unat bytes - unat base" using assms(2) by (simp add: unat_sub)
  have le: "unat stride * b \<le> unat stride * n" using assms(3) by simp
  have fit: "unat base + unat stride * b \<le> unat bytes" using assms(1,2) le unfolding d word_le_nat_alt by linarith
  have bb: "unat (of_nat b :: 64 word) = b" using assms(3,4) by (intro unat_small) simp
  have lt: "unat bytes < 2 ^ 64" using unsigned_less[of bytes] by simp
  have "unat (stride * of_nat b) = unat stride * b" using unat_mult_le[of stride "of_nat b" "unat bytes"] fit lt bb by simp
  then show "unat (base + stride * of_nat b) = unat base + unat stride * b" using unat_add_le[of base "stride * of_nat b" "unat bytes"] fit lt by simp
  show "unat base + unat stride * b \<le> unat bytes" by (rule fit)
qed

lemma clear_low_bits: "unat (x AND NOT 63 :: 64 word) = 64 * (unat x div 64)"
proof -
  have "x AND NOT (mask 6) = push_bit 6 (drop_bit 6 x)" by (rule bit_word_eqI) (auto simp: bit_simps)
  also have "\<dots> = x - take_bit 6 x" using bits_ident[of 6 x] by (simp add: eq_diff_eq)
  finally have a: "x AND NOT 63 = x - x mod 64" by (simp add: mask_eq_exp_minus_1 take_bit_eq_mod)
  have "x mod 64 \<le> x" by (simp add: word_le_nat_alt unat_mod)
  then have "unat (x - x mod 64) = unat x - unat x mod 64" by (subst unat_sub) (simp_all add: unat_mod)
  then show ?thesis unfolding a by (simp only: minus_mod_eq_mult_div)
qed

lemma SlotStride_covers:
  assumes "unat rs \<le> 2 ^ 32 - 128"
  shows "64 + unat rs \<le> unat (SlotStride rs)" "64 dvd unat (SlotStride rs)"
proof -
  have a: "unat (64 + ucast rs :: 64 word) = 64 + unat rs" using assms by (subst unat_add_le[OF order_refl]) simp_all
  have s: "64 + ucast rs + 64 - 1 = (ucast rs + 127 :: 64 word)" by simp
  have b: "unat (ucast rs + 127 :: 64 word) = unat rs + 127" using assms by (subst unat_add_le[OF order_refl]) simp_all
  let ?q = "64 * ((unat rs + 127) div 64)"
  have q: "?q < 2 ^ 32" using assms by simp
  have "unat (AlignUp (64 + ucast rs) 64) = ?q" unfolding AlignUp_def s using clear_low_bits[of "ucast rs + 127"] b by simp
  then have c: "unat (ucast (AlignUp (64 + ucast rs) 64) :: 32 word) = ?q"
    using q by (simp add: unsigned_ucast_eq take_bit_nat_eq_self)
  have z: "64 + ucast rs \<le> (64 :: 64 word) \<longleftrightarrow> unat rs = 0" unfolding word_le_nat_alt a by simp
  have e: "unat (SlotStride rs) = (if unat rs = 0 then 64 else ?q)"
    unfolding SlotStride_def sizeof_MailboxSlotHeader_def kCacheLine_def z using c by simp
  show "64 + unat rs \<le> unat (SlotStride rs)" "64 dvd unat (SlotStride rs)" unfolding e by auto
qed

lemma slot_extents:
  assumes "ring_create base bytes rs cap = Some m" "cap \<noteq> 0" "unat base + unat bytes < 2 ^ 64"
  shows "unat (SlotAt base m i) = unat base + 192 + slot_number cap i * unat (SlotStride rs)"
    "unat (SlotAt base m i) + unat (SlotStride rs) \<le> unat base + unat bytes"
proof -
  obtain k where k: "ring_inv k 0 0 0 m" "mr_capacity m = cap" "cap = 2 ^ k" using create_inv[OF assms(1,2)] by metis
  have k32: "k < 32" using k(1) by (simp add: ring_inv_def)
  have f: "mr_slots_offset m = 192" "mr_slot_stride m = SlotStride rs" "BytesNeeded rs cap \<le> bytes"
    using assms(1) by (auto simp: ring_create_def ring_attach_def sizeof_MailboxRingHeader_def kCacheLine_def split: if_splits)
  let ?s = "ucast (SlotStride rs) :: 64 word" and ?n = "slot_number cap i"
  have n: "?n < unat cap" using slot_number_mod[OF k32, of "unat i"] unat_pow[OF k32] by (simp add: k(3))
  have lim: "unat (SlotStride rs) * unat cap \<le> (2 ^ 32 - 1) * (2 ^ 32 - 1)"
    using unat_32[of "SlotStride rs"] unat_32[of cap] by (intro mult_le_mono) simp_all
  have m: "unat (?s * ucast cap) = unat (SlotStride rs) * unat cap" using lim by (subst unat_mult_le[OF order_refl]) simp_all
  have need: "192 + unat (SlotStride rs) * unat cap \<le> unat bytes"
  proof -
    have "unat (BytesNeeded rs cap) = 192 + unat (SlotStride rs) * unat cap"
      unfolding BytesNeeded_def sizeof_MailboxRingHeader_def kCacheLine_def using lim m by (subst unat_add_le[OF order_refl]) simp_all
    then show ?thesis using f(3) by (simp add: word_le_nat_alt)
  qed
  have le: "(?n + 1) * unat (SlotStride rs) \<le> unat (SlotStride rs) * unat cap" using mult_le_mono2[of "?n + 1" "unat cap" "unat (SlotStride rs)"] n by (simp add: mult.commute)
  have fit: "unat base + 192 + ?n * unat (SlotStride rs) + unat (SlotStride rs) \<le> unat base + unat bytes" using need le by simp
  have "?n < 2 ^ 64" using n unat_32[of cap] by simp
  then have un: "unat (of_nat ?n :: 64 word) = ?n" by (rule unat_small)
  have um: "unat (of_nat ?n * ?s) = ?n * unat (SlotStride rs)" using fit assms(3) un by (subst unat_mult_le[OF order_refl]) simp_all
  have ub: "unat (base + 192) = unat base + 192" using fit assms(3) by (subst unat_add_le[OF order_refl]) simp_all
  show "unat (SlotAt base m i) = unat base + 192 + ?n * unat (SlotStride rs)"
    unfolding SlotAt_def f k(2) using fit assms(3) um ub by (subst unat_add_le[OF order_refl]) simp_all
  then show "unat (SlotAt base m i) + unat (SlotStride rs) \<le> unat base + unat bytes" using fit by simp
qed

definition seg_extents :: "MailboxSegmentHeader \<Rightarrow> (nat \<times> nat) list" where
  "seg_extents h = map (\<lambda>b. (unat (up_region h b), unat (sh_up_stride h))) [0..<unat (sh_num_brokers h)] @
     map (\<lambda>b. (unat (down_region h b), unat (sh_down_stride h))) [0..<unat (sh_num_brokers h)]"

lemma sorted_extents:
  fixes f :: "nat \<Rightarrow> nat"
  assumes "\<And>b. b < n \<Longrightarrow> f b = base + stride * b"
  shows "sorted_wrt (\<lambda>x y. fst x + snd x \<le> fst y) (map (\<lambda>b. (f b, stride)) [0..<n])"
proof -
  have "f i + stride \<le> f j" if "i < j" "j < n" for i j
  proof -
    have "f i + stride = base + stride * (i + 1)" using that assms[of i] by simp
    also have "\<dots> \<le> base + stride * j" using that by (intro add_left_mono mult_le_mono2) simp
    finally show ?thesis using assms[of j] that by simp
  qed
  then show ?thesis by (simp add: sorted_wrt_map sorted_wrt_iff_nth_less)
qed

lemma div_bound:
  assumes "x \<le> y div ucast (n :: 32 word)" "n > 0"
  shows "unat x * unat n \<le> unat (y :: 64 word)"
proof -
  have "unat x \<le> unat y div unat n" using assms(1) by (simp add: word_le_nat_alt unat_div)
  moreover have "unat n > 0" using assms(2) by (simp add: unat_gt_0 word_gt_0)
  ultimately show ?thesis by (simp add: less_eq_div_iff_mult_less_eq)
qed

lemma header_regions:
  assumes "header_valid bytes h" "b \<le> unat (sh_num_brokers h)"
  shows "unat (up_region h b) = unat (sh_up_base h) + unat (sh_up_stride h) * b"
    "unat (down_region h b) = unat (sh_down_base h) + unat (sh_down_stride h) * b"
    "unat (down_region h b) \<le> unat bytes" "unat (up_region h b) \<le> unat (sh_down_base h)"
proof -
  have v: "sh_num_brokers h > 0" "sh_up_base h \<le> bytes" "sh_down_base h \<le> bytes"
    "unat (sh_up_stride h) * unat (sh_num_brokers h) \<le> unat (bytes - sh_up_base h)"
    "unat (sh_down_stride h) * unat (sh_num_brokers h) \<le> unat (bytes - sh_down_base h)"
    "sh_up_base h + sh_up_stride h * ucast (sh_num_brokers h) \<le> sh_down_base h"
    using assms(1) by (auto simp: header_valid_def intro: div_bound)
  have n: "unat (sh_num_brokers h) < 2 ^ 32" using unsigned_less[of "sh_num_brokers h"] by simp
  show up: "unat (up_region h b) = unat (sh_up_base h) + unat (sh_up_stride h) * b"
    unfolding up_region_def by (rule region_offset(1)[OF v(4,2) assms(2) n])
  show "unat (down_region h b) = unat (sh_down_base h) + unat (sh_down_stride h) * b" "unat (down_region h b) \<le> unat bytes"
    unfolding down_region_def using region_offset[OF v(5,3) assms(2) n] by simp_all
  have "unat (sh_up_base h + sh_up_stride h * of_nat (unat (sh_num_brokers h))) = unat (sh_up_base h) + unat (sh_up_stride h) * unat (sh_num_brokers h)"
    by (rule region_offset(1)[OF v(4,2) order_refl n])
  then have "unat (sh_up_base h) + unat (sh_up_stride h) * unat (sh_num_brokers h) \<le> unat (sh_down_base h)"
    using v(6) by (simp add: word_le_nat_alt)
  then show "unat (up_region h b) \<le> unat (sh_down_base h)" using up mult_le_mono2[OF assms(2), of "unat (sh_up_stride h)"] by linarith
qed

text \<open>C39: attaching is safe whatever the header in shared memory says.  A header the attach checks
  accept places every ring of every broker inside the mapped region, after the header, and no two
  rings overlap, with no wrap-around in any of the offsets.\<close>

theorem mailbox_attach_extents_disjoint:
  assumes "header_valid bytes h"
  shows "sorted_wrt (\<lambda>x y. fst x + snd x \<le> fst y) (seg_extents h) \<and>
     (\<forall>x\<in>set (seg_extents h). unat sizeof_MailboxSegmentHeader \<le> fst x \<and> fst x + snd x \<le> unat bytes)"
proof -
  let ?n = "unat (sh_num_brokers h)"
  note r = header_regions[OF assms]
  have v: "unat sizeof_MailboxSegmentHeader \<le> unat (sh_up_base h)" "unat (sh_up_base h) \<le> unat (sh_down_base h)" "unat (sh_down_base h) \<le> unat bytes"
    using assms by (auto simp: header_valid_def word_le_nat_alt)
  have u: "unat (up_region h b) + unat (sh_up_stride h) \<le> unat (sh_down_base h)" if "b < ?n" for b
    using r(1)[of b] r(1)[of "b + 1"] r(4)[of "b + 1"] that by simp
  have d: "unat (down_region h b) + unat (sh_down_stride h) \<le> unat bytes" if "b < ?n" for b
    using r(2)[of b] r(2)[of "b + 1"] r(3)[of "b + 1"] that by simp
  have s: "sorted_wrt (\<lambda>x y. fst x + snd x \<le> fst y) (seg_extents h)"
    unfolding seg_extents_def sorted_wrt_append
  proof (intro conjI ballI sorted_extents)
    show "unat (up_region h b) = unat (sh_up_base h) + unat (sh_up_stride h) * b" if "b < ?n" for b using r(1)[of b] that by simp
    show "unat (down_region h b) = unat (sh_down_base h) + unat (sh_down_stride h) * b" if "b < ?n" for b using r(2)[of b] that by simp
    show "fst x + snd x \<le> fst y" if xy: "x \<in> set (map (\<lambda>b. (unat (up_region h b), unat (sh_up_stride h))) [0..<?n])"
      "y \<in> set (map (\<lambda>b. (unat (down_region h b), unat (sh_down_stride h))) [0..<?n])" for x y
    proof -
      obtain i j where "i < ?n" "j < ?n" "x = (unat (up_region h i), unat (sh_up_stride h))" "y = (unat (down_region h j), unat (sh_down_stride h))"
        using xy by auto
      then show ?thesis using u[of i] r(2)[of j] by simp
    qed
  qed
  have "unat sizeof_MailboxSegmentHeader \<le> fst x \<and> fst x + snd x \<le> unat bytes" if x: "x \<in> set (seg_extents h)" for x
  proof -
    obtain b where b: "b < ?n" "x = (unat (up_region h b), unat (sh_up_stride h)) \<or> x = (unat (down_region h b), unat (sh_down_stride h))"
      using x by (auto simp: seg_extents_def)
    then show ?thesis using u[of b] d[of b] r(1,2)[of b] v by auto
  qed
  then show ?thesis using s by blast
qed

lemma collect_eq: "collect xs = Some ys \<longleftrightarrow> xs = map Some ys"
proof
  assume "collect xs = Some ys"
  then have "ys = map the xs" "\<forall>x\<in>set xs. x \<noteq> None" by (auto simp: collect_def list_all_iff split: if_splits)
  then show "xs = map Some ys" by (auto intro!: map_idI[symmetric])
qed (auto simp: collect_def list_all_iff comp_def)

lemma bind_rings_eq: "bind_rings h f = Some seg \<longleftrightarrow>
  map (\<lambda>b. f (up_region h b) (sh_up_stride h) (sh_up_capacity h)) [0..<unat (sh_num_brokers h)] = map Some (sg_up seg) \<and>
  map (\<lambda>b. f (down_region h b) (sh_down_stride h) (sh_down_capacity h)) [0..<unat (sh_num_brokers h)] = map Some (sg_down seg) \<and>
  sg_num_brokers seg = unat (sh_num_brokers h) \<and> sg_record_size seg = sh_record_size h \<and> sg_broadcast_spin_bound seg = sh_broadcast_spin_bound h"
  by (cases seg) (auto simp: bind_rings_def Let_def collect_eq[symmetric] split: option.splits)

lemma bind_rings_length:
  "bind_rings h f = Some seg \<Longrightarrow> length (sg_up seg) = unat (sh_num_brokers h) \<and> length (sg_down seg) = unat (sh_num_brokers h)"
  unfolding bind_rings_eq by (metis length_map length_upt minus_nat.diff_0)

lemma bind_rings_nth:
  assumes "bind_rings h f = Some seg" "b < unat (sh_num_brokers h)"
  shows "f (up_region h b) (sh_up_stride h) (sh_up_capacity h) = Some (sg_up seg ! b)"
    "f (down_region h b) (sh_down_stride h) (sh_down_capacity h) = Some (sg_down seg ! b)"
proof -
  note e = assms(1)[unfolded bind_rings_eq]
  have l: "length (sg_up seg) = unat (sh_num_brokers h)" "length (sg_down seg) = unat (sh_num_brokers h)"
    using bind_rings_length[OF assms(1)] by simp_all
  show "f (up_region h b) (sh_up_stride h) (sh_up_capacity h) = Some (sg_up seg ! b)"
    using arg_cong[OF conjunct1[OF e], of "\<lambda>xs. xs ! b"] assms(2) l by simp
  show "f (down_region h b) (sh_down_stride h) (sh_down_capacity h) = Some (sg_down seg ! b)"
    using arg_cong[OF conjunct1[OF conjunct2[OF e]], of "\<lambda>xs. xs ! b"] assms(2) l by simp
qed

lemma attach_created: "ring_create a stride rs c = Some m \<Longrightarrow> ring_attach a stride m = Some m"
  by (auto simp: ring_create_def ring_attach_def split: if_splits)

lemma align_header: "AlignUp sizeof_MailboxSegmentHeader kCacheLine = 64" "unat sizeof_MailboxSegmentHeader = 64"
  by (simp_all add: AlignUp_def sizeof_MailboxSegmentHeader_def kCacheLine_def)

lemma created_header_valid:
  assumes "create_header p = Some h" "SegmentBytesNeeded p \<le> bytes" "mp_up_capacity p \<noteq> 0" "mp_down_capacity p \<noteq> 0"
    "64 + (unat (BytesNeeded (mp_record_size p) (mp_up_capacity p)) + unat (BytesNeeded (mp_record_size p) (mp_down_capacity p))) *
       unat (mp_num_brokers p) < 2 ^ 64"
  shows "header_valid bytes h"
proof -
  let ?u = "BytesNeeded (mp_record_size p) (mp_up_capacity p)" and ?d = "BytesNeeded (mp_record_size p) (mp_down_capacity p)"
    and ?n = "ucast (mp_num_brokers p) :: 64 word"
  have n: "unat ?n > 0" "mp_num_brokers p > 0" using assms(1) by (auto simp: create_header_def unat_gt_0 word_gt_0 split: if_splits)
  have t: "64 + unat ?u * unat ?n + unat ?d * unat ?n < 2 ^ 64" using assms(5) by (simp add: distrib_right)
  have m: "unat (?u * ?n) = unat ?u * unat ?n" "unat (?d * ?n) = unat ?d * unat ?n" using t by (intro unat_mult_le[OF order_refl]; linarith)+
  have a: "unat (64 + ?u * ?n) = 64 + unat ?u * unat ?n" using t m(1) by (subst unat_add_le[OF order_refl]) (simp_all only: m, simp_all)
  have s: "unat (64 + ?u * ?n + ?d * ?n) = 64 + unat ?u * unat ?n + unat ?d * unat ?n" using t by (subst unat_add_le[OF order_refl]) (simp_all only: m a)
  have b: "64 + unat ?u * unat ?n + unat ?d * unat ?n \<le> unat bytes"
    using assms(2) unfolding SegmentBytesNeeded_def Let_def align_header word_le_nat_alt s .
  have le: "64 \<le> bytes" "64 + ?u * ?n \<le> bytes" "64 \<le> 64 + ?u * ?n" unfolding word_le_nat_alt a using b by simp_all
  have du: "?u \<le> (bytes - 64) div ?n"
    using b n(1) le(1) by (simp add: word_le_nat_alt unat_div unat_sub less_eq_div_iff_mult_less_eq)
  have dd: "?d \<le> (bytes - (64 + ?u * ?n)) div ?n"
    using b n(1) le(2) a by (simp add: word_le_nat_alt unat_div unat_sub less_eq_div_iff_mult_less_eq)
  show ?thesis
    using assms(1,3,4) le du dd n(2) by (auto simp: create_header_def header_valid_def Let_def align_header word_gt_0 sizeof_MailboxSegmentHeader_def
        kCacheLine_def AlignUp_def split: if_splits)
qed

text \<open>What the coordinator creates, a broker attaches to.  Whenever a segment is created in a
  region (rings of positive capacity, sizes that do not overflow), the attach checks accept the
  header it wrote, and attaching to the rings it left in memory gives the same segment.\<close>

lemma mailbox_create_attach:
  assumes "CreateInPlace base bytes p = Some (h, seg)" "mp_up_capacity p \<noteq> 0" "mp_down_capacity p \<noteq> 0"
    "64 + (unat (BytesNeeded (mp_record_size p) (mp_up_capacity p)) + unat (BytesNeeded (mp_record_size p) (mp_down_capacity p))) *
       unat (mp_num_brokers p) < 2 ^ 64"
    "\<forall>b < sg_num_brokers seg. mem (base + up_region h b) = sg_up seg ! b \<and> mem (base + down_region h b) = sg_down seg ! b"
  shows "AttachInPlace base bytes h mem = Some seg"
proof -
  have c: "base \<noteq> 0" "base mod kCacheLine = 0" "SegmentBytesNeeded p \<le> bytes" "create_header p = Some h"
    "bind_rings h (\<lambda>region stride capacity. ring_create (base + region) stride (sh_record_size h) capacity) = Some seg"
    using assms(1) by (auto simp: CreateInPlace_def split: if_splits option.splits)
  let ?g = "\<lambda>region stride capacity. ring_attach (base + region) stride (mem (base + region))"
  have n: "sg_num_brokers seg = unat (sh_num_brokers h)" using c(5) by (simp add: bind_rings_eq)
  have "?g (up_region h b) (sh_up_stride h) (sh_up_capacity h) = Some (sg_up seg ! b) \<and>
        ?g (down_region h b) (sh_down_stride h) (sh_down_capacity h) = Some (sg_down seg ! b)" if "b < unat (sh_num_brokers h)" for b
    using attach_created[OF bind_rings_nth(1)[OF c(5) that]] attach_created[OF bind_rings_nth(2)[OF c(5) that]] assms(5) that n by simp
  moreover have "length (sg_up seg) = unat (sh_num_brokers h)" "length (sg_down seg) = unat (sh_num_brokers h)"
    using bind_rings_length[OF c(5)] by simp_all
  ultimately have "bind_rings h ?g = Some seg"
    using c(5) unfolding bind_rings_eq by (simp add: list_eq_iff_nth_eq)
  then show ?thesis
    using c created_header_valid[OF c(4,3) assms(2-4)] by (simp add: AttachInPlace_def)
qed

definition segment_ok :: "MailboxSegment \<Rightarrow> bool" where
  "segment_ok seg \<longleftrightarrow> length (sg_down seg) = sg_num_brokers seg \<and>
     (\<forall>m\<in>set (sg_down seg). ring_ok m \<and> mr_record_size m = sg_record_size seg)"

text \<open>C24: a broadcast is decoupled.  One pass over the downstream rings always returns; a ring
  that reports success got the record, once, behind what it still held, a ring that stayed full for
  the bounded number of spins got nothing, whatever the other brokers do; the process aborts only
  on a record longer than the rings' record size.\<close>

theorem broadcast_down_decoupled:
  assumes "segment_ok seg" "\<forall>b. consumer_env (env b)" "unat len \<le> length data"
  shows "(case BroadcastDown env data len seg of
      None \<Rightarrow> 0 < sg_num_brokers seg \<and> unat (sg_record_size seg) < unat len
    | Some (status, seg') \<Rightarrow> segment_ok seg' \<and> length (bs_per_ring status) = sg_num_brokers seg \<and>
        (\<forall>b < sg_num_brokers seg.
           bs_per_ring status ! b = SUCCESS \<and>
             (\<exists>d rest. ring_contents (sg_down seg ! b) = d @ rest \<and> ring_contents (sg_down seg' ! b) = rest @ [take (unat len) data]) \<or>
           bs_per_ring status ! b = WEDGED \<and> (\<exists>d. ring_contents (sg_down seg ! b) = d @ ring_contents (sg_down seg' ! b))))"
proof -
  let ?n = "sg_num_brokers seg" and ?r = "\<lambda>b. TryProduceBounded (env b) data len (sg_broadcast_spin_bound seg) (sg_down seg ! b)"
  have ring: "ring_ok (sg_down seg ! b)" "mr_record_size (sg_down seg ! b) = sg_record_size seg" if "b < ?n" for b
    using assms(1) that by (simp_all add: segment_ok_def)
  have q: "ring_ok (snd (?r b)) \<and> ring_limit (snd (?r b)) = unat (sg_record_size seg) \<and>
    (case fst (?r b) of
       SUCCESS \<Rightarrow> (\<exists>d rest. ring_contents (sg_down seg ! b) = d @ rest \<and> ring_contents (snd (?r b)) = rest @ [take (unat len) data])
     | WEDGED \<Rightarrow> (\<exists>d. ring_contents (sg_down seg ! b) = d @ ring_contents (snd (?r b)))
     | FULL \<Rightarrow> unat (sg_record_size seg) < unat len)" if "b < ?n" for b
    using TryProduceBounded_queue[of "env b" "sg_down seg ! b" len data "sg_broadcast_spin_bound seg" "fst (?r b)" "snd (?r b)"]
      assms(2,3) ring[OF that] by (auto split: PerRingStatus.splits)
  have lim: "mr_record_size (snd (?r b)) = sg_record_size seg" if "b < ?n" for b
    by (rule unsigned_word_eqI[where ?'a = nat]) (use q[OF that] in blast)
  show ?thesis
  proof (cases "\<exists>b < ?n. fst (?r b) = FULL")
    case True
    then obtain b where b: "b < ?n" "fst (?r b) = FULL" by blast
    then have "unat (sg_record_size seg) < unat len" using q[OF b(1)] by simp
    moreover have "BroadcastDown env data len seg = None"
      using b by (force simp: BroadcastDown_def BroadcastDownNonBlocking_def count_status_def Let_def filter_empty_conv)
    ultimately show ?thesis using b(1) by simp
  next
    case False
    have "BroadcastDown env data len seg = Some (count_status (map (\<lambda>b. fst (?r b)) [0..<?n]), seg\<lparr>sg_down := map (\<lambda>b. snd (?r b)) [0..<?n]\<rparr>)"
      using False by (auto simp: BroadcastDown_def BroadcastDownNonBlocking_def count_status_def Let_def filter_empty_conv comp_def)
    moreover have "segment_ok (seg\<lparr>sg_down := map (\<lambda>b. snd (?r b)) [0..<?n]\<rparr>)" using q lim by (auto simp: segment_ok_def)
    moreover have "fst (?r b) = SUCCESS \<and>
        (\<exists>d rest. ring_contents (sg_down seg ! b) = d @ rest \<and> ring_contents (snd (?r b)) = rest @ [take (unat len) data]) \<or>
        fst (?r b) = WEDGED \<and> (\<exists>d. ring_contents (sg_down seg ! b) = d @ ring_contents (snd (?r b)))" if "b < ?n" for b
      using q[OF that] False that by (cases "fst (?r b)") auto
    ultimately show ?thesis by (auto simp: count_status_def)
  qed
qed

subsection \<open>A sample segment\<close>

definition sample_params :: MailboxParams where
  "sample_params = \<lparr>mp_num_brokers = 2, mp_record_size = 16, mp_up_capacity = 4, mp_down_capacity = 4, mp_broadcast_spin_bound = 10\<rparr>"

definition sample_header :: MailboxSegmentHeader where
  "sample_header = the (create_header sample_params)"

definition sample_segment :: MailboxSegment where
  "sample_segment = \<lparr>sg_num_brokers = 2, sg_record_size = 16, sg_broadcast_spin_bound = 10, sg_up = [sample_ring, sample_ring],
     sg_down = [sample_ring, sample_ring]\<rparr>"

lemma bytes_16_4: "BytesNeeded 16 4 = 704"
  by (simp add: BytesNeeded_def SlotStride_def AlignUp_def kCacheLine_def sizeof_MailboxRingHeader_def sizeof_MailboxSlotHeader_def)

lemma ring_create_16_4: "a \<noteq> 0 \<Longrightarrow> a mod 64 = 0 \<Longrightarrow> 704 \<le> s \<Longrightarrow> ring_create a s 16 4 = Some sample_ring"
  by (simp add: sample_ring_def ring_create_def ring_attach_def bytes_16_4 kCacheLine_def)

lemma sample_header_created: "create_header sample_params = Some sample_header"
  by (simp add: sample_header_def create_header_def sample_params_def Let_def)

lemma sample_header_fields: "sample_header = \<lparr>sh_magic = kMailboxSegmentMagic, sh_version = kMailboxSegmentVersion, sh_num_brokers = 2,
    sh_record_size = 16, sh_up_capacity = 4, sh_down_capacity = 4, sh_up_stride = 704, sh_down_stride = 704, sh_up_base = 64,
    sh_down_base = 1472, sh_broadcast_spin_bound = 10\<rparr>"
  by (simp add: sample_header_def create_header_def sample_params_def bytes_16_4 align_header)

lemma sample_needs: "SegmentBytesNeeded sample_params = 2880"
  by (simp add: SegmentBytesNeeded_def sample_params_def bytes_16_4 align_header)

lemma sample_segment_created: "CreateInPlace 64 4096 sample_params = Some (sample_header, sample_segment)"
proof -
  have "bind_rings sample_header (\<lambda>region stride capacity. ring_create (64 + region) stride (sh_record_size sample_header) capacity) = Some sample_segment"
    unfolding bind_rings_eq by (simp add: sample_segment_def sample_header_fields up_region_def down_region_def ring_create_16_4 upt_rec)
  then show ?thesis by (simp add: CreateInPlace_def kCacheLine_def sample_needs sample_header_created)
qed

lemma sample_no_overflow: "64 + (unat (BytesNeeded (mp_record_size sample_params) (mp_up_capacity sample_params)) +
    unat (BytesNeeded (mp_record_size sample_params) (mp_down_capacity sample_params))) * unat (mp_num_brokers sample_params) < 2 ^ 64"
  by (simp add: sample_params_def bytes_16_4)

lemma sample_header_valid: "header_valid 4096 sample_header"
  by (rule created_header_valid[OF sample_header_created _ _ _ sample_no_overflow]) (simp_all add: sample_needs, simp_all add: sample_params_def)

lemma mailbox_attach_extents_disjoint_witness:
  "header_valid 4096 sample_header \<and> seg_extents sample_header = [(64, 704), (768, 704), (1472, 704), (2176, 704)] \<and>
   sorted_wrt (\<lambda>x y. fst x + snd x \<le> fst y) (seg_extents sample_header)"
  using mailbox_attach_extents_disjoint[OF sample_header_valid] sample_header_valid
  by (simp add: seg_extents_def sample_header_fields up_region_def down_region_def upt_rec)

lemma sample_segment_ok: "segment_ok sample_segment"
proof -
  have "mr_record_size sample_ring = 16" using create_inv[OF sample_ring_created] by auto
  then show ?thesis using sample_ring_ok(1) by (simp add: segment_ok_def sample_segment_def)
qed

lemma broadcast_down_decoupled_witness:
  "\<exists>status seg'. BroadcastDown (\<lambda>_ _ x. x) [1, 2] 2 sample_segment = Some (status, seg') \<and> length (bs_per_ring status) = 2 \<and> segment_ok seg'"
  using broadcast_down_decoupled[OF sample_segment_ok, of "\<lambda>_ _ x. x" 2 "[1, 2]"] consumed_refl
  by (auto simp: consumer_env_def sample_segment_def split: option.splits)

end
