(* ===== verification/CorfuToken.thy ===== *)
theory CorfuToken
  imports MailboxFifo
begin

unbundle bit_operations_syntax

text \<open>
  The Corfu sequencer (\<open>cxl_manager/corfu_sequencer_service.cc\<close>), its mailbox records
  (\<open>cxl_manager/corfu_mailbox_messages.h\<close>) and the mailbox sequencer that serves them
  (\<open>cxl_manager/corfu_mailbox_sequencer.cc\<close>).  Calls of \<open>AssignToken\<close> are made one after the
  other, as the one thread of the mailbox sequencer makes them.  (The mutexes of the code are per client and per stream; over
  gRPC the counter updates of calls for different clients may interleave, which is not modelled.)  Counters are 64-bit and wrap.
\<close>

subsection \<open>The token state machine\<close>

datatype TokenStatus = TokenOK | INVALID_ARGUMENT | ALREADY_PROCESSED | OUT_OF_ORDER

definition kMaxBrokers :: int where "kMaxBrokers = 32"

record CorfuSequencer =
  cs_next_order :: "64 word"
  cs_idx_per_broker :: "int \<Rightarrow> 64 word"
  cs_batch_seq_per_broker :: "int \<Rightarrow> 64 word"
  cs_client_state :: "64 word \<rightharpoonup> 64 word"

definition CorfuSequencer_init :: CorfuSequencer where
  "CorfuSequencer_init = \<lparr>cs_next_order = 0, cs_idx_per_broker = (\<lambda>_. 0), cs_batch_seq_per_broker = (\<lambda>_. 0), cs_client_state = Map.empty\<rparr>"

record Token =
  tk_total_order :: "64 word"
  tk_log_idx :: "64 word"
  tk_broker_batch_seq :: "64 word"

definition client_broker_key :: "64 word \<Rightarrow> int \<Rightarrow> 64 word" where
  "client_broker_key client_id broker_id = push_bit 32 client_id OR of_int broker_id"

definition GetOrCreateState :: "64 word \<Rightarrow> CorfuSequencer \<Rightarrow> 64 word \<times> CorfuSequencer" where
  "GetOrCreateState key s = (case cs_client_state s key of
     Some expected \<Rightarrow> (expected, s)
   | None \<Rightarrow> (0, s\<lparr>cs_client_state := (cs_client_state s)(key \<mapsto> 0)\<rparr>))"

definition AssignToken ::
  "64 word \<Rightarrow> 64 word \<Rightarrow> 64 word \<Rightarrow> 64 word \<Rightarrow> int \<Rightarrow> CorfuSequencer \<Rightarrow> (TokenStatus + Token) \<times> CorfuSequencer" where
  "AssignToken client_id batch_seq num_msg total_size broker_id s =
     (if broker_id < 0 \<or> broker_id \<ge> kMaxBrokers then (Inl INVALID_ARGUMENT, s)
      else if num_msg = 0 \<or> total_size = 0 then (Inl INVALID_ARGUMENT, s)
      else let key = client_broker_key client_id broker_id; (expected, s1) = GetOrCreateState key s
           in if batch_seq < expected then (Inl ALREADY_PROCESSED, s1)
              else if batch_seq \<noteq> expected then (Inl OUT_OF_ORDER, s1)
              else (Inr \<lparr>tk_total_order = cs_next_order s1, tk_log_idx = cs_idx_per_broker s1 broker_id,
                         tk_broker_batch_seq = cs_batch_seq_per_broker s1 broker_id\<rparr>,
                    s1\<lparr>cs_next_order := cs_next_order s1 + num_msg,
                       cs_idx_per_broker := (cs_idx_per_broker s1)(broker_id := cs_idx_per_broker s1 broker_id + total_size),
                       cs_batch_seq_per_broker := (cs_batch_seq_per_broker s1)(broker_id := cs_batch_seq_per_broker s1 broker_id + 1),
                       cs_client_state := (cs_client_state s1)(key \<mapsto> expected + 1)\<rparr>))"

text \<open>The gRPC answer: the token, or a status code with its message.\<close>

datatype GrpcCode = GRPC_INVALID_ARGUMENT | GRPC_UNAVAILABLE

definition GetTotalOrder ::
  "64 word \<Rightarrow> 64 word \<Rightarrow> 64 word \<Rightarrow> 64 word \<Rightarrow> 32 word \<Rightarrow> CorfuSequencer \<Rightarrow> ((GrpcCode \<times> string) + Token) \<times> CorfuSequencer" where
  "GetTotalOrder client_id batch_seq num_msg total_size broker s =
     (let broker_id = sint broker; (res, s1) = AssignToken client_id batch_seq num_msg total_size broker_id s
      in (case res of
            Inr tok \<Rightarrow> Inr tok
          | Inl ALREADY_PROCESSED \<Rightarrow> Inl (GRPC_INVALID_ARGUMENT, ''Batch sequence already processed'')
          | Inl OUT_OF_ORDER \<Rightarrow> Inl (GRPC_UNAVAILABLE, ''Out of order batch sequence, please retry'')
          | Inl _ \<Rightarrow> Inl (GRPC_INVALID_ARGUMENT,
              if broker_id < 0 \<or> broker_id \<ge> kMaxBrokers then ''broker_id out of range'' else ''Invalid num_msg or total_size''), s1))"

subsection \<open>Mailbox records\<close>

record CorfuTokenRequest =
  rq_client_id :: "64 word"
  rq_batch_seq :: "64 word"
  rq_num_msg :: "64 word"
  rq_total_size :: "64 word"
  rq_session_id :: "64 word"
  rq_correlation_id :: "64 word"
  rq_broker_id :: "32 word"
  rq_pad :: "32 word"

record CorfuTokenGrant =
  gr_total_order :: "64 word"
  gr_log_idx :: "64 word"
  gr_broker_batch_seq :: "64 word"
  gr_client_id :: "64 word"
  gr_batch_seq :: "64 word"
  gr_session_id :: "64 word"
  gr_correlation_id :: "64 word"
  gr_broker_id :: "32 word"
  gr_status :: "32 word"

text \<open>Little-endian integers.\<close>

definition le_bytes :: "nat \<Rightarrow> 'a::len word \<Rightarrow> 8 word list" where
  "le_bytes n w = map (\<lambda>i. ucast (drop_bit (8 * i) w)) [0..<n]"

definition of_le_bytes :: "8 word list \<Rightarrow> 'a::len word" where
  "of_le_bytes bs = foldr (\<lambda>b acc. ucast b OR push_bit 8 acc) bs 0"

definition request_bytes :: "CorfuTokenRequest \<Rightarrow> 8 word list" where
  "request_bytes r = le_bytes 8 (rq_client_id r) @ le_bytes 8 (rq_batch_seq r) @ le_bytes 8 (rq_num_msg r) @ le_bytes 8 (rq_total_size r) @
     le_bytes 8 (rq_session_id r) @ le_bytes 8 (rq_correlation_id r) @ le_bytes 4 (rq_broker_id r) @ le_bytes 4 (rq_pad r)"

definition field_at :: "nat \<Rightarrow> nat \<Rightarrow> 8 word list \<Rightarrow> 'a::len word" where
  "field_at off n bs = of_le_bytes (take n (drop off bs))"

definition read_request :: "8 word list \<Rightarrow> CorfuTokenRequest" where
  "read_request bs = \<lparr>rq_client_id = field_at 0 8 bs, rq_batch_seq = field_at 8 8 bs, rq_num_msg = field_at 16 8 bs,
     rq_total_size = field_at 24 8 bs, rq_session_id = field_at 32 8 bs, rq_correlation_id = field_at 40 8 bs,
     rq_broker_id = field_at 48 4 bs, rq_pad = field_at 52 4 bs\<rparr>"

definition grant_bytes :: "CorfuTokenGrant \<Rightarrow> 8 word list" where
  "grant_bytes g = le_bytes 8 (gr_total_order g) @ le_bytes 8 (gr_log_idx g) @ le_bytes 8 (gr_broker_batch_seq g) @
     le_bytes 8 (gr_client_id g) @ le_bytes 8 (gr_batch_seq g) @ le_bytes 8 (gr_session_id g) @ le_bytes 8 (gr_correlation_id g) @
     le_bytes 4 (gr_broker_id g) @ le_bytes 4 (gr_status g)"

definition read_grant :: "8 word list \<Rightarrow> CorfuTokenGrant" where
  "read_grant bs = \<lparr>gr_total_order = field_at 0 8 bs, gr_log_idx = field_at 8 8 bs, gr_broker_batch_seq = field_at 16 8 bs,
     gr_client_id = field_at 24 8 bs, gr_batch_seq = field_at 32 8 bs, gr_session_id = field_at 40 8 bs,
     gr_correlation_id = field_at 48 8 bs, gr_broker_id = field_at 56 4 bs, gr_status = field_at 60 4 bs\<rparr>"

definition sizeof_CorfuTokenRequest :: nat where "sizeof_CorfuTokenRequest = 56"

definition sizeof_CorfuTokenGrant :: nat where "sizeof_CorfuTokenGrant = 64"

subsection \<open>The mailbox sequencer\<close>

fun StatusToGrantValue :: "TokenStatus \<Rightarrow> 32 word" where
  "StatusToGrantValue TokenOK = 0"
| "StatusToGrantValue INVALID_ARGUMENT = 1"
| "StatusToGrantValue ALREADY_PROCESSED = 2"
| "StatusToGrantValue OUT_OF_ORDER = 3"

definition serve_request :: "CorfuTokenRequest \<Rightarrow> CorfuSequencer \<Rightarrow> CorfuTokenGrant \<times> CorfuSequencer" where
  "serve_request r s =
     (let (res, s1) = AssignToken (rq_client_id r) (rq_batch_seq r) (rq_num_msg r) (rq_total_size r) (sint (rq_broker_id r)) s;
          g = \<lparr>gr_total_order = 0, gr_log_idx = 0, gr_broker_batch_seq = 0, gr_client_id = rq_client_id r, gr_batch_seq = rq_batch_seq r,
               gr_session_id = rq_session_id r, gr_correlation_id = rq_correlation_id r, gr_broker_id = rq_broker_id r,
               gr_status = StatusToGrantValue (case res of Inl st \<Rightarrow> st | Inr _ \<Rightarrow> TokenOK)\<rparr>
      in (case res of
            Inl _ \<Rightarrow> g
          | Inr tok \<Rightarrow> g\<lparr>gr_total_order := tk_total_order tok, gr_log_idx := tk_log_idx tok, gr_broker_batch_seq := tk_broker_batch_seq tok\<rparr>, s1))"

text \<open>One drain of a broker's upstream ring: at most \<open>K\<close> requests; \<open>None\<close> is an aborted process.  A
  record of another length is skipped, as in a release build.\<close>

fun DrainBrokerRequests :: "nat \<Rightarrow> CorfuSequencer \<Rightarrow> MailboxRing \<Rightarrow> MailboxRing \<Rightarrow> (nat \<times> CorfuSequencer \<times> MailboxRing \<times> MailboxRing) option" where
  "DrainBrokerRequests 0 s up down = Some (0, s, up, down)"
| "DrainBrokerRequests (Suc i) s up down =
     (case HasSpace down of
        (False, down1) \<Rightarrow> Some (0, s, up, down1)
      | (True, down1) \<Rightarrow>
          (case TryConsume (of_nat sizeof_CorfuTokenRequest) up of
             (Empty, up1) \<Rightarrow> Some (0, s, up1, down1)
           | (TooSmall, up1) \<Rightarrow> None
           | (Consumed bs, up1) \<Rightarrow>
               if length bs \<noteq> sizeof_CorfuTokenRequest then DrainBrokerRequests i s up1 down1
               else let (g, s1) = serve_request (read_request bs) s
                    in (case TryProduce (grant_bytes g) (of_nat sizeof_CorfuTokenGrant) down1 of
                          (False, down2) \<Rightarrow> None
                        | (True, down2) \<Rightarrow> map_option (\<lambda>(n, r). (Suc n, r)) (DrainBrokerRequests i s1 up1 down2))))"

subsection \<open>Records survive the wire\<close>

lemma length_le_bytes [simp]: "length (le_bytes n w) = n"
  by (simp add: le_bytes_def)

lemma of_le_bytes_from:
  fixes w :: "'a::len word"
  assumes "8 * n = LENGTH('a)"
  shows "k \<le> n \<Longrightarrow> of_le_bytes (map (\<lambda>i. ucast (drop_bit (8 * i) w)) [k..<n]) = drop_bit (8 * k) w"
proof (induction "n - k" arbitrary: k)
  case 0
  then have "k = n" by simp
  then show ?case using assms by (simp add: of_le_bytes_def)
next
  case (Suc d)
  then have k: "k < n" "of_le_bytes (map (\<lambda>i. ucast (drop_bit (8 * i) w)) [k + 1..<n]) = drop_bit (8 * (k + 1)) w" by simp_all
  have s: "[k..<n] = k # [k + 1..<n]" using k(1) by (simp add: upt_conv_Cons)
  have "ucast (ucast (drop_bit (8 * k) w) :: 8 word) OR push_bit 8 (drop_bit (8 * (k + 1)) w) = drop_bit (8 * k) w"
  proof (rule bit_word_eqI)
    fix j assume "j < LENGTH('a)"
    then show "bit (ucast (ucast (drop_bit (8 * k) w) :: 8 word) OR push_bit 8 (drop_bit (8 * (k + 1)) w)) j = bit (drop_bit (8 * k) w) j"
      by (cases "j < 8") (auto simp: bit_simps not_less dest!: le_Suc_ex)
  qed
  then show ?case using k(2) unfolding s by (simp add: of_le_bytes_def)
qed

lemma of_le_bytes_8 [simp]: "of_le_bytes (le_bytes 8 (w :: 64 word)) = w"
  using of_le_bytes_from[of 8 0 w] by (simp add: le_bytes_def)

lemma of_le_bytes_4 [simp]: "of_le_bytes (le_bytes 4 (w :: 32 word)) = w"
  using of_le_bytes_from[of 4 0 w] by (simp add: le_bytes_def)

lemma read_request_bytes: "read_request (request_bytes r) = r" "length (request_bytes r) = sizeof_CorfuTokenRequest"
  by (simp_all add: read_request_def request_bytes_def field_at_def sizeof_CorfuTokenRequest_def)

lemma read_grant_bytes: "read_grant (grant_bytes g) = g" "length (grant_bytes g) = sizeof_CorfuTokenGrant"
  by (simp_all add: read_grant_def grant_bytes_def field_at_def sizeof_CorfuTokenGrant_def)

subsection \<open>The order the tokens give\<close>

fun sums_from :: "64 word \<Rightarrow> 64 word list \<Rightarrow> 64 word list" where
  "sums_from a [] = []"
| "sums_from a (n # ns) = a # sums_from (a + n) ns"

fun serve_all :: "CorfuTokenRequest list \<Rightarrow> CorfuSequencer \<Rightarrow> CorfuTokenGrant list \<times> CorfuSequencer" where
  "serve_all [] s = ([], s)"
| "serve_all (r # rs) s = (let (g, s1) = serve_request r s; (gs, s2) = serve_all rs s1 in (g # gs, s2))"

definition req_broker :: "CorfuTokenRequest \<Rightarrow> int" where "req_broker r = sint (rq_broker_id r)"

definition req_stream :: "CorfuTokenRequest \<Rightarrow> 64 word" where
  "req_stream r = client_broker_key (rq_client_id r) (req_broker r)"

definition expected_seq :: "CorfuSequencer \<Rightarrow> 64 word \<Rightarrow> 64 word" where
  "expected_seq s key = (case cs_client_state s key of None \<Rightarrow> 0 | Some e \<Rightarrow> e)"

definition granted :: "CorfuTokenRequest list \<Rightarrow> CorfuTokenGrant list \<Rightarrow> (CorfuTokenRequest \<times> CorfuTokenGrant) list" where
  "granted rs gs = filter (\<lambda>x. gr_status (snd x) = 0) (zip rs gs)"

lemma serve_cases:
  obtains (token) "serve_request r s = (g, s')" "gr_status g = 0" "gr_total_order g = cs_next_order s"
      "gr_log_idx g = cs_idx_per_broker s (req_broker r)" "gr_broker_batch_seq g = cs_batch_seq_per_broker s (req_broker r)"
      "rq_batch_seq r = expected_seq s (req_stream r)" "cs_next_order s' = cs_next_order s + rq_num_msg r"
      "cs_idx_per_broker s' = (cs_idx_per_broker s)(req_broker r := cs_idx_per_broker s (req_broker r) + rq_total_size r)"
      "cs_batch_seq_per_broker s' = (cs_batch_seq_per_broker s)(req_broker r := cs_batch_seq_per_broker s (req_broker r) + 1)"
      "expected_seq s' = (expected_seq s)(req_stream r := expected_seq s (req_stream r) + 1)"
  | (refused) "serve_request r s = (g, s')" "gr_status g \<noteq> 0" "cs_next_order s' = cs_next_order s" "cs_idx_per_broker s' = cs_idx_per_broker s"
      "cs_batch_seq_per_broker s' = cs_batch_seq_per_broker s" "expected_seq s' = expected_seq s"
  | (other) "serve_request r s \<noteq> (g, s')"
proof (cases "serve_request r s = (g, s')")
  case e: True
  obtain x s1 where g: "GetOrCreateState (req_stream r) s = (x, s1)" by fastforce
  have x: "x = expected_seq s (req_stream r)" "expected_seq s1 = expected_seq s" "cs_next_order s1 = cs_next_order s"
    "cs_idx_per_broker s1 = cs_idx_per_broker s" "cs_batch_seq_per_broker s1 = cs_batch_seq_per_broker s"
    using g by (auto simp: GetOrCreateState_def expected_seq_def fun_eq_iff split: option.splits if_splits)
  let ?b = "req_broker r"
  let ?A = "AssignToken (rq_client_id r) (rq_batch_seq r) (rq_num_msg r) (rq_total_size r) ?b s"
  have key: "client_broker_key (rq_client_id r) ?b = req_stream r" by (simp add: req_stream_def)
  have sr: "serve_request r s = (g, s')" "sint (rq_broker_id r) = ?b" using e by (simp_all add: req_broker_def)
  consider "?b < 0 \<or> ?b \<ge> kMaxBrokers \<or> rq_num_msg r = 0 \<or> rq_total_size r = 0"
    | "\<not> (?b < 0 \<or> ?b \<ge> kMaxBrokers \<or> rq_num_msg r = 0 \<or> rq_total_size r = 0)" "rq_batch_seq r \<noteq> x"
    | "\<not> (?b < 0 \<or> ?b \<ge> kMaxBrokers \<or> rq_num_msg r = 0 \<or> rq_total_size r = 0)" "rq_batch_seq r = x" by blast
  then show thesis
  proof cases
    case 1
    then have "?A = (Inl INVALID_ARGUMENT, s)" by (auto simp: AssignToken_def)
    then have "gr_status g = 1 \<and> s' = s" using sr by (auto simp: serve_request_def)
    then show thesis using e by (intro refused) simp_all
  next
    case 2
    then have "?A = (Inl (if rq_batch_seq r < x then ALREADY_PROCESSED else OUT_OF_ORDER), s1)" by (auto simp: AssignToken_def key g)
    then have "(gr_status g = 2 \<or> gr_status g = 3) \<and> s' = s1"
      using sr by (cases "rq_batch_seq r < x") (auto simp: serve_request_def)
    then show thesis using e x by (intro refused) auto
  next
    case 3
    then have A: "?A = (Inr \<lparr>tk_total_order = cs_next_order s1, tk_log_idx = cs_idx_per_broker s1 ?b,
        tk_broker_batch_seq = cs_batch_seq_per_broker s1 ?b\<rparr>,
      s1\<lparr>cs_next_order := cs_next_order s1 + rq_num_msg r,
         cs_idx_per_broker := (cs_idx_per_broker s1)(?b := cs_idx_per_broker s1 ?b + rq_total_size r),
         cs_batch_seq_per_broker := (cs_batch_seq_per_broker s1)(?b := cs_batch_seq_per_broker s1 ?b + 1),
         cs_client_state := (cs_client_state s1)(req_stream r \<mapsto> x + 1)\<rparr>)" by (simp add: AssignToken_def key g)
    have es: "expected_seq (s1\<lparr>cs_next_order := n, cs_idx_per_broker := m, cs_batch_seq_per_broker := q,
        cs_client_state := (cs_client_state s1)(k \<mapsto> v)\<rparr>) = (expected_seq s1)(k := v)" for n m q k v
      by (simp add: expected_seq_def fun_eq_iff)
    show thesis using sr A es x 3(2) by (intro token[OF e]) (auto simp: serve_request_def)
  qed
qed (rule other)

text \<open>C23: tokens tile the order.  For any sequence of requests from any state, the granted ones
  start at consecutive positions of the message order (each where the previous one ended), per broker
  at consecutive log offsets and with consecutive batch numbers, and the granted batches of one
  stream are exactly those numbered from its expected sequence on, in order; refused requests take
  nothing.\<close>

theorem corfu_tokens_tile:
  fixes rs :: "CorfuTokenRequest list"
  defines "G s \<equiv> granted rs (fst (serve_all rs s))"
  shows "map (gr_total_order \<circ> snd) (G s) = sums_from (cs_next_order s) (map (rq_num_msg \<circ> fst) (G s)) \<and>
     cs_next_order (snd (serve_all rs s)) = cs_next_order s + sum_list (map (rq_num_msg \<circ> fst) (G s)) \<and>
     map (gr_log_idx \<circ> snd) (filter (\<lambda>x. req_broker (fst x) = b) (G s)) =
       sums_from (cs_idx_per_broker s b) (map (rq_total_size \<circ> fst) (filter (\<lambda>x. req_broker (fst x) = b) (G s))) \<and>
     map (gr_broker_batch_seq \<circ> snd) (filter (\<lambda>x. req_broker (fst x) = b) (G s)) =
       sums_from (cs_batch_seq_per_broker s b) (map (\<lambda>_. 1) (filter (\<lambda>x. req_broker (fst x) = b) (G s))) \<and>
     map (rq_batch_seq \<circ> fst) (filter (\<lambda>x. req_stream (fst x) = key) (G s)) =
       sums_from (expected_seq s key) (map (\<lambda>_. 1) (filter (\<lambda>x. req_stream (fst x) = key) (G s)))"
  unfolding G_def
proof (induction rs arbitrary: s)
  case Nil
  show ?case by (simp add: granted_def)
next
  case (Cons r rs)
  obtain g s1 gs s2 where e: "serve_request r s = (g, s1)" "serve_all rs s1 = (gs, s2)" by fastforce
  note IH = Cons[of s1, unfolded e(2) fst_conv snd_conv]
  have gr: "granted (r # rs) (g # gs) = (if gr_status g = 0 then [(r, g)] else []) @ granted rs gs" by (simp add: granted_def)
  have u: "serve_all (r # rs) s = (g # gs, s2)" using e by simp
  show ?case
  proof (cases rule: serve_cases[of r s g s1])
    case token
    show ?thesis unfolding u fst_conv snd_conv gr using IH token by (simp add: add.assoc)
  next
    case refused
    show ?thesis unfolding u fst_conv snd_conv gr using IH refused by simp
  next
    case other
    then show ?thesis using e by simp
  qed
qed

subsection \<open>Draining a broker\<close>

lemma consume_request:
  assumes "ring_ok up" "ring_contents up = map request_bytes (r # rs)"
  obtains up1 where "TryConsume (of_nat sizeof_CorfuTokenRequest) up = (Consumed (request_bytes r), up1)" "ring_ok up1"
    "ring_contents up1 = map request_bytes rs"
proof -
  obtain x up1 where c: "TryConsume (of_nat sizeof_CorfuTokenRequest) up = (x, up1)" by fastforce
  have "unat (of_nat sizeof_CorfuTokenRequest :: 32 word) = length (request_bytes r)"
    by (simp add: read_request_bytes(2) sizeof_CorfuTokenRequest_def)
  then show thesis using mailbox.consume_law[OF assms(1) c] assms(2) c that by (cases x) auto
qed

text \<open>C12: no token is lost.  Draining a broker whose upstream ring holds requests serves exactly as
  many as the per-pass bound, the requests present and the free space of the downstream ring allow;
  each served request is answered by its own grant, in order, a request whose grant could not be
  delivered stays in the ring with no token assigned, and the sole-writer check never aborts.\<close>

theorem corfu_drain_delivers:
  fixes K :: nat
  assumes "ring_ok up" "ring_ok down" "ring_contents up = map request_bytes rs" "sizeof_CorfuTokenGrant \<le> ring_limit down"
  defines "n \<equiv> min K (min (length rs) (ring_room down - length (ring_contents down)))"
  shows "\<exists>up' down'. DrainBrokerRequests K s up down = Some (n, snd (serve_all (take n rs) s), up', down') \<and> ring_ok up' \<and> ring_ok down' \<and>
     ring_contents up' = map request_bytes (drop n rs) \<and>
     ring_contents down' = ring_contents down @ map grant_bytes (fst (serve_all (take n rs) s))"
  using assms(1-4) unfolding n_def
proof (induction K arbitrary: s up down rs)
  case 0
  then show ?case by auto
next
  case (Suc K)
  obtain b down1 where h: "HasSpace down = (b, down1)" by fastforce
  note sp = mailbox.space_law[OF Suc.prems(2) h]
  show ?case
  proof (cases b)
    case False
    then show ?thesis using h sp Suc.prems by auto
  next
    case True
    show ?thesis
    proof (cases rs)
      case Nil
      obtain x up1 where c: "TryConsume (of_nat sizeof_CorfuTokenRequest) up = (x, up1)" by fastforce
      have "x = Empty \<and> up1 = up" using mailbox.consume_law[OF Suc.prems(1) c] Suc.prems(3) Nil by (cases x) auto
      then show ?thesis using h True c sp Suc.prems Nil by auto
    next
      case (Cons r rs')
      obtain up1 where c: "TryConsume (of_nat sizeof_CorfuTokenRequest) up = (Consumed (request_bytes r), up1)" "ring_ok up1"
        "ring_contents up1 = map request_bytes rs'" using consume_request Suc.prems(1,3) Cons by metis
      obtain g s1 where g: "serve_request r s = (g, s1)" by fastforce
      have len: "unat (of_nat sizeof_CorfuTokenGrant :: 32 word) = sizeof_CorfuTokenGrant" by (simp add: sizeof_CorfuTokenGrant_def)
      obtain down2 where p: "TryProduce (grant_bytes g) (of_nat sizeof_CorfuTokenGrant) down1 = (True, down2)" "ring_ok down2"
        "ring_contents down2 = ring_contents down @ [grant_bytes g]" "ring_room down2 = ring_room down" "ring_limit down2 = ring_limit down"
        using mailbox.space_then_produce[of down down1 "of_nat sizeof_CorfuTokenGrant" "grant_bytes g"] Suc.prems(2,4) h True
        unfolding len by (auto simp: read_grant_bytes(2))
      define N where "N = min K (min (length rs') (ring_room down - length (ring_contents down2)))"
      have n: "min (Suc K) (min (length rs) (ring_room down - length (ring_contents down))) = Suc N"
        unfolding N_def using True sp Cons p(3) by (simp add: min_Suc_Suc Suc_diff_Suc flip: min_Suc_Suc)
      obtain up' down' where d: "DrainBrokerRequests K s1 up1 down2 = Some (N, snd (serve_all (take N rs') s1), up', down')" "ring_ok up'" "ring_ok down'"
        "ring_contents up' = map request_bytes (drop N rs')"
        "ring_contents down' = ring_contents down2 @ map grant_bytes (fst (serve_all (take N rs') s1))"
        using Suc.IH[OF c(2) p(2) c(3), of s1, unfolded p(4) N_def[symmetric]] Suc.prems(4) p(5) by auto
      have "DrainBrokerRequests (Suc K) s up down = Some (Suc N, snd (serve_all (take N rs') s1), up', down')"
        using h True c(1) g p(1) d(1) by (simp add: read_request_bytes)
      then show ?thesis unfolding n unfolding Cons using d(2-5) p(3) g by (auto simp: split_beta)
    qed
  qed
qed

definition sample_request :: CorfuTokenRequest where
  "sample_request = \<lparr>rq_client_id = 7, rq_batch_seq = 0, rq_num_msg = 10, rq_total_size = 1000, rq_session_id = 1, rq_correlation_id = 1,
     rq_broker_id = 2, rq_pad = 0\<rparr>"

definition corfu_ring :: MailboxRing where
  "corfu_ring = the (ring_create 64 4096 64 4)"

lemma corfu_ring_ok: "ring_ok corfu_ring" "ring_contents corfu_ring = []" "ring_room corfu_ring = 4" "ring_limit corfu_ring = 64"
proof -
  have c: "ring_create 64 4096 64 4 = Some corfu_ring"
    by (simp add: corfu_ring_def ring_create_def ring_attach_def BytesNeeded_def SlotStride_def AlignUp_def kCacheLine_def
        sizeof_MailboxRingHeader_def sizeof_MailboxSlotHeader_def)
  obtain k where k: "ring_inv k 0 0 0 corfu_ring" "mr_write_index corfu_ring = 0" "mr_capacity corfu_ring = 4" "mr_record_size corfu_ring = 64"
    using create_inv[OF c] by auto
  then have at: "ring_at k 0 0 0 corfu_ring" by (simp add: ring_at_def)
  show "ring_ok corfu_ring" using at by (auto simp: ring_ok_def)
  show "ring_contents corfu_ring = []" using ring_at_facts(9)[OF at] by simp
  show "ring_room corfu_ring = 4" "ring_limit corfu_ring = 64" using k by simp_all
qed

lemma corfu_drain_delivers_witness:
  "\<exists>up up' down' s'. ring_contents up = [request_bytes sample_request] \<and>
     DrainBrokerRequests 64 CorfuSequencer_init up corfu_ring = Some (1, s', up', down') \<and> ring_contents up' = [] \<and> cs_next_order s' = 10 \<and>
     ring_contents down' = [grant_bytes \<lparr>gr_total_order = 0, gr_log_idx = 0, gr_broker_batch_seq = 0, gr_client_id = 7, gr_batch_seq = 0,
       gr_session_id = 1, gr_correlation_id = 1, gr_broker_id = 2, gr_status = 0\<rparr>]"
proof -
  have len: "unat (56 :: 32 word) = length (request_bytes sample_request)" by (simp add: read_request_bytes(2) sizeof_CorfuTokenRequest_def)
  obtain b up where t: "TryProduce (request_bytes sample_request) 56 corfu_ring = (b, up)" by fastforce
  have up: "ring_ok up" "ring_contents up = map request_bytes [sample_request]"
    using mailbox.produce_law[OF corfu_ring_ok(1) _ t] corfu_ring_ok len by auto
  have s: "serve_request sample_request CorfuSequencer_init =
      (\<lparr>gr_total_order = 0, gr_log_idx = 0, gr_broker_batch_seq = 0, gr_client_id = 7, gr_batch_seq = 0,
         gr_session_id = 1, gr_correlation_id = 1, gr_broker_id = 2, gr_status = 0\<rparr>,
       CorfuSequencer_init\<lparr>cs_next_order := 10, cs_idx_per_broker := (\<lambda>_. 0)(2 := 1000), cs_batch_seq_per_broker := (\<lambda>_. 0)(2 := 1),
         cs_client_state := [client_broker_key 7 2 \<mapsto> 1]\<rparr>)"
    by (simp add: serve_request_def AssignToken_def GetOrCreateState_def sample_request_def CorfuSequencer_init_def kMaxBrokers_def)
  obtain up' down' s' where "DrainBrokerRequests 64 CorfuSequencer_init up corfu_ring = Some (1, s', up', down')" "ring_contents up' = []"
    "cs_next_order s' = 10" "ring_contents down' = [grant_bytes \<lparr>gr_total_order = 0, gr_log_idx = 0, gr_broker_batch_seq = 0, gr_client_id = 7,
       gr_batch_seq = 0, gr_session_id = 1, gr_correlation_id = 1, gr_broker_id = 2, gr_status = 0\<rparr>]"
    using corfu_drain_delivers[OF up(1) corfu_ring_ok(1) up(2), where K = 64 and s = CorfuSequencer_init]
    by (auto simp: corfu_ring_ok s sizeof_CorfuTokenGrant_def up(2))
  then show ?thesis using up(2) by (metis list.simps(8) list.simps(9))
qed

end
