(* ===== verification/BatchWire.thy ===== *)
theory BatchWire
  imports Level5State
begin

unbundle bit_operations_syntax

text \<open>
  The wire format of a batch body and its validation on ingest: message strides and size checks of
  \<open>common/wire_formats.h\<close>, the two message headers of \<open>cxl_manager/cxl_datastructure.h\<close>, and the
  envelope and body checks of \<open>network_manager/batch_validation.h\<close>.  A body is a byte memory
  \<open>nat \<Rightarrow> 8 word\<close>; copying a header out of it reads the little-endian fields at their offsets.
\<close>

subsection \<open>Sizes and strides\<close>

definition MAX_MESSAGE_PAYLOAD_SIZE :: nat where "MAX_MESSAGE_PAYLOAD_SIZE = 1024 * 1024"
definition HEADER_VERSION_V1 :: nat where "HEADER_VERSION_V1 = 1"
definition HEADER_VERSION_V2 :: nat where "HEADER_VERSION_V2 = 2"
definition V1_HEADER_SIZE :: nat where "V1_HEADER_SIZE = 64"
definition V2_HEADER_SIZE :: nat where "V2_HEADER_SIZE = 64"

definition Align64 :: "nat \<Rightarrow> nat" where
  "Align64 n = unat ((of_nat (n + 63) :: 64 word) AND NOT 63)"

definition ComputeMessageStride :: "nat \<Rightarrow> nat \<Rightarrow> nat" where
  "ComputeMessageStride header_size payload_size = Align64 (u64 (header_size + payload_size))"

definition IsValidHeaderVersion :: "nat \<Rightarrow> bool" where
  "IsValidHeaderVersion version \<longleftrightarrow> version = HEADER_VERSION_V1 \<or> version = HEADER_VERSION_V2"

definition MaxV1PaddedSize :: nat where
  "MaxV1PaddedSize = Align64 (V1_HEADER_SIZE + MAX_MESSAGE_PAYLOAD_SIZE)"

definition ComputeStrideV2 :: "nat \<Rightarrow> nat" where
  "ComputeStrideV2 payload_size = Align64 (u64 (V2_HEADER_SIZE + payload_size))"

definition ValidateV1PaddedSize :: "nat \<Rightarrow> nat \<Rightarrow> bool" where
  "ValidateV1PaddedSize padded_size remaining_bytes \<longleftrightarrow>
     padded_size \<ge> V1_HEADER_SIZE \<and> padded_size \<le> MaxV1PaddedSize \<and> padded_size mod 64 = 0 \<and> padded_size \<le> remaining_bytes"

definition ValidateV2Payload :: "nat \<Rightarrow> nat \<Rightarrow> bool" where
  "ValidateV2Payload payload_size remaining_bytes \<longleftrightarrow>
     (let stride = ComputeStrideV2 payload_size
      in payload_size > 0 \<and> payload_size \<le> MAX_MESSAGE_PAYLOAD_SIZE \<and> stride \<le> remaining_bytes)"

definition ComputeStrideByVersion :: "nat \<Rightarrow> nat \<Rightarrow> nat \<Rightarrow> nat" where
  "ComputeStrideByVersion version payload_size padded_size =
     (if version = HEADER_VERSION_V2 then ComputeStrideV2 payload_size
      else if version = HEADER_VERSION_V1 then padded_size else 0)"

subsection \<open>Message headers\<close>

primrec le_read :: "(nat \<Rightarrow> 8 word) \<Rightarrow> nat \<Rightarrow> nat \<Rightarrow> nat" where
  "le_read buf off 0 = 0"
| "le_read buf off (Suc n) = unat (buf off) + 256 * le_read buf (off + 1) n"

record MessageHeader =
  mh_paddedSize :: nat
  mh_segment_header :: nat
  mh_logical_offset :: nat
  mh_next_msg_diff :: nat
  mh_total_order :: nat
  mh_client_order :: nat
  mh_client_id :: nat
  mh_size :: nat

definition read_MessageHeader :: "(nat \<Rightarrow> 8 word) \<Rightarrow> nat \<Rightarrow> MessageHeader" where
  "read_MessageHeader buf c =
     \<lparr>mh_paddedSize = le_read buf c 8, mh_segment_header = le_read buf (c + 8) 8, mh_logical_offset = le_read buf (c + 16) 8,
      mh_next_msg_diff = le_read buf (c + 24) 8, mh_total_order = le_read buf (c + 32) 8, mh_client_order = le_read buf (c + 40) 8,
      mh_client_id = le_read buf (c + 48) 8, mh_size = le_read buf (c + 56) 8\<rparr>"

record BlogMessageHeader =
  bm_size :: nat
  bm_received :: nat
  bm_ts :: nat
  bm_counter :: nat
  bm_flags :: nat
  bm_processed_ts :: nat
  bm_total_order :: nat
  bm_ordered_ts :: nat
  bm_client_id :: nat
  bm_batch_seq :: nat

definition read_BlogMessageHeader :: "(nat \<Rightarrow> 8 word) \<Rightarrow> nat \<Rightarrow> BlogMessageHeader" where
  "read_BlogMessageHeader buf c =
     \<lparr>bm_size = le_read buf c 4, bm_received = le_read buf (c + 4) 4, bm_ts = le_read buf (c + 8) 8,
      bm_counter = le_read buf (c + 16) 4, bm_flags = le_read buf (c + 20) 4, bm_processed_ts = le_read buf (c + 24) 8,
      bm_total_order = le_read buf (c + 32) 8, bm_ordered_ts = le_read buf (c + 40) 8, bm_client_id = le_read buf (c + 48) 8,
      bm_batch_seq = le_read buf (c + 56) 4\<rparr>"

subsection \<open>Validation\<close>

definition ValidBatchEnvelope :: "BatchHeader \<Rightarrow> nat \<Rightarrow> nat \<Rightarrow> bool" where
  "ValidBatchEnvelope batch max_bytes client_id \<longleftrightarrow>
     bh_client_id batch = client_id \<and> bh_total_size batch > 0 \<and> bh_total_size batch \<le> max_bytes \<and>
     bh_num_msg batch > 0 \<and> bh_num_msg batch \<le> bh_total_size batch div 64"

text \<open>One message: its stride, or \<open>None\<close> when the body is rejected.\<close>

definition message_stride :: "(nat \<Rightarrow> 8 word) \<Rightarrow> bool \<Rightarrow> nat \<Rightarrow> nat \<Rightarrow> nat option" where
  "message_stride buf v2 cursor remaining =
     (if remaining < 64 then None
      else if v2 then
        let h = read_BlogMessageHeader buf cursor
        in if \<not> ValidateV2Payload (bm_size h) remaining then None else Some (ComputeStrideV2 (bm_size h))
      else
        let h = read_MessageHeader buf cursor
        in if \<not> ValidateV1PaddedSize (mh_paddedSize h) remaining then None
           else if mh_size h = 0 \<or> mh_size h > MAX_MESSAGE_PAYLOAD_SIZE \<or> mh_size h > mh_paddedSize h - 64 \<or>
                   (mh_next_msg_diff h \<noteq> 0 \<and> mh_next_msg_diff h \<noteq> mh_paddedSize h) then None
           else Some (mh_paddedSize h))"

fun validate_messages :: "(nat \<Rightarrow> 8 word) \<Rightarrow> bool \<Rightarrow> nat \<Rightarrow> nat \<Rightarrow> nat \<Rightarrow> bool" where
  "validate_messages buf v2 cursor remaining 0 = (remaining = 0)"
| "validate_messages buf v2 cursor remaining (Suc n) =
     (case message_stride buf v2 cursor remaining of
        None \<Rightarrow> False
      | Some stride \<Rightarrow> validate_messages buf v2 (cursor + stride) (remaining - stride) n)"

definition ValidateBatchBody :: "(nat \<Rightarrow> 8 word) option \<Rightarrow> nat \<Rightarrow> nat \<Rightarrow> bool \<Rightarrow> bool" where
  "ValidateBatchBody buffer bytes num v2 =
     (case buffer of
        None \<Rightarrow> False
      | Some buf \<Rightarrow> if bytes = 0 \<or> num = 0 \<or> num > bytes div 64 then False else validate_messages buf v2 0 bytes num)"

subsection \<open>Strides\<close>

lemma unat_clear_low6: "unat (x AND NOT 63 :: 64 word) = unat x div 64 * 64"
proof -
  have "(x AND NOT 63 :: 64 word) = push_bit 6 (drop_bit 6 x)"
  proof -
    have "(63 :: 64 word) = mask 6" by (simp add: mask_eq_exp_minus_1)
    moreover have "x AND NOT (mask 6) = push_bit 6 (drop_bit 6 x)" by (rule bit_eqI) (auto simp: bit_simps not_less)
    ultimately show ?thesis by (simp only:)
  qed
  moreover have lt: "unat x < 2 ^ 64" using unsigned_less[of x, where ?'a = nat] by simp
  moreover from lt have "unat x div 64 * 64 < 2 ^ 64" by simp
  moreover have "unat (push_bit 6 (drop_bit 6 x)) = take_bit 64 (unat x div 64 * 64)"
    unfolding unsigned_push_bit_eq unsigned_drop_bit_eq by (simp only: push_bit_eq_mult drop_bit_eq_div) (use lt in \<open>simp add: take_bit_eq_mod\<close>)
  ultimately show ?thesis by (simp only: take_bit_eq_mod mod_less)
qed

lemma Align64_eq: "n + 63 < 2 ^ 64 \<Longrightarrow> Align64 n = (n + 63) div 64 * 64"
  unfolding Align64_def unat_clear_low6 unsigned_of_nat take_bit_eq_mod by simp

lemma Align64_bounds: "n + 63 < 2 ^ 64 \<Longrightarrow> n \<le> Align64 n \<and> Align64 n < n + 64 \<and> Align64 n mod 64 = 0"
  using div_mult_mod_eq[of "n + 63" 64] mod_less_divisor[of 64 "n + 63"] unfolding Align64_eq by auto

lemma aligned_unique:
  assumes "(s :: nat) mod 64 = 0" "t mod 64 = 0" "n \<le> s" "s < n + 64" "n \<le> t" "t < n + 64"
  shows "s = t"
proof -
  obtain a b where ab: "s = 64 * a" "t = 64 * b" using assms(1,2) by (meson dvdE mod_eq_0_iff_dvd)
  then have "a < b + 1" "b < a + 1" using assms(3-6) by linarith+
  then show ?thesis using ab by simp
qed

subsection \<open>What a valid message is\<close>

text \<open>A message at \<open>c\<close> that takes \<open>s\<close> bytes, without reference to the walk.\<close>

definition message_at :: "(nat \<Rightarrow> 8 word) \<Rightarrow> bool \<Rightarrow> nat \<Rightarrow> nat \<Rightarrow> bool" where
  "message_at buf v2 c s \<longleftrightarrow> s mod 64 = 0 \<and>
     (if v2 then le_read buf c 4 > 0 \<and> le_read buf c 4 \<le> MAX_MESSAGE_PAYLOAD_SIZE \<and>
                 64 + le_read buf c 4 \<le> s \<and> s < 128 + le_read buf c 4
      else le_read buf c 8 = s \<and> s \<le> 64 + MAX_MESSAGE_PAYLOAD_SIZE \<and>
           le_read buf (c + 56) 8 > 0 \<and> 64 + le_read buf (c + 56) 8 \<le> s \<and>
           le_read buf (c + 24) 8 \<in> {0, s})"

lemma message_stride_iff: "message_stride buf v2 c r = Some s \<longleftrightarrow> message_at buf v2 c s \<and> s \<le> r"
proof (cases v2)
  case True
  define n where "n = le_read buf c 4"
  have st: "64 + n \<le> ComputeStrideV2 n \<and> ComputeStrideV2 n < 128 + n \<and> ComputeStrideV2 n mod 64 = 0" if "n \<le> MAX_MESSAGE_PAYLOAD_SIZE"
    using Align64_bounds[of "64 + n"] that by (simp add: ComputeStrideV2_def V2_HEADER_SIZE_def MAX_MESSAGE_PAYLOAD_SIZE_def UINT64_MAX_def)
  then have eq: "s = ComputeStrideV2 n" if "n \<le> MAX_MESSAGE_PAYLOAD_SIZE" "message_at buf v2 c s" for s
    using that True by (auto simp: message_at_def n_def[symmetric] intro: aligned_unique[of _ _ "64 + n"])
  show ?thesis
    using True st eq[of s] by (auto simp: message_stride_def read_BlogMessageHeader_def ValidateV2Payload_def Let_def message_at_def n_def[symmetric])
next
  case False
  have m: "MaxV1PaddedSize = 64 + MAX_MESSAGE_PAYLOAD_SIZE"
    by (simp add: MaxV1PaddedSize_def Align64_eq V1_HEADER_SIZE_def MAX_MESSAGE_PAYLOAD_SIZE_def)
  show ?thesis
    using False by (auto simp: message_stride_def read_MessageHeader_def ValidateV1PaddedSize_def V1_HEADER_SIZE_def m Let_def message_at_def)
qed

lemma message_at_least: "message_at buf v2 c s \<Longrightarrow> 64 \<le> s"
  by (auto simp: message_at_def split: if_splits)

text \<open>\<open>strides\<close> cut the \<open>r\<close> bytes from \<open>c\<close> on into messages.\<close>

definition tiles :: "(nat \<Rightarrow> 8 word) \<Rightarrow> bool \<Rightarrow> nat \<Rightarrow> nat \<Rightarrow> nat list \<Rightarrow> bool" where
  "tiles buf v2 c r strides \<longleftrightarrow> sum_list strides = r \<and>
     (\<forall>i<length strides. message_at buf v2 (c + sum_list (take i strides)) (strides ! i))"

lemma tiles_Nil [simp]: "tiles buf v2 c r [] \<longleftrightarrow> r = 0"
  by (auto simp: tiles_def)

lemma tiles_Cons [simp]: "tiles buf v2 c r (s # ss) \<longleftrightarrow> message_at buf v2 c s \<and> s \<le> r \<and> tiles buf v2 (c + s) (r - s) ss"
  unfolding tiles_def by (auto simp: All_less_Suc2 add.assoc)

lemma tiles_size: "tiles buf v2 c r strides \<Longrightarrow> 64 * length strides \<le> r"
  by (induction strides arbitrary: c r) (fastforce dest: message_at_least)+

lemma validate_messages_iff:
  "validate_messages buf v2 c r n \<longleftrightarrow> (\<exists>strides. length strides = n \<and> tiles buf v2 c r strides)"
proof (induction n arbitrary: c r)
  case (Suc n)
  have "validate_messages buf v2 c r (Suc n) \<longleftrightarrow> (\<exists>s. message_stride buf v2 c r = Some s \<and> validate_messages buf v2 (c + s) (r - s) n)"
    by (simp split: option.split)
  also have "\<dots> \<longleftrightarrow> (\<exists>s ss. length ss = n \<and> tiles buf v2 c r (s # ss))" by (auto simp: message_stride_iff Suc.IH)
  finally show ?case by (auto simp: length_Suc_conv simp del: tiles_Cons)
qed simp

subsection \<open>Reads stay inside the body\<close>

lemma le_read_cong: "\<forall>i<c + n. buf i = buf' i \<Longrightarrow> le_read buf c n = le_read buf' c n"
proof (induction n arbitrary: c)
  case (Suc n)
  then show ?case using Suc.IH[of "c + 1"] by simp
qed simp

lemma message_stride_cong:
  assumes "\<forall>i<c + r. buf i = buf' i"
  shows "message_stride buf v2 c r = message_stride buf' v2 c r"
proof (cases "r < 64")
  case False
  have at: "le_read buf (c + k) n = le_read buf' (c + k) n" if "k + n \<le> 64" for k n
    using assms that False by (intro le_read_cong) simp
  have "le_read buf c n = le_read buf' c n" if "n \<le> 64" for n using at[of 0 n] that by simp
  with at have "read_BlogMessageHeader buf c = read_BlogMessageHeader buf' c" "read_MessageHeader buf c = read_MessageHeader buf' c"
    by (simp_all add: read_BlogMessageHeader_def read_MessageHeader_def)
  then show ?thesis by (simp add: message_stride_def)
qed (simp add: message_stride_def)

lemma validate_messages_cong: "\<forall>i<c + r. buf i = buf' i \<Longrightarrow> validate_messages buf v2 c r n = validate_messages buf' v2 c r n"
proof (induction n arbitrary: c r)
  case (Suc n)
  have "validate_messages buf v2 (c + s) (r - s) n = validate_messages buf' v2 (c + s) (r - s) n" if "message_stride buf v2 c r = Some s" for s
    using that Suc.prems message_stride_iff[of buf v2 c r s] by (intro Suc.IH) simp
  then show ?case using message_stride_cong[of c r buf buf', OF Suc.prems] by (simp split: option.split)
qed simp

subsection \<open>Properties\<close>

text \<open>C14: the body check accepts exactly the well formed bodies and reads nothing else.  A body of \<open>bytes\<close> bytes is accepted for
  \<open>num\<close> messages if and only if it is tiled, without gap or rest, by \<open>num\<close> messages, each a multiple of 64 bytes whose header and
  payload lie inside it, with payload sizes between 1 byte and 1 MB and, in the old format, a link to the next message that is unset or equal to the
  stride.  The decision depends on no byte outside the body, whatever the size fields claim.\<close>

theorem batch_body_check_exact:
  assumes "\<forall>i<bytes. buf' i = buf i"
  shows "(ValidateBatchBody (Some buf) bytes num v2 \<longleftrightarrow> num > 0 \<and> (\<exists>strides. length strides = num \<and> tiles buf v2 0 bytes strides)) \<and>
         ValidateBatchBody (Some buf') bytes num v2 = ValidateBatchBody (Some buf) bytes num v2"
proof -
  have "validate_messages buf' v2 0 bytes num = validate_messages buf v2 0 bytes num"
    using assms by (intro validate_messages_cong) simp
  moreover have "num \<le> bytes div 64 \<and> (num > 0 \<longrightarrow> bytes \<noteq> 0)" if "length strides = num" "tiles buf v2 0 bytes strides" for strides
    using tiles_size[OF that(2)] that(1) by auto
  ultimately show ?thesis using validate_messages_iff[of buf v2 0 bytes num] by (auto simp: ValidateBatchBody_def)
qed

text \<open>Two messages of the new format, with payloads of 5 and 64 bytes.\<close>

definition sample_body :: "nat \<Rightarrow> 8 word" where
  "sample_body i = (if i = 0 then 5 else if i = 128 then 64 else 0)"

theorem batch_body_check_exact_witness:
  "ValidateBatchBody (Some sample_body) 256 2 True \<and>
   ValidateBatchBody (Some (sample_body(300 := 7))) 256 2 True"
proof -
  have "le_read buf c 4 = unat (buf c) + 256 * (unat (buf (c + 1)) + 256 * (unat (buf (c + 2)) + 256 * unat (buf (c + 3))))" for buf c
  proof -
    have four: "4 = Suc (Suc (Suc (Suc 0)))" by simp
    show ?thesis unfolding four le_read.simps by (simp add: numeral_3_eq_3)
  qed
  then have "le_read sample_body 0 4 = 5" "le_read sample_body 128 4 = 64" by (simp_all add: sample_body_def)
  then have "message_at sample_body True 0 128" "message_at sample_body True 128 128"
    by (simp_all add: message_at_def MAX_MESSAGE_PAYLOAD_SIZE_def)
  then have "tiles sample_body True 0 256 [128, 128]" by simp
  then show ?thesis
    using batch_body_check_exact[of 256 "sample_body(300 := 7)" sample_body 2 True] by (auto intro!: exI[of _ "[128, 128]"])
qed

end
