(* ===== verification/GoiExport.thy ===== *)
theory GoiExport
  imports EpochRun PbrPublish BatchWire
begin

text \<open>
  Export of committed batches to a subscriber connection (\<open>embarlet/topic_export.cc\<close>).  ORDER=5 tails the global order index up to the
  committed frontier and ships the entries of its own broker; the baselines export from the broker's ring
  of ordered slots.  A connection keeps one cursor, \<open>expected_batch_offset\<close>.  Addresses are offsets from the
  base of the shared region, which is mapped; \<open>ex_mem\<close> are its bytes.
\<close>

record Exporter =
  ex_seq_type :: SequencerType
  ex_broker :: int
  ex_num_slots :: nat
  ex_CXL_SIZE :: nat
  ex_mem :: "nat \<Rightarrow> 8 word"

text \<open>What a successful call hands to the caller.\<close>

record Exported =
  xp_addr :: nat
  xp_size :: nat
  xp_total_order :: nat
  xp_num_messages :: nat

subsection \<open>Export from the slot ring\<close>

definition ring_start_of :: "Exporter \<Rightarrow> Topic \<Rightarrow> nat" where
  "ring_start_of x t = oe_batch_headers_offset (tp_offsets t (ex_broker x))"

definition slot_addr :: "Exporter \<Rightarrow> Topic \<Rightarrow> nat \<Rightarrow> nat" where
  "slot_addr x t expected = ring_start_of x t + sizeof_BatchHeader * (expected mod ex_num_slots x)"

text \<open>The header an ordered slot points to: the cursor stays while the slot is not ordered, and passes a
  slot whose offset is not a header of the ring.\<close>

definition follow_slot :: "Exporter \<Rightarrow> Topic \<Rightarrow> nat \<Rightarrow> BatchHeader option \<times> nat" where
  "follow_slot x t expected =
     (if ex_num_slots x = 0 then (None, expected)
      else let header = slot_addr x t expected; off = bh_batch_off_to_export (tp_headers t header); actual = header + off
           in if bh_ordered (tp_headers t header) = 0 then (None, expected)
              else if off \<ge> tp_BATCHHEADERS_SIZE t \<or> off mod sizeof_BatchHeader \<noteq> 0 then (None, u64 (expected + 1))
              else if actual < ring_start_of x t \<or> actual \<ge> ring_start_of x t + tp_BATCHHEADERS_SIZE t then (None, u64 (expected + 1))
              else (Some (tp_headers t actual), expected))"

definition GetBatchToExport :: "Exporter \<Rightarrow> Topic \<Rightarrow> nat \<Rightarrow> (nat \<times> nat) option \<times> nat" where
  "GetBatchToExport x t expected =
     (case follow_slot x t expected of
        (None, expected') \<Rightarrow> (None, expected')
      | (Some header, expected') \<Rightarrow>
          if ex_seq_type x = SCALOG \<and> tp_order t = kOrderPerBroker \<and>
             u64 (bh_start_logical_offset header + bh_num_msg header) > oe_ordered (tp_offsets t (ex_broker x))
          then (None, expected')
          else (Some (bh_log_idx header, bh_total_size header), u64 (expected' + 1)))"

subsection \<open>The baselines\<close>

definition corfu_export :: "Exporter \<Rightarrow> Topic \<Rightarrow> nat \<Rightarrow> Exported option \<times> nat" where
  "corfu_export x t expected =
     (let header = tp_headers t (slot_addr x t expected)
      in if bh_pbr_absolute_index header \<noteq> expected then (None, expected)
         else if bh_ordered header = 0 \<or> bh_num_msg header = 0 \<or> bh_total_size header = 0 then (None, expected)
         else (Some \<lparr>xp_addr = bh_log_idx header, xp_size = bh_total_size header, xp_total_order = bh_total_order header,
                     xp_num_messages = bh_num_msg header\<rparr>, u64 (expected + 1)))"

function walk_messages :: "(nat \<Rightarrow> 8 word) \<Rightarrow> nat \<Rightarrow> nat \<Rightarrow> nat" where
  "walk_messages mem cursor remaining =
     (if remaining < 64 then 0
      else let stride = mh_next_msg_diff (read_MessageHeader mem cursor)
           in if stride = 0 \<or> stride > remaining then 0 else walk_messages mem (cursor + stride) (remaining - stride) + 1)"
  by pat_completeness auto
termination by (relation "measure (\<lambda>(_, _, remaining). remaining)") auto

declare walk_messages.simps [simp del]

definition lazylog_export :: "Exporter \<Rightarrow> Topic \<Rightarrow> nat \<Rightarrow> Exported option \<times> nat" where
  "lazylog_export x t expected =
     (case GetBatchToExport x t expected of
        (None, expected') \<Rightarrow> (None, expected')
      | (Some (addr, bytes), expected') \<Rightarrow>
          if bytes < 64 then (None, expected')
          else let counted = u32 (walk_messages (ex_mem x) addr bytes)
               in (Some \<lparr>xp_addr = addr, xp_size = bytes, xp_total_order = mh_total_order (read_MessageHeader (ex_mem x) addr),
                         xp_num_messages = (if counted > 0 then counted else 1)\<rparr>, expected'))"

definition scalog_export :: "Exporter \<Rightarrow> Topic \<Rightarrow> nat \<Rightarrow> Exported option \<times> nat" where
  "scalog_export x t expected =
     (case follow_slot x t expected of
        (None, expected') \<Rightarrow> (None, expected')
      | (Some actual, expected') \<Rightarrow>
          if bh_total_size actual < 64 \<or> bh_num_msg actual = 0 then (None, u64 (expected' + 1))
          else (Some \<lparr>xp_addr = bh_log_idx actual, xp_size = bh_total_size actual,
                      xp_total_order = mh_total_order (read_MessageHeader (ex_mem x) (bh_log_idx actual)),
                      xp_num_messages = bh_num_msg actual\<rparr>, u64 (expected' + 1)))"

subsection \<open>Export from the global order index\<close>

definition owned_entry :: "Exporter \<Rightarrow> GOIEntry \<Rightarrow> bool" where
  "owned_entry x e \<longleftrightarrow> int (ge_broker_id e) = ex_broker x"

definition payload_in_bounds :: "Exporter \<Rightarrow> GOIEntry \<Rightarrow> bool" where
  "payload_in_bounds x e \<longleftrightarrow> \<not> (ge_blog_offset e \<ge> ex_CXL_SIZE x \<or> ge_payload_size e > ex_CXL_SIZE x - ge_blog_offset e)"

definition exported_of :: "GOIEntry \<Rightarrow> Exported" where
  "exported_of e = \<lparr>xp_addr = ge_blog_offset e, xp_size = ge_payload_size e, xp_total_order = ge_total_order e,
     xp_num_messages = ge_message_count e\<rparr>"

function goi_scan :: "Exporter \<Rightarrow> (nat \<Rightarrow> GOIEntry) \<Rightarrow> nat \<Rightarrow> nat \<Rightarrow> Exported option \<times> nat" where
  "goi_scan x goi committed_seq cursor =
     (if cursor > committed_seq then (None, cursor)
      else let e = goi cursor
           in if ge_global_seq e \<noteq> cursor then (None, cursor)
              else if \<not> owned_entry x e then goi_scan x goi committed_seq (cursor + 1)
              else if ge_message_count e = 0 \<or> ge_payload_size e = 0 then goi_scan x goi committed_seq (cursor + 1)
              else if \<not> payload_in_bounds x e then goi_scan x goi committed_seq (cursor + 1)
              else (Some (exported_of e), cursor + 1))"
  by pat_completeness auto
termination by (relation "measure (\<lambda>(_, _, committed_seq, cursor). Suc committed_seq - cursor)") auto

declare goi_scan.simps [simp del]

definition goi_export :: "Exporter \<Rightarrow> Topic \<Rightarrow> nat \<Rightarrow> Exported option \<times> nat" where
  "goi_export x t expected =
     (if tp_committed_seq t = UINT64_MAX then (None, expected) else goi_scan x (tp_goi t) (tp_committed_seq t) expected)"

definition GetBatchToExportWithMetadata :: "Exporter \<Rightarrow> Topic \<Rightarrow> nat \<Rightarrow> Exported option \<times> nat" where
  "GetBatchToExportWithMetadata x t expected =
     (if ex_seq_type x = CORFU \<and> tp_order t = 2 \<and> ex_num_slots x > 0 then corfu_export x t expected
      else if ex_seq_type x = LAZYLOG \<and> tp_order t = kOrderTotal then lazylog_export x t expected
      else if ex_seq_type x = SCALOG \<and> (tp_order t = kOrderTotal \<or> tp_order t = kOrderPerBroker) then scalog_export x t expected
      else goi_export x t expected)"

subsection \<open>The baselines stay inside the ring\<close>

lemma slot_export_in_ring:
  assumes "GetBatchToExport x t expected = (Some (addr, bytes), expected')"
  shows "expected' = u64 (expected + 1) \<and> bh_ordered (tp_headers t (slot_addr x t expected)) \<noteq> 0 \<and>
    (\<exists>a. ring_start_of x t \<le> a \<and> a < ring_start_of x t + tp_BATCHHEADERS_SIZE t \<and>
         addr = bh_log_idx (tp_headers t a) \<and> bytes = bh_total_size (tp_headers t a) \<and>
         (ex_seq_type x = SCALOG \<and> tp_order t = kOrderPerBroker \<longrightarrow>
            u64 (bh_start_logical_offset (tp_headers t a) + bh_num_msg (tp_headers t a)) \<le> oe_ordered (tp_offsets t (ex_broker x))))"
  using assms
  by (auto simp: GetBatchToExport_def follow_slot_def Let_def not_less not_le split: if_splits
      intro!: exI[of _ "slot_addr x t expected + bh_batch_off_to_export (tp_headers t (slot_addr x t expected))"])

text \<open>On a body the ingest check accepted, whose messages are all linked, the walk counts every message.\<close>

lemma walk_messages_count:
  assumes "tiles mem False c r strides" "\<forall>i<length strides. le_read mem (c + sum_list (take i strides) + 24) 8 \<noteq> 0"
  shows "walk_messages mem c r = length strides"
  using assms
proof (induction strides arbitrary: c r)
  case (Cons s ss)
  have "le_read mem (c + 24) 8 = s" "64 \<le> s" "s \<le> r"
    using Cons.prems message_at_least[of mem False c s] by (auto simp: message_at_def)
  moreover have "walk_messages mem (c + s) (r - s) = length ss"
    using Cons.prems by (intro Cons.IH) (auto simp: All_less_Suc2 add.assoc)
  ultimately show ?case by (subst walk_messages.simps) (simp add: read_MessageHeader_def Let_def)
qed (simp add: walk_messages.simps)

subsection \<open>One call on the index\<close>

definition ships :: "Exporter \<Rightarrow> GOIEntry \<Rightarrow> bool" where
  "ships x e \<longleftrightarrow> owned_entry x e \<and> ge_message_count e \<noteq> 0 \<and> ge_payload_size e \<noteq> 0 \<and> payload_in_bounds x e"

text \<open>A scan over written entries returns the first entry it ships, or passes all of them.\<close>

lemma goi_scan_cases:
  assumes "\<forall>i\<le>c. ge_global_seq (goi i) = i" "cursor \<le> Suc c"
  obtains (found) j where "cursor \<le> j" "j \<le> c" "ships x (goi j)" "\<forall>i. cursor \<le> i \<and> i < j \<longrightarrow> \<not> ships x (goi i)"
      "goi_scan x goi c cursor = (Some (exported_of (goi j)), Suc j)"
  | (none) "\<forall>i. cursor \<le> i \<and> i \<le> c \<longrightarrow> \<not> ships x (goi i)" "goi_scan x goi c cursor = (None, Suc c)"
  using assms
proof (induction "Suc c - cursor" arbitrary: cursor thesis)
  case 0
  then have "cursor = Suc c" by simp
  then show ?case using 0(3) by (simp add: goi_scan.simps[of x goi c]) (meson not_less_eq_eq)
next
  case (Suc n)
  then have le: "cursor \<le> c" by simp
  have step: "goi_scan x goi c cursor = (if ships x (goi cursor) then (Some (exported_of (goi cursor)), Suc cursor) else goi_scan x goi c (Suc cursor))"
    using le Suc.prems(3) by (subst goi_scan.simps) (auto simp: ships_def Let_def)
  show ?case
  proof (cases "ships x (goi cursor)")
    case True
    then show ?thesis by (intro Suc.prems(1)[of cursor]) (use le step in auto)
  next
    case False
    have up: "cursor \<le> i \<longleftrightarrow> i = cursor \<or> Suc cursor \<le> i" for i by auto
    show ?thesis
    proof (rule Suc.hyps(1)[of "Suc cursor"])
      fix j assume "Suc cursor \<le> j" "j \<le> c" "ships x (goi j)" "\<forall>i. Suc cursor \<le> i \<and> i < j \<longrightarrow> \<not> ships x (goi i)"
        "goi_scan x goi c (Suc cursor) = (Some (exported_of (goi j)), Suc j)"
      then show thesis using Suc.prems(1)[of j] False step up by auto
    next
      assume "\<forall>i. Suc cursor \<le> i \<and> i \<le> c \<longrightarrow> \<not> ships x (goi i)" "goi_scan x goi c (Suc cursor) = (None, Suc c)"
      then show thesis using Suc.prems(2) False step up by auto
    qed (use Suc.hyps(2) Suc.prems(3) le in auto)
  qed
qed

text \<open>The same as one equation on what has been shipped so far.\<close>

definition shipped :: "Exporter \<Rightarrow> (nat \<Rightarrow> GOIEntry) \<Rightarrow> nat \<Rightarrow> Exported list" where
  "shipped x goi n = map (exported_of \<circ> goi) (filter (ships x \<circ> goi) [0..<n])"

lemma shipped_skip: "m \<le> n \<Longrightarrow> \<forall>i. m \<le> i \<and> i < n \<longrightarrow> \<not> ships x (goi i) \<Longrightarrow> shipped x goi n = shipped x goi m"
  by (induction n) (auto simp: shipped_def le_Suc_eq)

lemma shipped_Suc: "ships x (goi n) \<Longrightarrow> shipped x goi (Suc n) = shipped x goi n @ [exported_of (goi n)]"
  by (simp add: shipped_def)

lemma shipped_cong: "\<forall>i<n. goi' i = goi i \<Longrightarrow> shipped x goi' n = shipped x goi n"
  by (induction n) (simp_all add: shipped_def)

definition opt_list :: "'a option \<Rightarrow> 'a list" where
  "opt_list r = (case r of None \<Rightarrow> [] | Some y \<Rightarrow> [y])"

text \<open>The number of committed entries.\<close>

definition committed_count :: "Topic \<Rightarrow> nat" where
  "committed_count t = (if tp_committed_seq t = UINT64_MAX then 0 else tp_committed_seq t + 1)"

lemma goi_export_ships:
  assumes "\<forall>i<committed_count t. ge_global_seq (tp_goi t i) = i" "cursor \<le> committed_count t" "goi_export x t cursor = (r, cursor')"
  shows "cursor' \<le> committed_count t \<and> shipped x (tp_goi t) cursor' = shipped x (tp_goi t) cursor @ opt_list r \<and>
         (r = None \<longrightarrow> cursor' = committed_count t) \<and> (r \<noteq> None \<longrightarrow> cursor < cursor')"
proof (cases "tp_committed_seq t = UINT64_MAX")
  case True
  then show ?thesis using assms(2,3) by (auto simp: goi_export_def committed_count_def opt_list_def)
next
  case False
  define c where "c = tp_committed_seq t"
  have cc: "committed_count t = Suc c" using False by (simp add: committed_count_def c_def)
  have w: "\<forall>i\<le>c. ge_global_seq (tp_goi t i) = i" "cursor \<le> Suc c" using assms(1,2) cc by auto
  have e: "goi_scan x (tp_goi t) c cursor = (r, cursor')" using assms(3) False by (simp add: goi_export_def c_def)
  show ?thesis
    using w
  proof (cases rule: goi_scan_cases[where x = x])
    case (found j)
    then have "shipped x (tp_goi t) j = shipped x (tp_goi t) cursor" by (intro shipped_skip) auto
    then show ?thesis using found e cc by (auto simp: shipped_Suc opt_list_def)
  next
    case none
    then have "shipped x (tp_goi t) (Suc c) = shipped x (tp_goi t) cursor" using w(2) by (intro shipped_skip) auto
    then show ?thesis using none(2) e cc by (simp add: opt_list_def)
  qed
qed

subsection \<open>Against the committed log\<close>

text \<open>What a connection ships of a committed batch, in terms of the batch alone, and which batches those are.\<close>

definition batch_ships :: "Exporter \<Rightarrow> PendingBatch5 \<Rightarrow> bool" where
  "batch_ships x p \<longleftrightarrow> int (broker16 (pb_broker_id p)) = ex_broker x \<and> u32 (pb_num_msg p) \<noteq> 0 \<and> u32 (pb_cached_total_size p) \<noteq> 0 \<and>
     pb_cached_log_idx p < ex_CXL_SIZE x \<and> u32 (pb_cached_total_size p) \<le> ex_CXL_SIZE x - pb_cached_log_idx p"

definition batch_export :: "PendingBatch5 list \<Rightarrow> nat \<Rightarrow> Exported" where
  "batch_export log i = \<lparr>xp_addr = pb_cached_log_idx (log ! i), xp_size = u32 (pb_cached_total_size (log ! i)),
     xp_total_order = sum_list (map pb_num_msg (take i log)), xp_num_messages = u32 (pb_num_msg (log ! i))\<rparr>"

definition committed_delivery :: "Exporter \<Rightarrow> PendingBatch5 list \<Rightarrow> nat \<Rightarrow> Exported list" where
  "committed_delivery x log n = map (batch_export log) (filter (\<lambda>i. batch_ships x (log ! i)) [0..<n])"

lemma log_entries:
  assumes "index_holds 0 0 log t" "i < length log"
  shows "ge_global_seq (tp_goi t i) = i \<and> exported_of (tp_goi t i) = batch_export log i \<and> (ships x (tp_goi t i) \<longleftrightarrow> batch_ships x (log ! i))"
proof -
  obtain cum cs where "tp_goi t i = goi_entry_of i (sum_list (map pb_num_msg (take i log))) cum cs (hold_meta_of (log ! i))"
    using assms by (auto simp: index_holds_def)
  then show ?thesis
    by (auto simp: goi_entry_of_def hold_meta_of_def exported_of_def batch_export_def ships_def batch_ships_def owned_entry_def payload_in_bounds_def)
qed

lemma shipped_log:
  assumes "index_holds 0 0 log t" "n \<le> length log"
  shows "shipped x (tp_goi t) n = committed_delivery x log n"
  unfolding shipped_def committed_delivery_def
proof (rule map_cong[OF filter_cong[OF refl]])
  fix i assume "i \<in> set [0..<n]"
  then have "i < length log" using assms(2) by simp
  from log_entries[OF assms(1) this] show "(ships x \<circ> tp_goi t) i = batch_ships x (log ! i)" by simp
next
  fix i assume "i \<in> set (filter (\<lambda>i. batch_ships x (log ! i)) [0..<n])"
  then have "i < length log" using assms(2) by simp
  from log_entries[OF assms(1) this] show "(exported_of \<circ> tp_goi t) i = batch_export log i" by simp
qed

lemma committed_delivery_cong:
  assumes "take n log' = take n log" "m \<le> n" "n \<le> length log" "n \<le> length log'"
  shows "committed_delivery x log' m = committed_delivery x log m"
proof -
  have same: "log' ! i = log ! i" "take i log' = take i log" if "i < n" for i
    using that arg_cong[OF assms(1), of "\<lambda>l. l ! i"] arg_cong[OF assms(1), of "take i"] by (simp_all add: min_def)
  show ?thesis
    unfolding committed_delivery_def
  proof (rule map_cong[OF filter_cong[OF refl]])
    fix i assume "i \<in> set [0..<m]"
    then show "batch_ships x (log' ! i) = batch_ships x (log ! i)" using same(1)[of i] assms(2) by simp
  next
    fix i assume "i \<in> set (filter (\<lambda>i. batch_ships x (log ! i)) [0..<m])"
    then show "batch_export log' i = batch_export log i" using same[of i] assms(2) by (simp add: batch_export_def)
  qed
qed

subsection \<open>A connection over time\<close>

text \<open>The topic, the log its index holds, the cursor of the connection and what it has shipped.  Between two calls the log may grow,
  or lose a part that was not committed (a restarted sequencer), while the committed frontier moves forward.\<close>

record Tail =
  tl_tp :: Topic
  tl_log :: "PendingBatch5 list"
  tl_next :: nat
  tl_out :: "Exported list"

definition goi_sourced :: "Exporter \<Rightarrow> Topic \<Rightarrow> bool" where
  "goi_sourced x t \<longleftrightarrow> tp_order t = kOrderStrong \<or> ex_seq_type x = EMBARCADERO"

definition log_state :: "Exporter \<Rightarrow> PendingBatch5 list \<Rightarrow> Topic \<Rightarrow> bool" where
  "log_state x log t \<longleftrightarrow> index_holds 0 0 log t \<and> committed_count t \<le> length log \<and> goi_sourced x t"

inductive tail_reach :: "Exporter \<Rightarrow> Tail \<Rightarrow> bool" for x where
  connect: "log_state x log t \<Longrightarrow> tail_reach x \<lparr>tl_tp = t, tl_log = log, tl_next = 0, tl_out = []\<rparr>"
| sequencer: "tail_reach x s \<Longrightarrow> log_state x log t \<Longrightarrow> committed_count (tl_tp s) \<le> committed_count t \<Longrightarrow>
    take (committed_count (tl_tp s)) log = take (committed_count (tl_tp s)) (tl_log s) \<Longrightarrow> tail_reach x (s\<lparr>tl_tp := t, tl_log := log\<rparr>)"
| call: "tail_reach x s \<Longrightarrow> GetBatchToExportWithMetadata x (tl_tp s) (tl_next s) = (r, nxt) \<Longrightarrow>
    tail_reach x (s\<lparr>tl_next := nxt, tl_out := tl_out s @ opt_list r\<rparr>)"

lemma goi_sourced_export: "goi_sourced x t \<Longrightarrow> GetBatchToExportWithMetadata x t = goi_export x t"
  by (auto simp: goi_sourced_def GetBatchToExportWithMetadata_def kOrderStrong_def kOrderTotal_def kOrderPerBroker_def fun_eq_iff)

lemma export_call:
  assumes "log_state x log t" "cursor \<le> committed_count t" "GetBatchToExportWithMetadata x t cursor = (r, cursor')"
  shows "cursor' \<le> committed_count t \<and> committed_delivery x log cursor' = committed_delivery x log cursor @ opt_list r \<and>
         (r = None \<longrightarrow> cursor' = committed_count t) \<and> (r \<noteq> None \<longrightarrow> cursor < cursor')"
proof -
  note l = assms(1)[unfolded log_state_def]
  have "\<forall>i<committed_count t. ge_global_seq (tp_goi t i) = i"
    using l log_entries[of log t, THEN conjunct1] less_le_trans by blast
  moreover have "goi_export x t cursor = (r, cursor')" using assms(3) goi_sourced_export[of x t] l by simp
  ultimately show ?thesis using goi_export_ships[of t cursor x r cursor'] assms(2) l shipped_log[of log t _ x] by auto
qed

lemma tail_inv:
  "tail_reach x s \<Longrightarrow> log_state x (tl_log s) (tl_tp s) \<and> tl_next s \<le> committed_count (tl_tp s) \<and>
     tl_out s = committed_delivery x (tl_log s) (tl_next s)"
proof (induction rule: tail_reach.induct)
  case (connect log t)
  then show ?case by (simp add: committed_delivery_def)
next
  case (sequencer s log t)
  then have "committed_delivery x log (tl_next s) = committed_delivery x (tl_log s) (tl_next s)"
    by (intro committed_delivery_cong[of "committed_count (tl_tp s)"]) (auto simp: log_state_def)
  then show ?case using sequencer by simp
next
  case (call s r nxt)
  then show ?case using export_call[of x "tl_log s" "tl_tp s" "tl_next s" r nxt] by simp
qed

subsection \<open>Properties\<close>

text \<open>C2: a subscriber connection delivers exactly the committed log.  Let the sequencer extend its log and move the
  committed frontier, or restart from the committed prefix, in any interleaving with calls of the export function of an
  ORDER=5 connection.  What the connection has shipped is at every moment the list of the batches of its broker in the
  committed log up to its cursor, in log order, each once, with its payload, its message count and its place in the message order,
  leaving out only empty batches and payloads outside the region; it never passes the committed frontier.  A call that
  returns a batch moves the cursor on, and one that returns none has shipped everything committed.\<close>

theorem subscriber_delivers_committed_log:
  assumes "tail_reach x s"
  shows "tl_out s = committed_delivery x (tl_log s) (tl_next s) \<and> tl_next s \<le> committed_count (tl_tp s) \<and>
    (case GetBatchToExportWithMetadata x (tl_tp s) (tl_next s) of
       (Some b, nxt) \<Rightarrow> tl_next s < nxt \<and> nxt \<le> committed_count (tl_tp s) \<and> tl_out s @ [b] = committed_delivery x (tl_log s) nxt
     | (None, nxt) \<Rightarrow> nxt = committed_count (tl_tp s) \<and> tl_out s = committed_delivery x (tl_log s) nxt)"
proof -
  obtain r nxt where e: "GetBatchToExportWithMetadata x (tl_tp s) (tl_next s) = (r, nxt)" by fastforce
  show ?thesis using tail_inv[OF assms] export_call[OF _ _ e] e by (auto simp: opt_list_def split: option.splits)
qed

text \<open>Two committed batches of brokers 0 and 1, tailed by broker 1.\<close>

definition sample_log :: "PendingBatch5 list" where
  "sample_log = [(header_batch 0)\<lparr>pb_cached_total_size := 640\<rparr>, (header_batch 1)\<lparr>pb_broker_id := 1, pb_cached_total_size := 640\<rparr>]"

definition sample_index :: Topic where
  "sample_index = sample_topic\<lparr>tp_committed_seq := 1, tp_global_batch_seq := 2, tp_global_seq := 20,
     tp_goi := (\<lambda>i. goi_entry_of i (sum_list (map pb_num_msg (take i sample_log))) 0 0 (hold_meta_of (sample_log ! i)))\<rparr>"

definition sample_exporter :: Exporter where
  "sample_exporter = \<lparr>ex_seq_type = EMBARCADERO, ex_broker = 1, ex_num_slots = 10, ex_CXL_SIZE = 2 ^ 30, ex_mem = (\<lambda>_. 0)\<rparr>"

lemma sample_log_facts: "length sample_log = 2" "map pb_num_msg sample_log = [10, 10]"
  by (simp_all add: sample_log_def header_batch_def sample_batch_def)

lemma sample_log_state: "log_state sample_exporter sample_log sample_index"
  using sample_log_facts by (auto simp: log_state_def index_holds_def sample_index_def sample_topic_def UINT64_MAX_def committed_count_def
      goi_sourced_def sample_exporter_def)

theorem subscriber_delivers_committed_log_witness:
  "\<exists>s. tail_reach sample_exporter s \<and> tl_next s = 2 \<and>
     tl_out s = [\<lparr>xp_addr = 4096, xp_size = 640, xp_total_order = 10, xp_num_messages = 10\<rparr>]"
proof -
  let ?x = sample_exporter
  let ?s = "\<lparr>tl_tp = sample_index, tl_log = sample_log, tl_next = 0, tl_out = []\<rparr>"
  have r: "tail_reach ?x ?s" by (rule tail_reach.connect[OF sample_log_state])
  have c: "committed_count sample_index = 2" by (simp add: committed_count_def sample_index_def UINT64_MAX_def)
  have bs: "batch_ships ?x (sample_log ! 1)" "\<not> batch_ships ?x (sample_log ! 0)"
    by (simp_all add: batch_ships_def sample_log_def sample_exporter_def header_batch_def sample_batch_def broker16_def UINT32_MAX_def PendingBatch5_init_def)
  have u: "[0..<2] = [0, 1]" by (simp add: upt_rec)
  have d: "committed_delivery ?x sample_log 2 = [batch_export sample_log 1]" "committed_delivery ?x sample_log 0 = []"
    "committed_delivery ?x sample_log 1 = []" using bs by (simp_all add: committed_delivery_def u)
  obtain b nxt where e: "GetBatchToExportWithMetadata ?x sample_index 0 = (b, nxt)" by fastforce
  have "nxt = 2 \<and> opt_list b = [batch_export sample_log 1]"
    using subscriber_delivers_committed_log[OF r] e c d less_2_cases_iff[of nxt] by (auto simp: opt_list_def le_less split: option.splits)
  moreover have "tail_reach ?x (?s\<lparr>tl_next := nxt, tl_out := [] @ opt_list b\<rparr>)" using tail_reach.call[OF r, of b nxt] e by simp
  moreover have "batch_export sample_log 1 = \<lparr>xp_addr = 4096, xp_size = 640, xp_total_order = 10, xp_num_messages = 10\<rparr>"
    by (simp add: batch_export_def sample_log_def header_batch_def sample_batch_def UINT32_MAX_def)
  ultimately show ?thesis by (intro exI[of _ "?s\<lparr>tl_next := nxt, tl_out := [] @ opt_list b\<rparr>"]) simp
qed

end
