(* ===== verification/Recovery.thy ===== *)
theory Recovery
  imports GoiExport AckFrontiers
begin

text \<open>
  Restart of the sequencer: reconstruction of its counters and of every session's frontier from the global order
  index and the session table (\<open>RecoverSequencer5State\<close>, \<open>embarlet/topic_order5_recovery.cc\<close>), the start-up of
  \<open>Sequencer5\<close> up to its threads (\<open>embarlet/topic_order5_epoch.cc\<close>), the export descriptors it rebuilds
  (\<open>embarlet/topic_export.cc\<close>), and the snapshot a reconnecting client is answered from (\<open>network_manager/session_snapshot.h\<close>).
  The shared region is mapped; a failed \<open>CHECK\<close> is \<open>None\<close>.
\<close>

subsection \<open>Reconstruction\<close>

record RecoverState =
  rv_saw_valid_goi :: bool
  rv_next_goi_index :: nat
  rv_global_seq :: nat
  rv_next_expected :: "(64 word, nat) omap"
  rv_msg_counts :: "(nat, nat) omap"

definition RecoverState_init :: RecoverState where
  "RecoverState_init = \<lparr>rv_saw_valid_goi = False, rv_next_goi_index = 0, rv_global_seq = 0, rv_next_expected = [], rv_msg_counts = []\<rparr>"

definition raise_next_expected :: "64 word \<Rightarrow> nat \<Rightarrow> (64 word, nat) omap \<Rightarrow> (64 word, nat) omap" where
  "raise_next_expected key n m = om_put key (RecoveredNextExpected (om_get 0 m key) n) m"

definition recover_goi_entry :: "(nat \<Rightarrow> GOIEntry) \<Rightarrow> nat \<Rightarrow> RecoverState \<Rightarrow> RecoverState" where
  "recover_goi_entry goi i r =
     (let e = goi i
      in if ge_global_seq e \<noteq> i then r
         else let batch_end_order = u64 (ge_total_order e + ge_message_count e);
                  r1 = r\<lparr>rv_saw_valid_goi := True, rv_next_goi_index := i + 1,
                         rv_global_seq := (if batch_end_order > rv_global_seq r then batch_end_order else rv_global_seq r)\<rparr>
              in if ge_session_epoch e = 0 then r1
                 else r1\<lparr>rv_next_expected := raise_next_expected (MakeSessionKey (ge_client_id e) (ge_session_epoch e))
                            (u64 (ge_client_seq e + 1)) (rv_next_expected r1),
                         rv_msg_counts := om_add (u32 (ge_client_id e)) (ge_message_count e) (rv_msg_counts r1)\<rparr>)"

definition recover_session_slot :: "SessionTable \<Rightarrow> nat \<Rightarrow> (64 word, nat) omap \<Rightarrow> (64 word, nat) omap" where
  "recover_session_slot table i m =
     (let entry = table i
      in if se_session_key entry = 0 then m
         else if \<not> entry_active entry then m
         else raise_next_expected (se_session_key entry) (se_expected_seq entry) m)"

definition recover_goi :: "Topic \<Rightarrow> RecoverState option" where
  "recover_goi t =
     (if tp_committed_seq t = UINT64_MAX then Some RecoverState_init
      else if \<not> tp_committed_seq t < kGOICapacity then None
      else let r = fold (recover_goi_entry (tp_goi t)) [0..<tp_committed_seq t + 1] RecoverState_init
           in Some (if \<not> rv_saw_valid_goi r then r\<lparr>rv_next_goi_index := 0\<rparr> else r))"

definition RecoverSequencer5State :: "Topic \<Rightarrow> (nat \<times> Topic) option" where
  "RecoverSequencer5State t0 =
     (case SteadyNowNs t0 of (start_ns, t) \<Rightarrow>
        case recover_goi t of
          None \<Rightarrow> None
        | Some r \<Rightarrow>
            let expected = (case tp_session_table t of
                              None \<Rightarrow> rv_next_expected r
                            | Some table \<Rightarrow> fold (recover_session_slot table) [0..<kMaxSessions] (rv_next_expected r));
                t1 = t\<lparr>tp_recovered_next_expected := expected, tp_recovered_msg_counts := rv_msg_counts r,
                       tp_recovered_global_seq := rv_global_seq r, tp_recovery_complete := True\<rparr>
            in Some (rv_next_goi_index r, snd (SteadyNowNs t1)))"

subsection \<open>Export descriptors\<close>

definition InitExportCursorForBroker :: "int \<Rightarrow> Topic \<Rightarrow> Topic" where
  "InitExportCursorForBroker b t =
     (if \<not> valid_broker b then t
      else t\<lparr>tp_export_cursor := (tp_export_cursor t)(b := Some (oe_batch_headers_offset (tp_offsets t b))),
             tp_export_sequence := (tp_export_sequence t)(b := 0)\<rparr>)"

definition rebuilt_descriptor :: "nat \<Rightarrow> GOIEntry \<Rightarrow> BatchHeader \<Rightarrow> BatchHeader" where
  "rebuilt_descriptor export_seq e h =
     h\<lparr>bh_batch_seq := export_seq, bh_client_id := u32 (ge_client_id e), bh_broker_id := ge_broker_id e,
       bh_epoch_created := ge_epoch_sequenced e, bh_session_epoch := ge_session_epoch e mod 65536,
       bh_session_epoch32 := ge_session_epoch e, bh_batch_id := ge_batch_id e, bh_pbr_absolute_index := ge_pbr_index e,
       bh_start_logical_offset :=
         (if ge_cumulative_message_count e \<ge> ge_message_count e then ge_cumulative_message_count e - ge_message_count e else 0),
       bh_batch_off_to_export := 0, bh_log_idx := ge_blog_offset e, bh_total_size := ge_payload_size e,
       bh_num_msg := ge_message_count e, bh_total_order := ge_total_order e, bh_ordered := 1, bh_batch_complete := 0,
       bh_publish_commit := kBatchHeaderPublishUncommitted, bh_flags := kBatchHeaderFlagRetired\<rparr>"

definition rebuild_entry :: "nat \<Rightarrow> Topic \<Rightarrow> Topic" where
  "rebuild_entry i t =
     (let e = tp_goi t i; b = int (ge_broker_id e); ring_start = oe_batch_headers_offset (tp_offsets t b)
      in if ge_global_seq e \<noteq> i then t
         else if \<not> valid_broker b \<or> ge_message_count e = 0 \<or> ge_payload_size e = 0 then t
         else if ring_start = 0 then t
         else let ring_end = ring_start + tp_BATCHHEADERS_SIZE t;
                  cur = (case tp_export_cursor t b of
                           Some c \<Rightarrow> if c < ring_start \<or> c \<ge> ring_end then ring_start else c
                         | None \<Rightarrow> ring_start);
                  export_seq = tp_export_sequence t b;
                  nxt = cur + sizeof_BatchHeader
              in t\<lparr>tp_export_sequence := (tp_export_sequence t)(b := u64 (export_seq + 1)),
                   tp_headers := (tp_headers t)(cur := rebuilt_descriptor export_seq e (tp_headers t cur)),
                   tp_export_cursor := (tp_export_cursor t)(b := Some (if nxt \<ge> ring_end then ring_start else nxt))\<rparr>)"

definition RebuildOrder5ExportDescriptorsFromGOI :: "nat \<Rightarrow> Topic \<Rightarrow> Topic" where
  "RebuildOrder5ExportDescriptorsFromGOI recovered_next_goi t =
     (if recovered_next_goi = 0 then t else fold rebuild_entry [0..<recovered_next_goi] t)"

subsection \<open>Start of the sequencer\<close>

definition restore_ordered_count :: "nat \<times> nat \<Rightarrow> (nat, nat) omap \<Rightarrow> (nat, nat) omap" where
  "restore_ordered_count cn m = om_put (fst cn) (max (om_get 0 m (fst cn)) (snd cn)) m"

text \<open>\<open>Sequencer5\<close> before it starts its threads; \<open>registered\<close> are the brokers known to the cluster.\<close>

definition Sequencer5_start :: "int list \<Rightarrow> Topic \<Rightarrow> Topic option" where
  "Sequencer5_start registered t0 =
     (case RecoverSequencer5State (t0\<lparr>tp_completed_ranges := [], tp_recovery_complete := False\<rparr>) of
        None \<Rightarrow> None
      | Some (recovered_next_goi, t) \<Rightarrow>
          let recovered_committed = (if recovered_next_goi = 0 then UINT64_MAX else recovered_next_goi - 1);
              new_epoch = u64 (tp_control_epoch t + 1);
              t1 = t\<lparr>tp_global_batch_seq := recovered_next_goi, tp_committed_seq := recovered_committed,
                     tp_per_client_ordered := fold restore_ordered_count (tp_recovered_msg_counts t) (tp_per_client_ordered t),
                     tp_control_epoch := new_epoch, tp_cached_epoch := new_epoch\<rparr>
          in case SteadyNowNs t1 of (now, t2) \<Rightarrow>
               let t3 = RestampRecoveredOrderedEpochs new_epoch (t2\<lparr>tp_last_control_epoch_refresh_ns := now\<rparr>);
                   t4 = t3\<lparr>tp_global_seq := tp_recovered_global_seq t3, tp_current_epoch_for_hold := 0,
                           tp_export_cursor := (\<lambda>_. None), tp_export_sequence := (\<lambda>_. 0)\<rparr>;
                   t5 = fold InitExportCursorForBroker registered t4
               in Some (RebuildOrder5ExportDescriptorsFromGOI recovered_next_goi t5))"

subsection \<open>Answer to a reconnecting client\<close>

record DurableSessionSnapshot =
  ds_active :: bool
  ds_fenced :: bool
  ds_session_epoch :: nat
  ds_expected_seq :: nat
  ds_committed_hwm :: nat
  ds_highest_sequenced :: nat
  ds_goi_committed_hwm :: nat
  ds_goi_committed_hwm_found :: bool
  ds_reconnect_committed_hwm :: nat

definition DurableSessionSnapshot_init :: DurableSessionSnapshot where
  "DurableSessionSnapshot_init = \<lparr>ds_active = False, ds_fenced = False, ds_session_epoch = 0, ds_expected_seq = 0,
     ds_committed_hwm = 0, ds_highest_sequenced = 0, ds_goi_committed_hwm = 0, ds_goi_committed_hwm_found = False,
     ds_reconnect_committed_hwm = 0\<rparr>"

definition ReadSessionEntrySnapshot :: "SessionTable option \<Rightarrow> nat \<Rightarrow> nat \<Rightarrow> DurableSessionSnapshot \<Rightarrow> bool \<times> DurableSessionSnapshot" where
  "ReadSessionEntrySnapshot table client_id epoch out =
     (case table of
        None \<Rightarrow> (False, out)
      | Some tbl \<Rightarrow>
          if epoch = 0 then (False, out)
          else let key = SessionKeyFor client_id epoch
               in case find_probe tbl kMaxSessions key (session_start key) 0 kMaxSessions of
                    None \<Rightarrow> (False, out)
                  | Some i \<Rightarrow>
                      let entry = tbl i
                      in (entry_active entry,
                          out\<lparr>ds_active := entry_active entry, ds_fenced := entry_fenced entry,
                              ds_session_epoch := unat (drop_bit 32 (se_state_word entry)), ds_expected_seq := se_expected_seq entry,
                              ds_committed_hwm := se_committed_hwm entry, ds_highest_sequenced := se_highest_sequenced entry,
                              ds_reconnect_committed_hwm := se_committed_hwm entry\<rparr>))"

primrec scan_goi_back :: "(nat \<Rightarrow> GOIEntry) \<Rightarrow> nat \<Rightarrow> nat \<Rightarrow> nat \<Rightarrow> nat option" where
  "scan_goi_back goi client_id epoch 0 = None"
| "scan_goi_back goi client_id epoch (Suc i) =
     (if ge_global_seq (goi i) \<noteq> i then scan_goi_back goi client_id epoch i
      else if ge_client_id (goi i) = client_id \<and> ge_session_epoch (goi i) = epoch then Some (ge_client_seq (goi i))
      else scan_goi_back goi client_id epoch i)"

definition ScanGOICommittedHwm :: "Topic \<Rightarrow> nat \<Rightarrow> nat \<Rightarrow> (bool \<times> nat) option" where
  "ScanGOICommittedHwm t client_id epoch =
     (if epoch = 0 then Some (False, 0)
      else if tp_committed_seq t = UINT64_MAX then Some (False, 0)
      else if \<not> tp_committed_seq t < kGOICapacity then None
      else (case scan_goi_back (tp_goi t) client_id epoch (tp_committed_seq t + 1) of
              None \<Rightarrow> Some (False, 0)
            | Some hwm \<Rightarrow> Some (True, hwm)))"

definition ReadSessionSnapshot :: "Topic \<Rightarrow> nat \<Rightarrow> nat \<Rightarrow> DurableSessionSnapshot option" where
  "ReadSessionSnapshot t client_id epoch =
     (case ScanGOICommittedHwm t client_id epoch of
        None \<Rightarrow> None
      | Some (found, hwm) \<Rightarrow>
          let s = snd (ReadSessionEntrySnapshot (tp_session_table t) client_id epoch DurableSessionSnapshot_init)
          in Some (s\<lparr>ds_goi_committed_hwm_found := found, ds_goi_committed_hwm := hwm,
                     ds_reconnect_committed_hwm := ReconnectAnswerHwm (ds_committed_hwm s) found hwm\<rparr>))"

subsection \<open>Frontiers raised by a scan\<close>

lemma raise_get: "om_get 0 (raise_next_expected key n m) k = (if k = key then max (om_get 0 m key) n else om_get 0 m k)"
  by (simp add: raise_next_expected_def RecoveredNextExpected_def)

lemma raise_fold:
  "om_get 0 (fold (\<lambda>x m. if P x then raise_next_expected (key x) (val x) m else m) xs m) k =
     fold max (map val (filter (\<lambda>x. P x \<and> key x = k) xs)) (om_get 0 m k)"
  by (induction xs arbitrary: m) (auto simp: raise_get max.commute)

text \<open>The frontier of a session: above every sequence committed for it, and what the session table expects.\<close>

definition session_entry :: "GOIEntry \<Rightarrow> 64 word \<Rightarrow> bool" where
  "session_entry e k \<longleftrightarrow> ge_session_epoch e \<noteq> 0 \<and> MakeSessionKey (ge_client_id e) (ge_session_epoch e) = k"

definition table_frontiers :: "SessionTable option \<Rightarrow> 64 word \<Rightarrow> nat list" where
  "table_frontiers tbl k = (case tbl of None \<Rightarrow> []
     | Some table \<Rightarrow> map (\<lambda>i. se_expected_seq (table i))
         (filter (\<lambda>i. se_session_key (table i) \<noteq> 0 \<and> entry_active (table i) \<and> se_session_key (table i) = k) [0..<kMaxSessions]))"

definition recovered_frontier :: "Topic \<Rightarrow> 64 word \<Rightarrow> nat" where
  "recovered_frontier t k =
     Max (set (0 # map (\<lambda>i. u64 (ge_client_seq (tp_goi t i) + 1)) (filter (\<lambda>i. session_entry (tp_goi t i) k) [0..<committed_count t])
            @ table_frontiers (tp_session_table t) k))"

lemma recover_slots_get:
  "om_get 0 (case tbl of None \<Rightarrow> m | Some table \<Rightarrow> fold (recover_session_slot table) [0..<kMaxSessions] m) k =
     fold max (table_frontiers tbl k) (om_get 0 m k)"
proof -
  have "recover_session_slot table = (\<lambda>i m. if se_session_key (table i) \<noteq> 0 \<and> entry_active (table i)
      then raise_next_expected (se_session_key (table i)) (se_expected_seq (table i)) m else m)" for table
    by (simp add: recover_session_slot_def Let_def fun_eq_iff)
  then show ?thesis by (simp add: table_frontiers_def raise_fold conj_assoc split: option.split)
qed

subsection \<open>The scan of the index\<close>

text \<open>Messages of client \<open>c\<close> in sessions.\<close>

definition ordered_of :: "PendingBatch5 list \<Rightarrow> nat \<Rightarrow> nat" where
  "ordered_of log c = sum_list (map pb_num_msg (filter (\<lambda>p. pb_session_epoch p \<noteq> 0 \<and> u32 (pb_client_id p) = c) log))"

lemma ordered_of_le: "ordered_of log c \<le> sum_list (map pb_num_msg log)"
  by (induction log) (auto simp: ordered_of_def)

lemma scan_goi_next_expected:
  "\<forall>i\<in>set is. ge_global_seq (goi i) = i \<Longrightarrow>
   rv_next_expected (fold (recover_goi_entry goi) is r) =
     fold (\<lambda>i m. if ge_session_epoch (goi i) \<noteq> 0
                 then raise_next_expected (MakeSessionKey (ge_client_id (goi i)) (ge_session_epoch (goi i))) (u64 (ge_client_seq (goi i) + 1)) m
                 else m) is (rv_next_expected r)"
  by (induction "is" arbitrary: r) (simp_all add: recover_goi_entry_def Let_def)

lemma scan_goi_log:
  assumes "index_holds 0 0 log t" "\<forall>p\<in>set log. pb_num_msg p < 2 ^ 32" "n \<le> length log"
  defines "r \<equiv> fold (recover_goi_entry (tp_goi t)) [0..<n] RecoverState_init"
  shows "rv_next_goi_index r = n \<and> (rv_saw_valid_goi r \<longleftrightarrow> n > 0) \<and> rv_global_seq r = sum_list (map pb_num_msg (take n log)) \<and>
    om_ok (rv_msg_counts r) \<and> (\<forall>c. om_get 0 (rv_msg_counts r) c = ordered_of (take n log) c)"
  using assms(3) unfolding r_def
proof (induction n)
  case 0
  show ?case by (simp add: RecoverState_init_def ordered_of_def om_get_def)
next
  case (Suc n)
  define r where "r = fold (recover_goi_entry (tp_goi t)) [0..<n] RecoverState_init"
  have IH: "rv_next_goi_index r = n" "rv_global_seq r = sum_list (map pb_num_msg (take n log))" "om_ok (rv_msg_counts r)"
    "om_get 0 (rv_msg_counts r) c = ordered_of (take n log) c" for c
    using Suc by (simp_all add: r_def)
  define p where "p = log ! n"
  obtain cum cs where e: "tp_goi t n = goi_entry_of n (sum_list (map pb_num_msg (take n log))) cum cs (hold_meta_of p)"
    using assms(1) Suc_le_lessD[OF Suc.prems] by (auto simp: index_holds_def p_def)
  have w: "u32 (pb_num_msg p) = pb_num_msg p" using assms(2) Suc.prems by (simp add: p_def u32_def)
  have tk: "take (Suc n) log = take n log @ [p]" using Suc.prems by (simp add: take_Suc_conv_app_nth p_def)
  have le: "sum_list (map pb_num_msg (take (Suc n) log)) \<le> UINT64_MAX"
  proof -
    have "sum_list (map pb_num_msg log) = sum_list (map pb_num_msg (take (Suc n) log)) + sum_list (map pb_num_msg (drop (Suc n) log))"
      by (metis append_take_drop_id map_append sum_list_append)
    then show ?thesis using assms(1) by (simp add: index_holds_def)
  qed
  then have "ordered_of (take n log) c + pb_num_msg p \<le> UINT64_MAX" for c using ordered_of_le[of "take n log" c] tk by simp
  then have add: "u64 (ordered_of (take n log) c + pb_num_msg p) = ordered_of (take n log) c + pb_num_msg p" for c by simp
  have oo: "ordered_of (take (Suc n) log) c =
      ordered_of (take n log) c + (if pb_session_epoch p \<noteq> 0 \<and> u32 (pb_client_id p) = c then pb_num_msg p else 0)" for c
    by (simp add: ordered_of_def tk)
  define q where "q = recover_goi_entry (tp_goi t) n r"
  have "rv_next_goi_index q = Suc n" "rv_saw_valid_goi q" "rv_global_seq q = sum_list (map pb_num_msg (take (Suc n) log))"
    using le IH(2) w by (simp_all add: q_def tk recover_goi_entry_def e goi_entry_of_def hold_meta_of_def Let_def)
  moreover have "om_ok (rv_msg_counts q)" "om_get 0 (rv_msg_counts q) c = ordered_of (take (Suc n) log) c" for c
    using IH(3,4) w add by (simp_all add: q_def oo recover_goi_entry_def e goi_entry_of_def hold_meta_of_def Let_def om_add_def)
  moreover have "fold (recover_goi_entry (tp_goi t)) [0..<Suc n] RecoverState_init = q" by (simp add: r_def q_def)
  ultimately show ?case by (simp only:) simp
qed

lemma restore_counts:
  assumes "om_ok cs"
  shows "om_get 0 (fold restore_ordered_count cs m) c = max (om_get 0 m c) (om_get 0 cs c)"
  using assms
proof (induction cs arbitrary: m)
  case (Cons kv cs)
  obtain k v where kv: "kv = (k, v)" by fastforce
  have "om_get 0 cs k = 0" using Cons.prems kv by (auto simp: om_get_def om_find_None_iff[THEN iffD2])
  then show ?case using Cons by (auto simp: kv restore_ordered_count_def om_get_Cons)
qed (simp add: om_get_def)

subsection \<open>Reconstruction and start\<close>

lemma recover_goi_log:
  assumes "index_holds 0 0 log t" "\<forall>p\<in>set log. pb_num_msg p < 2 ^ 32" "committed_count t \<le> length log" "committed_count t \<le> kGOICapacity"
  obtains r where "recover_goi t = Some r" "rv_next_goi_index r = committed_count t"
    "rv_global_seq r = sum_list (map pb_num_msg (take (committed_count t) log))" "om_ok (rv_msg_counts r)"
    "\<forall>c. om_get 0 (rv_msg_counts r) c = ordered_of (take (committed_count t) log) c"
    "\<forall>k. om_get 0 (rv_next_expected r) k =
       fold max (map (\<lambda>i. u64 (ge_client_seq (tp_goi t i) + 1)) (filter (\<lambda>i. session_entry (tp_goi t i) k) [0..<committed_count t])) 0"
proof -
  define n where "n = committed_count t"
  define r where "r = fold (recover_goi_entry (tp_goi t)) [0..<n] RecoverState_init"
  note f = scan_goi_log[OF assms(1,2), of n, folded r_def]
  have "\<forall>i\<in>set [0..<n]. ge_global_seq (tp_goi t i) = i"
    using log_entries[OF assms(1), THEN conjunct1] assms(3) by (auto simp: n_def)
  note x = scan_goi_next_expected[OF this, of RecoverState_init, folded r_def]
  have "om_get 0 (rv_next_expected r) k =
      fold max (map (\<lambda>i. u64 (ge_client_seq (tp_goi t i) + 1)) (filter (\<lambda>i. session_entry (tp_goi t i) k) [0..<n])) 0" for k
    unfolding x raise_fold by (simp add: session_entry_def RecoverState_init_def om_get_def)
  moreover have "recover_goi t = Some r"
  proof (cases "tp_committed_seq t = UINT64_MAX")
    case True
    then show ?thesis by (simp add: recover_goi_def r_def n_def committed_count_def)
  next
    case False
    then have n: "n = tp_committed_seq t + 1" by (simp add: n_def committed_count_def)
    have lt: "tp_committed_seq t < kGOICapacity" and saw: "rv_saw_valid_goi r" using f assms(3,4) n by (simp_all add: n_def[symmetric])
    show ?thesis using False lt saw unfolding recover_goi_def r_def n Let_def by simp
  qed
  ultimately show thesis using that[of r] f assms(3) by (simp add: n_def)
qed

lemma fold_max_frontier: "fold max ys (fold max xs 0) = Max (set (0 # xs @ ys))" for xs ys :: "nat list"
  by (simp only: Max.set_eq_fold fold_append comp_apply)

text \<open>Export descriptors and cursors are all the last steps change.\<close>

definition sans_export :: "Topic \<Rightarrow> Topic" where
  "sans_export t = t\<lparr>tp_export_sequence := (\<lambda>_. 0), tp_headers := (\<lambda>_. BatchHeader_zero), tp_export_cursor := (\<lambda>_. None)\<rparr>"

lemma sans_export_rebuild: "sans_export (RebuildOrder5ExportDescriptorsFromGOI n t) = sans_export t"
proof -
  have one: "sans_export (rebuild_entry i t) = sans_export t" for i t
    by (simp add: rebuild_entry_def sans_export_def Let_def)
  have "sans_export (fold rebuild_entry xs t) = sans_export t" for xs t
    by (induction xs arbitrary: t) (simp_all add: one)
  then show ?thesis by (simp add: RebuildOrder5ExportDescriptorsFromGOI_def)
qed

lemma sans_export_init: "sans_export (fold InitExportCursorForBroker bs t) = sans_export t"
proof (induction bs arbitrary: t)
  case (Cons b bs)
  then show ?case by (simp add: InitExportCursorForBroker_def sans_export_def)
qed simp

lemma sans_export_fields:
  assumes "sans_export t' = sans_export t"
  shows "tp_goi t' = tp_goi t" "tp_global_seq t' = tp_global_seq t" "tp_global_batch_seq t' = tp_global_batch_seq t"
    "tp_committed_seq t' = tp_committed_seq t" "tp_recovered_next_expected t' = tp_recovered_next_expected t"
    "tp_per_client_ordered t' = tp_per_client_ordered t" "tp_control_epoch t' = tp_control_epoch t"
    "tp_recovery_complete t' = tp_recovery_complete t" "tp_completed_ranges t' = tp_completed_ranges t"
  using assms by (cases t, cases t', simp add: sans_export_def)+

lemma recover_goi_frame: "tp_goi t' = tp_goi t \<Longrightarrow> tp_committed_seq t' = tp_committed_seq t \<Longrightarrow> recover_goi t' = recover_goi t"
  unfolding recover_goi_def by (simp only:)

lemma Sequencer5_start_fields:
  assumes "recover_goi t = Some r"
  obtains t' where "Sequencer5_start registered t = Some t'" "tp_goi t' = tp_goi t" "tp_global_seq t' = rv_global_seq r"
    "tp_global_batch_seq t' = rv_next_goi_index r"
    "tp_committed_seq t' = (if rv_next_goi_index r = 0 then UINT64_MAX else rv_next_goi_index r - 1)"
    "tp_recovered_next_expected t' = (case tp_session_table t of None \<Rightarrow> rv_next_expected r
        | Some table \<Rightarrow> fold (recover_session_slot table) [0..<kMaxSessions] (rv_next_expected r))"
    "tp_per_client_ordered t' = fold restore_ordered_count (rv_msg_counts r) (tp_per_client_ordered t)"
    "tp_control_epoch t' = u64 (tp_control_epoch t + 1)" "tp_recovery_complete t'" "tp_completed_ranges t' = []"
proof -
  define t0 where "t0 = t\<lparr>tp_completed_ranges := [], tp_recovery_complete := False\<rparr>"
  define t1 where "t1 = snd (SteadyNowNs t0)"
  have "recover_goi t1 = recover_goi t" by (rule recover_goi_frame) (simp_all add: t1_def t0_def SteadyNowNs_def)
  then obtain t2 where t2: "RecoverSequencer5State t0 = Some (rv_next_goi_index r, t2)" "tp_goi t2 = tp_goi t"
      "tp_recovered_global_seq t2 = rv_global_seq r" "tp_recovered_msg_counts t2 = rv_msg_counts r"
      "tp_recovered_next_expected t2 = (case tp_session_table t of None \<Rightarrow> rv_next_expected r
        | Some table \<Rightarrow> fold (recover_session_slot table) [0..<kMaxSessions] (rv_next_expected r))"
      "tp_per_client_ordered t2 = tp_per_client_ordered t" "tp_control_epoch t2 = tp_control_epoch t"
      "tp_recovery_complete t2" "tp_completed_ranges t2 = []"
    using assms unfolding RecoverSequencer5State_def t1_def
    by (simp add: SteadyNowNs_def Let_def) (simp add: t0_def)
  define epoch where "epoch = u64 (tp_control_epoch t2 + 1)"
  define t3 where "t3 = t2\<lparr>tp_global_batch_seq := rv_next_goi_index r,
    tp_committed_seq := (if rv_next_goi_index r = 0 then UINT64_MAX else rv_next_goi_index r - 1),
    tp_per_client_ordered := fold restore_ordered_count (tp_recovered_msg_counts t2) (tp_per_client_ordered t2),
    tp_control_epoch := epoch, tp_cached_epoch := epoch\<rparr>"
  define t4 where "t4 = RestampRecoveredOrderedEpochs epoch ((snd (SteadyNowNs t3))\<lparr>tp_last_control_epoch_refresh_ns := fst (SteadyNowNs t3)\<rparr>)"
  define u where "u = t4\<lparr>tp_global_seq := tp_recovered_global_seq t4, tp_current_epoch_for_hold := 0,
    tp_export_cursor := (\<lambda>_. None), tp_export_sequence := (\<lambda>_. 0)\<rparr>"
  define t' where "t' = RebuildOrder5ExportDescriptorsFromGOI (rv_next_goi_index r) (fold InitExportCursorForBroker registered u)"
  have "Sequencer5_start registered t = Some t'"
    unfolding Sequencer5_start_def t0_def[symmetric] t2(1) option.case prod.case Let_def case_prod_beta
    by (simp only: fst_conv snd_conv epoch_def[symmetric] t3_def[symmetric] t4_def[symmetric] u_def[symmetric] t'_def)
  moreover have "tp_goi u = tp_goi t2" "tp_global_seq u = tp_recovered_global_seq t2" "tp_global_batch_seq u = rv_next_goi_index r"
    "tp_committed_seq u = (if rv_next_goi_index r = 0 then UINT64_MAX else rv_next_goi_index r - 1)"
    "tp_recovered_next_expected u = tp_recovered_next_expected t2" "tp_control_epoch u = epoch"
    "tp_per_client_ordered u = fold restore_ordered_count (tp_recovered_msg_counts t2) (tp_per_client_ordered t2)"
    "tp_recovery_complete u = tp_recovery_complete t2" "tp_completed_ranges u = tp_completed_ranges t2"
    by (simp_all add: u_def t4_def t3_def RestampRecoveredOrderedEpochs_def SteadyNowNs_def)
  moreover have "sans_export t' = sans_export u" by (simp only: t'_def sans_export_rebuild sans_export_init)
  ultimately show thesis using that[of t'] t2 sans_export_fields[of t' u] by (simp add: epoch_def)
qed

subsection \<open>The backward scan\<close>

definition session_seqs :: "(nat \<Rightarrow> GOIEntry) \<Rightarrow> nat \<Rightarrow> nat \<Rightarrow> nat \<Rightarrow> nat list" where
  "session_seqs goi client_id epoch n =
     map ge_client_seq (filter (\<lambda>e. ge_client_id e = client_id \<and> ge_session_epoch e = epoch) (map goi [0..<n]))"

lemma scan_goi_back_last:
  "\<forall>i<n. ge_global_seq (goi i) = i \<Longrightarrow>
   scan_goi_back goi c e n = (if session_seqs goi c e n = [] then None else Some (last (session_seqs goi c e n)))"
  by (induction n) (auto simp: session_seqs_def)

lemma snapshot_entry:
  assumes "c < 2 ^ 32" "0 < e" "e < 2 ^ 32"
  shows "snd (ReadSessionEntrySnapshot table c e DurableSessionSnapshot_init) =
    (case session_lookup table (MakeSessionKey c e) of
       None \<Rightarrow> DurableSessionSnapshot_init
     | Some entry \<Rightarrow> DurableSessionSnapshot_init\<lparr>ds_active := entry_active entry, ds_fenced := entry_fenced entry,
         ds_session_epoch := unat (drop_bit 32 (se_state_word entry)), ds_expected_seq := se_expected_seq entry,
         ds_committed_hwm := se_committed_hwm entry, ds_highest_sequenced := se_highest_sequenced entry,
         ds_reconnect_committed_hwm := se_committed_hwm entry\<rparr>)"
proof -
  have key: "SessionKeyFor c e = MakeSessionKey c e" using assms(1) by (simp add: SessionKeyFor_def MakeSessionKey_def u32_def)
  have "MakeSessionKey c e \<noteq> 0"
  proof
    assume "MakeSessionKey c e = 0"
    then have "u32 c * 2 ^ 32 + e = 0" using session_key_unat[OF assms(3), of c] by simp
    then show False using assms(2) by simp
  qed
  then show ?thesis using assms(2)
    by (simp add: ReadSessionEntrySnapshot_def session_lookup_def FindSessionEntry_def key Let_def split: option.split)
qed

subsection \<open>Properties\<close>

text \<open>C6: a restarted sequencer continues the committed log.  Let the index hold a log of which the first entries are committed.
  Starting the sequencer again gives it exactly the committed prefix: the next index and the next message number are the ones after it, no
  committed entry is touched, the committed frontier stays where it was, and the control epoch is one higher.  Every session
  resumes behind everything committed for it and everything the session table has published, and at no later point; every client's ordered count covers
  exactly the messages of its committed session batches, or what was counted before if that is more.\<close>

theorem restart_resumes_committed_log:
  assumes "index_holds 0 0 log t" "\<forall>p\<in>set log. pb_num_msg p < 2 ^ 32" "committed_count t \<le> length log" "committed_count t \<le> kGOICapacity"
  shows "\<exists>t'. Sequencer5_start registered t = Some t' \<and> index_holds 0 0 (take (committed_count t) log) t' \<and>
    tp_goi t' = tp_goi t \<and> committed_count t' = committed_count t \<and> tp_control_epoch t' = u64 (tp_control_epoch t + 1) \<and>
    tp_recovery_complete t' \<and> tp_completed_ranges t' = [] \<and>
    (\<forall>k. om_get 0 (tp_recovered_next_expected t') k = recovered_frontier t k) \<and>
    (\<forall>c. om_get 0 (tp_per_client_ordered t') c = max (om_get 0 (tp_per_client_ordered t) c) (ordered_of (take (committed_count t) log) c))"
proof -
  define n where "n = committed_count t"
  obtain r where r: "recover_goi t = Some r" "rv_next_goi_index r = n" "rv_global_seq r = sum_list (map pb_num_msg (take n log))"
    "om_ok (rv_msg_counts r)" "\<forall>c. om_get 0 (rv_msg_counts r) c = ordered_of (take n log) c"
    "\<forall>k. om_get 0 (rv_next_expected r) k =
       fold max (map (\<lambda>i. u64 (ge_client_seq (tp_goi t i) + 1)) (filter (\<lambda>i. session_entry (tp_goi t i) k) [0..<n])) 0"
    unfolding n_def by (rule recover_goi_log[OF assms])
  obtain t' where t': "Sequencer5_start registered t = Some t'" "tp_goi t' = tp_goi t" "tp_global_seq t' = rv_global_seq r"
    "tp_global_batch_seq t' = n" "tp_committed_seq t' = (if n = 0 then UINT64_MAX else n - 1)"
    "tp_recovered_next_expected t' = (case tp_session_table t of None \<Rightarrow> rv_next_expected r
        | Some table \<Rightarrow> fold (recover_session_slot table) [0..<kMaxSessions] (rv_next_expected r))"
    "tp_per_client_ordered t' = fold restore_ordered_count (rv_msg_counts r) (tp_per_client_ordered t)"
    "tp_control_epoch t' = u64 (tp_control_epoch t + 1)" "tp_recovery_complete t'" "tp_completed_ranges t' = []"
    by (rule Sequencer5_start_fields[OF r(1), of registered, unfolded r(2)])
  have le: "n \<le> length log" "n \<le> kGOICapacity" using assms(3,4) by (simp_all add: n_def)
  then have "committed_count t' = n" using t'(5) by (auto simp: committed_count_def kGOICapacity_def UINT64_MAX_def)
  moreover have "index_holds 0 0 (take n log) t'"
  proof -
    have "sum_list (map pb_num_msg log) = sum_list (map pb_num_msg (take n log)) + sum_list (map pb_num_msg (drop n log))"
      by (metis append_take_drop_id map_append sum_list_append)
    then show ?thesis using assms(1) t'(2-4) r(3) le(1) by (simp add: index_holds_def min_def)
  qed
  moreover have "om_get 0 (tp_recovered_next_expected t') k = recovered_frontier t k" for k
    unfolding t'(6) recover_slots_get r(6)[rule_format] fold_max_frontier recovered_frontier_def n_def ..
  moreover have "om_get 0 (tp_per_client_ordered t') c = max (om_get 0 (tp_per_client_ordered t) c) (ordered_of (take n log) c)" for c
    unfolding t'(7) restore_counts[OF r(4)] using r(5) by simp
  ultimately show ?thesis using t'(1,2,8-10) unfolding n_def by blast
qed

text \<open>C40: what a reconnecting client is told.  Assume the committed entries of the session carry nondecreasing client sequences in index order.
  The backward scan finds an entry if and only if the session has a committed one, and reports its highest committed sequence.
  When one is found, the answer is the smaller of that sequence and the mark in the session table, so it is never above what the
  index holds for the session.  When none is found, the answer is the table's mark, whatever the index holds.\<close>

theorem reconnect_answer_exact:
  assumes "\<forall>i<committed_count t. ge_global_seq (tp_goi t i) = i" "committed_count t \<le> kGOICapacity" "c < 2 ^ 32" "0 < e" "e < 2 ^ 32"
    "sorted (session_seqs (tp_goi t) c e (committed_count t))"
  defines "seqs \<equiv> session_seqs (tp_goi t) c e (committed_count t)"
    and "hwm \<equiv> (case session_lookup (tp_session_table t) (MakeSessionKey c e) of None \<Rightarrow> 0 | Some entry \<Rightarrow> se_committed_hwm entry)"
  shows "\<exists>s. ReadSessionSnapshot t c e = Some s \<and> ds_goi_committed_hwm_found s = (seqs \<noteq> []) \<and>
    ds_reconnect_committed_hwm s = (if seqs = [] then hwm else min hwm (Max (set seqs)))"
proof -
  have mx: "last seqs = Max (set seqs)" if "seqs \<noteq> []"
    using that assms(6) unfolding seqs_def[symmetric]
    by (cases seqs rule: rev_cases) (auto simp: sorted_append intro!: Max_eqI[symmetric])
  have "ScanGOICommittedHwm t c e = Some (if seqs = [] then (False, 0) else (True, last seqs))"
  proof (cases "tp_committed_seq t = UINT64_MAX")
    case True
    then show ?thesis by (simp add: ScanGOICommittedHwm_def seqs_def session_seqs_def committed_count_def)
  next
    case False
    then have cc: "committed_count t = Suc (tp_committed_seq t)" by (simp add: committed_count_def)
    then have "scan_goi_back (tp_goi t) c e (tp_committed_seq t + 1) = (if seqs = [] then None else Some (last seqs))"
      using scan_goi_back_last[OF assms(1), of c e] by (simp only: seqs_def Suc_eq_plus1)
    then show ?thesis using False assms(2,4) cc by (simp add: ScanGOICommittedHwm_def)
  qed
  then show ?thesis using mx snapshot_entry[OF assms(3-5), of "tp_session_table t"]
    by (auto simp: ReadSessionSnapshot_def Let_def ReconnectAnswerHwm_def hwm_def DurableSessionSnapshot_init_def split: option.splits)
qed

text \<open>The sample index of the export theory, with its first batch committed and the second not.\<close>

theorem restart_resumes_committed_log_witness:
  "\<exists>t'. Sequencer5_start [0, 1] (sample_index\<lparr>tp_committed_seq := 0\<rparr>) = Some t' \<and> index_holds 0 0 [sample_log ! 0] t' \<and>
     tp_global_seq t' = 10 \<and> om_get 0 (tp_per_client_ordered t') 7 = 10"
proof -
  let ?t = "sample_index\<lparr>tp_committed_seq := 0\<rparr>"
  have c: "committed_count ?t = 1" by (simp add: committed_count_def UINT64_MAX_def)
  have h: "index_holds 0 0 sample_log ?t" using sample_log_state by (simp add: log_state_def index_holds_def)
  have w: "\<forall>p\<in>set sample_log. pb_num_msg p < 2 ^ 32" by (simp add: sample_log_def header_batch_def sample_batch_def)
  have p: "committed_count ?t \<le> length sample_log" "committed_count ?t \<le> kGOICapacity"
    using c sample_log_facts(1) by (simp_all add: kGOICapacity_def)
  have tk: "take 1 sample_log = [sample_log ! 0]" by (simp add: sample_log_def)
  have b: "pb_num_msg (sample_log ! 0) = 10" "pb_session_epoch (sample_log ! 0) = 1" "pb_client_id (sample_log ! 0) = 7"
    by (simp_all add: sample_log_def header_batch_def sample_batch_def)
  have o: "ordered_of [sample_log ! 0] 7 = 10" "om_get 0 (tp_per_client_ordered sample_index) 7 = 0"
    using b by (simp_all add: ordered_of_def u32_def sample_index_def sample_topic_def om_get_def)
  obtain t' where t': "Sequencer5_start [0, 1] ?t = Some t'" "index_holds 0 0 [sample_log ! 0] t'" "om_get 0 (tp_per_client_ordered t') 7 = 10"
    using restart_resumes_committed_log[OF h w p, of "[0, 1]"] unfolding c tk by (auto simp: o)
  moreover have "tp_global_seq t' = 10" using t'(2) b(1) by (simp add: index_holds_def)
  ultimately show ?thesis by blast
qed

theorem reconnect_answer_exact_witness:
  "\<exists>s. ReadSessionSnapshot sample_index 7 1 = Some s \<and> ds_goi_committed_hwm_found s \<and> ds_reconnect_committed_hwm s = 0"
proof -
  have c: "committed_count sample_index = 2" by (simp add: committed_count_def sample_index_def UINT64_MAX_def)
  have u: "[0..<2] = [0, 1]" by (simp add: upt_rec)
  define ep :: nat where "ep = 1"
  have ep: "0 < ep" "ep < 2 ^ 32" by (simp_all add: ep_def)
  have seqs: "session_seqs (tp_goi sample_index) 7 ep 2 = [0, 0]"
    unfolding session_seqs_def u ep_def
    by (simp add: sample_index_def goi_entry_of_def hold_meta_of_def sample_log_def header_batch_def sample_batch_def)
  have v: "\<forall>i<2. ge_global_seq (tp_goi sample_index i) = i" by (simp add: sample_index_def goi_entry_of_def)
  have "\<exists>s. ReadSessionSnapshot sample_index 7 ep = Some s \<and> ds_goi_committed_hwm_found s \<and> ds_reconnect_committed_hwm s = 0"
    using reconnect_answer_exact[of sample_index 7 ep] v ep by (simp add: c seqs kGOICapacity_def)
  then show ?thesis unfolding ep_def .
qed

end
