(* ===== verification/Spec2Isabelle.thy ===== *)
theory Spec2Isabelle
  imports DurableFrontier Level5Props Reservation SegmentLog PbrPublish WrittenRanges AckFrontiers
    CompletedRanges CvFlush HeldSlots CommitProps EpochRun MailboxSegments CorfuToken Recovery
begin

text \<open>
  Embarcadero is a shared log over disaggregated (CXL) memory.  This development models its total-order
  path, ORDER=5, from the receipt of a batch to its place in the log, together with the frontiers from
  which batches are acknowledged and the mailbox transport and token sequencer of the Corfu
  baseline.  File names below are relative to \<open>src/src/\<close>.

  \<^bold>\<open>The program.\<close>  A publisher sends batches to a broker.  The broker checks the body, reserves bytes of
  its log segment and a slot of its pending batch ring (PBR), receives the payload and publishes the
  slot.  On the sequencer node one scanner per broker reads published slots and pushes them into the
  current of three epoch buffers; a driver thread seals and rotates the buffers; the epoch sequencer thread
  extracts a sealed epoch, classifies its batches by session (emit, hold until the gap closes,
  reject, fence), and commits what became ready: each batch gets an entry of the global order index
  (GOI) and a range of message numbers.  A further thread publishes the contiguous prefix of committed
  GOI ranges.  Slots whose batches no structure holds any more are given back to the ring, and the
  completion vector, the session table and the per-client counts drive acknowledgements.

  \<^bold>\<open>Theories, in the order of the data path.\<close>
  \<^item> \<open>Prelude\<close>, \<open>OrdMap\<close>: machine integers as numbers with the wrap-around written out (\<open>u64\<close>, \<open>u32\<close>,
    \<open>sub64\<close>), \<open>std::map\<close> and \<open>absl\<close> maps as strictly sorted association lists with the interface
    \<open>ordered_map\<close>.
  \<^item> \<open>BatchWire\<close>: \<open>common/wire_formats.h\<close>, \<open>network_manager/batch_validation.h\<close>.  The body check on the
    byte level: it accepts exactly the bodies that messages tile, and reads nothing outside.
  \<^item> \<open>Reservation\<close>, \<open>SegmentLog\<close>, \<open>PbrPublish\<close>, \<open>WrittenRanges\<close>: \<open>embarlet/bounded_reservation.h\<close> and the
    receive path of \<open>embarlet/topic.cc\<close>.  Ring reservations as interleaved steps of any number of producers,
    log bytes, claim and publication of slots, ingest deduplication, and the first byte not yet
    validated: reservations are disjoint, a slot is published once and by its claimant.
  \<^item> \<open>SessionTable\<close>, \<open>ClientState\<close>, \<open>Dedup\<close>, \<open>RadixSort\<close>: \<open>embarlet/topic_session_key.h\<close>,
    \<open>session_admission.h\<close>, \<open>topic_session.cc\<close>, \<open>sequencer_utils.h\<close>.  The open-addressed session table refines a map
    (locale \<open>session_store\<close>) and its publications are monotone; duplicate filters never drop a new batch
    (locale \<open>dedup_filter\<close>); both sorts are stable sorts.
  \<^item> \<open>Level5State\<close>, \<open>Level5Classify\<close>, \<open>Level5Shard\<close>: the state of \<open>Topic\<close> (record \<open>Topic\<close>), of a shard
    (\<open>Level5ShardState\<close>) and of batches, and \<open>ProcessLevel5Batches\<close> of
    \<open>embarlet/topic_order5_sessions.cc\<close> with all its lambdas.  \<open>Level5Fifo\<close> and \<open>Level5Props\<close> show that a session's
    batches leave the classifier in strictly increasing sequence; \<open>Level5Frame\<close> and \<open>Level5Types\<close> what a pass
    leaves alone and that it keeps the batches well typed; \<open>Level5Sample\<close> holds sample values.
  \<^item> \<open>EpochBuffer\<close>, \<open>EpochPipeline\<close>: \<open>EpochBuffer5\<close> of \<open>embarlet/topic.h\<close>, the scanner's pushes and the driver of
    \<open>embarlet/topic_order5_epoch.cc\<close> and \<open>topic_order5_scanner.cc\<close>.  Over every interleaving of scanners, sealers and the sequencer a
    buffer loses, repeats and reorders nothing; rotation makes progress.
  \<^item> \<open>HeldSlots\<close>, \<open>CvFlush\<close>, \<open>Commit\<close>, \<open>CommitProps\<close>: ring consumption, the completion vector and \<open>CommitEpoch\<close> of
    \<open>embarlet/topic_order5_commit.cc\<close>.  Commits tile the order, a refused commit publishes nothing, counts are
    exact, consumption stops at held slots; a commit made while the topic stops drops its completed range, as the code does.
  \<^item> \<open>EpochRun\<close>: \<open>EpochSequencerThread\<close>.  Composes extraction, classification and commit: over any sequence of epochs, idle
    ticks and shutdown passes the index holds exactly the committed batches, in order, without gaps.
  \<^item> \<open>CompletedRanges\<close>: the ring of completed ranges and \<open>CommittedSeqUpdaterThread\<close>; the published
    frontier is the end of the contiguous prefix.
  \<^item> \<open>GoiExport\<close>: \<open>embarlet/topic_export.cc\<close>.  A subscriber connection ships exactly its broker's part of the committed log;
    the slot-ring export of the baselines stays inside the ring.
  \<^item> \<open>Recovery\<close>: \<open>RecoverSequencer5State\<close>, the start of \<open>Sequencer5\<close> and \<open>network_manager/session_snapshot.h\<close>.  A restart resumes
    exactly the committed log; a reconnecting client is told the smaller of its session's highest committed sequence and its mark in the table.
  \<^item> \<open>DurableFrontier\<close>, \<open>AckFrontiers\<close>: \<open>common/durable_frontier.h\<close> and the acknowledgement counts of \<open>embarlet/topic.cc\<close>
    for every baseline.
  \<^item> \<open>Mailbox\<close>, \<open>MailboxFifo\<close>, \<open>MailboxSegments\<close>: \<open>cxl_transport/\<close>.  The ring as interleaved steps of producer
    and consumer refines a FIFO queue (locale \<open>spsc_queue\<close>), also across wrap-around of the cursors; layout and
    attach checks of segments.
  \<^item> \<open>CorfuToken\<close>: \<open>cxl_manager/corfu_sequencer_service.cc\<close> and \<open>corfu_mailbox_sequencer.cc\<close>, over the queue interface.

  \<^bold>\<open>Conventions.\<close>  A pointer into shared memory is an offset.  Classes are records whose field names carry a
  prefix; operations take and return them.  A failed \<open>CHECK\<close>, which aborts the process, is \<open>None\<close>.
  \<open>SteadyNowNs\<close> reads the next value of an arbitrary clock, so results hold for every timing.
  Hash containers are iterated in key order.  Threads are atomic steps of inductive relations with history fields that record what
  happened; a critical section is one step.  Cache-line flushes and fences change no modelled value.
  How \<open>std::sort\<close> orders equal keys is a parameter in \<open>RadixSort\<close>; the classifier's own sorts are modelled as stable.
  Several shards run one after the other in index order; the results on sessions and on the log are about one shard, the default.
  Token requests of the Corfu sequencer are served one at a time, as its mailbox thread does.

  \<^bold>\<open>Bounds and fuel.\<close>  Loops over tables carry the table's own bound (session probes \<open>kMaxSessions\<close>,
  deduplication probes 128, buffer retries of the push loops).  Loops that wait for
  another thread are steps of a relation, or run on the number of attempts, with separate
  results that enough attempts succeed (\<open>mailbox_produce_terminates\<close>, \<open>epoch_rotation_live\<close>).  The ring of
  completed ranges and the mailbox invariant count in unbounded numbers, which the code's masks agree with.

  \<^bold>\<open>Not modelled.\<close>  The slot polling of \<open>BrokerScannerWorker5\<close> and the trailing epochs of the driver depend on wall-clock
  heuristics.  The legacy orders 3 and 4 and the delegation thread share no state with the path above, nor do the Scalog and LazyLog sequencers and their ordering cores.  The network
  front end, publisher and subscriber clients, disk and chain replication, RDMA transport, heartbeats, configuration and
  the process around them are input and output, operating-system calls or third-party services.  Flight
  recording, profiling, traces and fault injection do not influence the modelled state.
\<close>

end
